(* ===== verification/Prelude.thy ===== *)
theory Prelude
  imports Main "HOL-Library.Word" "HOL-Library.Multiset"
begin

text \<open>
  Types and lemmas the components share.

  Rust integers keep their width (\<open>u8\<close>, \<open>u32\<close>, \<open>u64\<close>, \<open>i32\<close>; \<open>usize\<close> is 64 bits wide).
  A Rust computation that can fail has the result type \<open>'a rust\<close>, an \<open>io::Result\<close> is the sum
  \<open>io_error + 'a\<close>, and futures answer with \<open>Async\<close>.  \<open>swap_remove\<close> is \<open>Vec::swap_remove\<close> of the
  standard library, which both the interest list of the epoll backend and the worker table of the
  thread pool use.
\<close>

unbundle bit_operations_syntax

type_synonym u8 = "8 word"
type_synonym u32 = "32 word"
type_synonym u64 = "64 word"
type_synonym i32 = "32 word"
type_synonym usize = "64 word"

text \<open>
  Facts that say what an operation leaves alone are collected in \<open>frame\<close>, facts that unfold one
  call of the outside world in \<open>world\<close>.
\<close>

named_theorems frame
named_theorems world

subsection \<open>Results\<close>

datatype 'a rust = Val 'a | Panic | UB

text \<open>
  \<open>Panic\<close> is a panic, \<open>UB\<close> undefined behaviour: the use of memory that has been freed or of a null
  pointer.  A loop that need not end gives \<open>'a rust option\<close>, with \<open>None\<close> for no result.
\<close>

fun and_then :: "'a rust option \<Rightarrow> ('a \<Rightarrow> 'b rust option) \<Rightarrow> 'b rust option" where
  "and_then (Some (Val x)) f = f x"
| "and_then (Some Panic) f = Some Panic"
| "and_then (Some UB) f = Some UB"
| "and_then None f = None"

lemma and_then_ValE:
  assumes "and_then r f = Some (Val y)"
  obtains x where "r = Some (Val x)" and "f x = Some (Val y)"
  using assms by (cases "(r, f)" rule: and_then.cases) auto

lemma and_then_UBE [elim!]:
  assumes "and_then r f = Some UB"
  obtains "r = Some UB" | x where "r = Some (Val x)" and "f x = Some UB"
  using assms by (cases "(r, f)" rule: and_then.cases) auto

lemma and_then_not_UB:
  "r \<noteq> Some UB \<Longrightarrow> (\<And>x. r = Some (Val x) \<Longrightarrow> f x \<noteq> Some UB) \<Longrightarrow> and_then r f \<noteq> Some UB"
  by (cases "(r, f)" rule: and_then.cases) auto

lemma map_option_Val_not_UB [simp]: "map_option Val x \<noteq> Some UB"
  by (cases x) simp_all

datatype 'a Async = NotReady | Ready 'a

datatype error_kind = Interrupted | WouldBlock | WriteZero | OtherKind

record io_error =
  kind :: error_kind
  raw_os_error :: "int option"

abbreviation is_ok :: "'e + 'a \<Rightarrow> bool" where
  "is_ok r \<equiv> \<not> isl r"

text \<open>\<open>Poll<T, io::Error>\<close>.\<close>

type_synonym 'a io_poll = "io_error + 'a Async"

subsection \<open>Durations and checked arithmetic\<close>

text \<open>
  A \<open>Duration\<close> is its whole seconds and its nanoseconds below one second.  \<open>chk\<close> says whether the
  build checks arithmetic for overflow (debug builds panic, release builds wrap).
\<close>

type_synonym duration = "u64 \<times> u32"

definition duration_ok :: "duration \<Rightarrow> bool" where
  "duration_ok d \<longleftrightarrow> unat (snd d) < 1000000000"

definition duration_ms :: "duration \<Rightarrow> nat" where
  "duration_ms d = unat (fst d) * 1000 + unat (snd d) div 1000000"

definition mul_u64 :: "bool \<Rightarrow> u64 \<Rightarrow> u64 \<Rightarrow> u64 rust" where
  "mul_u64 chk a b = (if chk \<and> 2 ^ 64 \<le> unat a * unat b then Panic else Val (a * b))"

definition mul_u32 :: "bool \<Rightarrow> u32 \<Rightarrow> u32 \<Rightarrow> u32 rust" where
  "mul_u32 chk a b = (if chk \<and> 2 ^ 32 \<le> unat a * unat b then Panic else Val (a * b))"

definition add_u32 :: "bool \<Rightarrow> u32 \<Rightarrow> u32 \<Rightarrow> u32 rust" where
  "add_u32 chk a b = (if chk \<and> 2 ^ 32 \<le> unat a + unat b then Panic else Val (a + b))"

subsection \<open>Vec::swap\_remove\<close>

definition swap_remove :: "'a list \<Rightarrow> nat \<Rightarrow> 'a list" where
  "swap_remove xs i = butlast (xs[i := last xs])"

lemma length_swap_remove [simp]: "length (swap_remove xs i) = length xs - 1"
  by (simp add: swap_remove_def)

lemma swap_remove_snoc_last [simp]: "swap_remove (xs @ [x]) (length xs) = xs"
  by (simp add: swap_remove_def)

lemma swap_remove_snoc: "i < length xs \<Longrightarrow> swap_remove (xs @ [x]) i = xs[i := x]"
  by (simp add: swap_remove_def list_update_append)

lemma take_swap_remove: "i < length xs \<Longrightarrow> take i (swap_remove xs i) = take i xs"
  by (cases xs rule: rev_cases) (auto simp: swap_remove_snoc less_Suc_eq)

lemma mset_swap_remove: "i < length xs \<Longrightarrow> mset (swap_remove xs i) = mset xs - {#xs ! i#}"
proof (cases xs rule: rev_cases)
  case (snoc ys y)
  assume "i < length xs"
  then consider "i = length ys" | "i < length ys" using snoc by fastforce
  then show ?thesis
  proof cases
    case 1
    then show ?thesis using snoc by simp
  next
    case 2
    then show ?thesis
      using snoc by (simp add: swap_remove_snoc mset_update nth_append)
  qed
qed simp

lemma mset_drop_swap_remove:
  assumes "i < length xs"
  shows "mset (drop i (swap_remove xs i)) = mset (drop (Suc i) xs)"
proof -
  have "mset (take i xs) + mset (drop i (swap_remove xs i)) = mset (swap_remove xs i)"
    using take_swap_remove [OF assms] by (metis append_take_drop_id mset_append)
  moreover have "mset xs = mset (take i xs) + {#xs ! i#} + mset (drop (Suc i) xs)"
    by (subst id_take_nth_drop [OF assms]) simp
  ultimately show ?thesis
    using mset_swap_remove [OF assms] by simp
qed

lemma set_drop_swap_remove:
  "i < length xs \<Longrightarrow> set (drop i (swap_remove xs i)) = set (drop (Suc i) xs)"
  by (rule mset_eq_setD) (rule mset_drop_swap_remove)

subsection \<open>Counting in lists\<close>

lemma count_list_remove:
  "i < length xs \<Longrightarrow> count_list (take i xs @ drop (Suc i) xs) x = count_list xs x - (if xs ! i = x then 1 else 0)"
  by (subst (3) id_take_nth_drop [of i xs]) simp_all

lemma distinct_count_list: "(\<And>x. count_list xs x \<le> 1) \<Longrightarrow> distinct xs"
proof (induction xs)
  case (Cons y ys)
  have "count_list ys x \<le> 1" for x using Cons.prems [of x] by (simp split: if_splits)
  moreover have "y \<notin> set ys" using Cons.prems [of y] by (simp add: count_list_0_iff)
  ultimately show ?case using Cons.IH by simp
qed simp

subsection \<open>Bit sets\<close>

lemma word_and_eq_right_iff:
  fixes a b :: "'a::len word"
  shows "a AND b = b \<longleftrightarrow> (\<forall>n. bit b n \<longrightarrow> bit a n)"
  by (auto simp: bit_eq_iff bit_simps dest: bit_imp_le_length)

lemma word_and_neq_0_iff:
  fixes a b :: "'a::len word"
  shows "a AND b \<noteq> 0 \<longleftrightarrow> (\<exists>n. bit a n \<and> bit b n)"
  by (auto simp: bit_eq_iff bit_simps dest: bit_imp_le_length)

lemma bit_fold_or:
  fixes m :: "'a::len word"
  shows "bit (fold (\<lambda>x m. m OR f x) xs m) n \<longleftrightarrow> bit m n \<or> (\<exists>x \<in> set xs. bit (f x) n)"
  by (induction xs arbitrary: m) (auto simp: bit_simps)

end
