(* ===== verification/Environment.thy ===== *)
theory Environment
  imports Prelude
begin

text \<open>
  The code this development does not have: the Linux kernel behind \<open>libc\<close>, the numeric values of
  \<open>libc\<close>'s constants, the flag operations the \<open>bitflags\<close> macro generates, the task cell
  \<open>futures::task::AtomicTask\<close>, the queue \<open>crossbeam::sync::SegQueue\<close> and user closures.

  None of it is defined here.  A record \<open>env\<close> holds it as functions, and every definition of the
  development that uses it takes an \<open>env\<close> as its first argument.  An answer of the outside world
  may depend on everything that happened before: the oracles of \<open>env\<close> take the trace of all
  external calls made so far, so one \<open>env\<close> is one arbitrary behaviour of the outside world.
  What a property needs to know about that behaviour is a named hypothesis (\<open>flags_ok\<close>,
  \<open>seg_queue_ok\<close>, ...) that states documented behaviour.
\<close>

type_synonym fd = int
type_synonym addr = nat
type_synonym task = nat
type_synonym sockaddr = nat

subsection \<open>Calls that leave the program\<close>

datatype ctl_op = EPOLL_CTL_ADD | EPOLL_CTL_MOD | EPOLL_CTL_DEL

record event_tag =
  tag_ptr :: addr
  tag_epoll_fd :: fd

datatype call =
    EpollCreate1
  | EpollCtl fd ctl_op fd "(u32 \<times> addr) option"
  | EpollWait fd nat i32
  | EpollPwait fd nat i32
  | EventReturned u32 addr
  | CreateEventfd
  | CloseFd fd
  | ReadEventfd fd
  | WriteEventfd fd
  | TaskRegister addr task
  | TaskNotify addr
  | SegPush addr usize
  | SegTryPop addr
  | HandlerCall addr event_tag usize
  | UserHandler addr addr u32
  | SigactionUsr2
  | PthreadKill usize
  | SetNonblocking fd
  | NewTcpSocket sockaddr
  | BindTcp sockaddr
  | BindUdp sockaddr
  | Accept4 fd
  | ConnectTo fd sockaddr
  | Recv fd nat
  | Send fd "u8 list"
  | RecvFromSock fd nat
  | SendToSock fd "u8 list" sockaddr

text \<open>The trace: every call, and whether it succeeded.\<close>

type_synonym trace = "(call \<times> bool) list"

datatype libc_flag =
    EPOLLIN | EPOLLOUT | EPOLLRDHUP | EPOLLPRI | EPOLLERR | EPOLLHUP | EPOLLET | EPOLLONESHOT

record env =
  flag_bits :: "libc_flag \<Rightarrow> u32"
  bf_empty :: u32
  bf_union :: "u32 \<Rightarrow> u32 \<Rightarrow> u32"
  bf_contains :: "u32 \<Rightarrow> u32 \<Rightarrow> bool"
  bf_intersects :: "u32 \<Rightarrow> u32 \<Rightarrow> bool"
  bf_truncate :: "u32 \<Rightarrow> u32"
  einprogress :: int
  os_int :: "trace \<Rightarrow> call \<Rightarrow> io_error + int"
  os_events :: "trace \<Rightarrow> call \<Rightarrow> io_error + (u32 \<times> addr) list"
  os_pop :: "trace \<Rightarrow> addr \<Rightarrow> usize option"
  os_data :: "trace \<Rightarrow> call \<Rightarrow> io_error + u8 list"
  os_peer :: "trace \<Rightarrow> call \<Rightarrow> fd \<times> sockaddr"

subsection \<open>Making a call\<close>

record world =
  trace :: trace

definition emit :: "call \<Rightarrow> 'a world_scheme \<Rightarrow> 'a world_scheme" where
  "emit c w = w\<lparr>trace := trace w @ [(c, True)]\<rparr>"

definition sys :: "env \<Rightarrow> call \<Rightarrow> 'a world_scheme \<Rightarrow> (io_error + int) \<times> 'a world_scheme" where
  "sys E c w = (let r = os_int E (trace w) c in (r, w\<lparr>trace := trace w @ [(c, is_ok r)]\<rparr>))"

definition try_pop :: "env \<Rightarrow> addr \<Rightarrow> 'a world_scheme \<Rightarrow> usize option \<times> 'a world_scheme" where
  "try_pop E q w = (os_pop E (trace w) q, emit (SegTryPop q) w)"

lemma trace_emit [simp]: "trace (emit c w) = trace w @ [(c, True)]"
  by (simp add: emit_def)

lemma trace_sys [simp]:
  "trace (snd (sys E c w)) = trace w @ [(c, is_ok (os_int E (trace w) c))]"
  by (simp add: sys_def Let_def)

lemma sys_result [simp]: "fst (sys E c w) = os_int E (trace w) c"
  by (simp add: sys_def Let_def)

subsection \<open>Documented behaviour, as hypotheses\<close>

text \<open>
  The flag operations of a \<open>bitflags!\<close> type over \<open>u32\<close>, and the constants: each a bit pattern of
  its own.
\<close>

definition flags_ok :: "env \<Rightarrow> bool" where
  "flags_ok E \<longleftrightarrow>
     bf_empty E = 0 \<and>
     (\<forall>a b. bf_union E a b = a OR b) \<and>
     (\<forall>a b. bf_contains E a b = (a AND b = b)) \<and>
     (\<forall>a b. bf_intersects E a b = (a AND b \<noteq> 0)) \<and>
     (\<forall>x. bf_truncate E x =
        x AND fold (\<lambda>f m. m OR flag_bits E f)
                [EPOLLIN, EPOLLOUT, EPOLLRDHUP, EPOLLPRI, EPOLLERR, EPOLLHUP] 0) \<and>
     (\<forall>f. flag_bits E f \<noteq> 0) \<and>
     (\<forall>f g. f \<noteq> g \<longrightarrow> flag_bits E f AND flag_bits E g = 0)"

lemma flags_okD:
  assumes "flags_ok E"
  shows "bf_empty E = 0" "bf_union E a b = a OR b" "bf_contains E a b \<longleftrightarrow> a AND b = b"
    "bf_intersects E a b \<longleftrightarrow> a AND b \<noteq> 0" "flag_bits E f \<noteq> 0"
    "f \<noteq> g \<Longrightarrow> flag_bits E f AND flag_bits E g = 0"
  using assms by (simp_all add: flags_ok_def)

text \<open>
  \<open>SegQueue\<close> is a first-in first-out queue: its contents are what the pushes and pops of the trace
  leave, and \<open>try_pop\<close> answers with the oldest element.
\<close>

fun seg_step :: "addr \<Rightarrow> call \<times> bool \<Rightarrow> usize list \<Rightarrow> usize list" where
  "seg_step q (SegPush q' d, _) xs = (if q' = q then xs @ [d] else xs)"
| "seg_step q (SegTryPop q', _) xs = (if q' = q then tl xs else xs)"
| "seg_step q _ xs = xs"

definition seg_contents :: "addr \<Rightarrow> trace \<Rightarrow> usize list" where
  "seg_contents q tr = fold (seg_step q) tr []"

lemma seg_contents_Nil [simp]: "seg_contents q [] = []"
  by (simp add: seg_contents_def)

lemma seg_contents_snoc [simp]: "seg_contents q (tr @ [c]) = seg_step q c (seg_contents q tr)"
  by (simp add: seg_contents_def)

definition seg_queue_ok :: "env \<Rightarrow> bool" where
  "seg_queue_ok E \<longleftrightarrow>
     (\<forall>tr q. os_pop E tr q =
        (case seg_contents q tr of [] \<Rightarrow> None | d # _ \<Rightarrow> Some d))"

subsection \<open>One concrete outside world\<close>

text \<open>
  The values of the Linux headers and well-behaved oracles, on which hypotheses and theorems are
  exercised: every system call succeeds, no events, an exact queue.
\<close>

fun linux_flag :: "libc_flag \<Rightarrow> u32" where
  "linux_flag EPOLLIN = 0x001"
| "linux_flag EPOLLPRI = 0x002"
| "linux_flag EPOLLOUT = 0x004"
| "linux_flag EPOLLERR = 0x008"
| "linux_flag EPOLLHUP = 0x010"
| "linux_flag EPOLLRDHUP = 0x2000"
| "linux_flag EPOLLONESHOT = 0x40000000"
| "linux_flag EPOLLET = 0x80000000"

fun linux_int :: "call \<Rightarrow> int" where
  "linux_int EpollCreate1 = 3"
| "linux_int CreateEventfd = 4"
| "linux_int (ReadEventfd _) = 1"
| "linux_int (WriteEventfd _) = 8"
| "linux_int (NewTcpSocket _) = 5"
| "linux_int (BindTcp _) = 5"
| "linux_int (BindUdp _) = 5"
| "linux_int (Accept4 _) = 5"
| "linux_int (Send _ bs) = int (length bs)"
| "linux_int (SendToSock _ bs _) = int (length bs)"
| "linux_int _ = 0"

definition linux :: env where
  "linux = \<lparr>flag_bits = linux_flag, bf_empty = 0, bf_union = (\<lambda>a b. a OR b),
     bf_contains = (\<lambda>a b. a AND b = b), bf_intersects = (\<lambda>a b. a AND b \<noteq> 0),
     bf_truncate = (\<lambda>x. x AND 0x201F), einprogress = 115,
     os_int = (\<lambda>_ c. Inr (linux_int c)), os_events = (\<lambda>_ _. Inr []),
     os_pop = (\<lambda>tr q. case seg_contents q tr of [] \<Rightarrow> None | d # _ \<Rightarrow> Some d),
     os_data = (\<lambda>_ _. Inr []), os_peer = (\<lambda>_ _. (0, 0))\<rparr>"

lemma linux_flag_disjoint: "f \<noteq> g \<Longrightarrow> linux_flag f AND linux_flag g = 0"
  by (cases f; cases g) simp_all

lemma linux_flag_nonzero: "linux_flag f \<noteq> 0"
  by (cases f) simp_all

lemma flags_ok_linux [simp]: "flags_ok linux"
  by (simp add: flags_ok_def linux_def linux_flag_disjoint linux_flag_nonzero)

text \<open>The hypotheses do not look at the other oracles: variants of \<open>linux\<close> satisfy them too.\<close>

lemma flags_ok_update [simp]:
  "flags_ok (E\<lparr>os_int := f\<rparr>) = flags_ok E"
  "flags_ok (E\<lparr>os_events := g\<rparr>) = flags_ok E"
  "flags_ok (E\<lparr>os_data := d\<rparr>) = flags_ok E"
  "flags_ok (E\<lparr>os_peer := p\<rparr>) = flags_ok E"
  by (simp_all add: flags_ok_def)

lemma seg_queue_ok_linux [simp]: "seg_queue_ok linux"
  by (simp add: seg_queue_ok_def linux_def)

lemma seg_queue_ok_update [simp]:
  "seg_queue_ok (E\<lparr>os_int := f\<rparr>) = seg_queue_ok E"
  by (simp add: seg_queue_ok_def)

end
