(* ===== verification/Epoll.thy ===== *)
theory Epoll
  imports Environment
begin

text \<open>
  The epoll instance of \<open>src/src/epoll/mod.rs\<close>: its flags, its state, and the life of a
  registration.

  \<open>Registration\<close> is an \<open>Arc\<close> of \<open>_Registration\<close>; the word stored in the kernel's \<open>epoll_event\<close> is a
  \<open>Weak\<close> pointer to the same allocation, turned into an integer.  The allocation is modelled by
  \<open>reg_cell\<close> with both counts, so that freeing it while the kernel still holds the word is visible:
  the entry of the heap is gone.  \<open>inner_refs\<close> is the count of \<open>Arc<Inner>\<close>.
\<close>

subsection \<open>The flag types\<close>

definition READ :: "env \<Rightarrow> u32" where "READ E = flag_bits E EPOLLIN"
definition WRITE :: "env \<Rightarrow> u32" where "WRITE E = flag_bits E EPOLLOUT"
definition READ_HUP :: "env \<Rightarrow> u32" where "READ_HUP E = flag_bits E EPOLLRDHUP"
definition EXCEPTIONAL :: "env \<Rightarrow> u32" where "EXCEPTIONAL E = flag_bits E EPOLLPRI"
definition ERROR :: "env \<Rightarrow> u32" where "ERROR E = flag_bits E EPOLLERR"
definition HUP :: "env \<Rightarrow> u32" where "HUP E = flag_bits E EPOLLHUP"

definition EDGE :: "env \<Rightarrow> u32" where "EDGE E = flag_bits E EPOLLET"
definition ONE_SHOT :: "env \<Rightarrow> u32" where "ONE_SHOT E = flag_bits E EPOLLONESHOT"

lemmas flag_defs = READ_def WRITE_def READ_HUP_def EXCEPTIONAL_def ERROR_def HUP_def
  EDGE_def ONE_SHOT_def

definition EVENT_BUFFER_SIZE :: nat where "EVENT_BUFFER_SIZE = 32"

subsection \<open>State\<close>

text \<open>
  The implementors of \<open>RegistrationHandler\<close>: the two in the crate, and any other (the trait is
  public).
\<close>

datatype handler = FuturesHandler addr | CustomEventHandler addr | OtherHandler addr

record reg_cell =
  strong :: nat
  weak :: nat
  reg_fd :: fd
  epoll_data :: addr
  reg_handler :: handler

record custom_event =
  ce_event_fd :: fd
  ce_registration :: addr

text \<open>
  \<open>interests\<close> holds the vector of each \<open>FuturesRegistrationHandler\<close>, \<open>fired\<close> the flag of each
  \<open>_FutureInterest\<close>, \<open>reg_event\<close> the pointer cell of each \<open>CustomEventRegistrationHandler\<close>
  (\<open>None\<close> while it is null), \<open>events\<close> the boxed \<open>_CustomEvent\<close>s and \<open>custom_events\<close> the vector of
  \<open>Inner\<close> that owns them.  \<open>thread_id\<close> is the cell of each \<open>_Interrupt\<close>, \<open>sigusr2_installed\<close> the state of the
  static \<open>SIGUSR2_INSTALL\<close>.  \<open>fresh\<close> is the next unused address.
\<close>

record epoll = world +
  epfd :: fd
  inner_refs :: nat
  custom_events :: "addr list"
  heap :: "addr \<rightharpoonup> reg_cell"
  interests :: "addr \<Rightarrow> (u32 \<times> addr) list"
  fired :: "addr \<Rightarrow> bool"
  reg_event :: "addr \<Rightarrow> addr option"
  events :: "addr \<rightharpoonup> custom_event"
  thread_id :: "addr \<Rightarrow> usize"
  sigusr2_installed :: bool
  fresh :: addr

definition Epoll_new :: "env \<Rightarrow> trace \<Rightarrow> io_error + epoll" where
  "Epoll_new E tr =
     (case os_int E tr EpollCreate1 of
        Inl e \<Rightarrow> Inl e
      | Inr fd \<Rightarrow> Inr \<lparr>trace = tr @ [(EpollCreate1, True)], epfd = fd, inner_refs = 1,
          custom_events = [], heap = Map.empty, interests = (\<lambda>_. []), fired = (\<lambda>_. False),
          reg_event = (\<lambda>_. None), events = Map.empty,
          thread_id = (\<lambda>_. 0), sigusr2_installed = False, fresh = 1\<rparr>)"

subsection \<open>Counting references\<close>

text \<open>\<open>Epoll::handle\<close>, and cloning a \<open>Handle\<close>: one more \<open>Arc<Inner>\<close>.\<close>

definition handle :: "epoll \<Rightarrow> epoll" where
  "handle s = s\<lparr>inner_refs := inner_refs s + 1\<rparr>"

text \<open>Dropping an \<open>Arc<Inner>\<close>; the last one runs \<open>Inner::drop\<close>.\<close>

definition drop_inner :: "env \<Rightarrow> epoll \<Rightarrow> epoll" where
  "drop_inner E s =
     (let s1 = s\<lparr>inner_refs := inner_refs s - 1\<rparr>
      in if inner_refs s1 = 0 then snd (sys E (CloseFd (epfd s)) s1) else s1)"

definition set_cell :: "addr \<Rightarrow> reg_cell \<Rightarrow> epoll \<Rightarrow> epoll" where
  "set_cell a c s =
     s\<lparr>heap := (heap s)(a := if strong c = 0 \<and> weak c = 0 then None else Some c)\<rparr>"

definition reg_clone :: "addr \<Rightarrow> epoll \<Rightarrow> epoll" where
  "reg_clone a s =
     (case heap s a of None \<Rightarrow> s | Some c \<Rightarrow> set_cell a (c\<lparr>strong := strong c + 1\<rparr>) s)"

text \<open>
  \<open>Weak::upgrade\<close> through the integer the kernel returned.  \<open>UB\<close> is the use of memory that has been
  freed; \<open>None\<close> a registration that is already dropped.
\<close>

definition weak_upgrade :: "addr \<Rightarrow> epoll \<Rightarrow> (addr option \<times> epoll) rust" where
  "weak_upgrade a s =
     (case heap s a of
        None \<Rightarrow> UB
      | Some c \<Rightarrow> if strong c = 0 then Val (None, s) else Val (Some a, reg_clone a s))"

text \<open>
  Dropping a \<open>Registration\<close>.  The last strong reference runs \<open>_Registration::drop\<close>
  (\<open>EPOLL_CTL_DEL\<close>, and only if that succeeds the kernel's weak reference is dropped too), then drops
  the field \<open>queue\<close>.
\<close>

definition Registration_drop :: "env \<Rightarrow> addr \<Rightarrow> epoll \<Rightarrow> epoll" where
  "Registration_drop E a s =
     (case heap s a of
        None \<Rightarrow> s
      | Some c \<Rightarrow>
          let c1 = c\<lparr>strong := strong c - 1\<rparr> in
          if strong c1 \<noteq> 0 then set_cell a c1 s
          else case sys E (EpollCtl (epfd s) EPOLL_CTL_DEL (reg_fd c) None) s of
              (Inl _, s1) \<Rightarrow> drop_inner E (set_cell a c1 s1)
            | (Inr _, s1) \<Rightarrow> drop_inner E (set_cell a (c1\<lparr>weak := weak c1 - 1\<rparr>) s1))"

subsection \<open>Registering and modifying\<close>

text \<open>
  On failure the weak pointer is dropped and the \<open>_Registration\<close> taken out of its \<open>Arc\<close> and forgotten:
  its allocation is freed, its field \<open>queue\<close> is not dropped.
\<close>

definition register_fd_raw ::
  "env \<Rightarrow> fd \<Rightarrow> u32 \<Rightarrow> u32 \<Rightarrow> handler \<Rightarrow> epoll \<Rightarrow> (io_error + addr) \<times> epoll" where
  "register_fd_raw E fd event_mask mode h s =
     (let a = fresh s;
          c = \<lparr>strong = 1, weak = 1, reg_fd = fd, epoll_data = a, reg_handler = h\<rparr>;
          s1 = s\<lparr>fresh := a + 1, inner_refs := inner_refs s + 1, heap := (heap s)(a \<mapsto> c)\<rparr>
      in case sys E (EpollCtl (epfd s) EPOLL_CTL_ADD fd (Some (event_mask OR mode, a))) s1 of
           (Inl e, s2) \<Rightarrow> (Inl e, s2\<lparr>heap := (heap s2)(a := None)\<rparr>)
         | (Inr _, s2) \<Rightarrow> (Inr a, s2))"

text \<open>The caller holds a strong reference, so the cell is there: the first case is not taken.\<close>

definition modify ::
  "env \<Rightarrow> addr \<Rightarrow> u32 \<Rightarrow> u32 \<Rightarrow> epoll \<Rightarrow> (io_error + unit) \<times> epoll" where
  "modify E a event_mask mode s =
     (case heap s a of
        None \<Rightarrow> (Inr (), s)
      | Some c \<Rightarrow>
          (case sys E (EpollCtl (epfd s) EPOLL_CTL_MOD (reg_fd c)
                  (Some (event_mask OR mode, epoll_data c))) s of
             (Inl e, s1) \<Rightarrow> (Inl e, s1)
           | (Inr _, s1) \<Rightarrow> (Inr (), s1)))"

subsection \<open>What the kernel holds\<close>

text \<open>
  The interest table of the kernel as the trace determines it (\<open>epoll_ctl(2)\<close>): which data word
  each descriptor is registered with.  Closing a descriptor removes it.
\<close>

fun kernel_step :: "call \<times> bool \<Rightarrow> (fd \<rightharpoonup> addr) \<Rightarrow> (fd \<rightharpoonup> addr)" where
  "kernel_step (EpollCtl _ EPOLL_CTL_ADD fd (Some (_, a)), True) k = k(fd \<mapsto> a)"
| "kernel_step (EpollCtl _ EPOLL_CTL_MOD fd (Some (_, a)), True) k = k(fd \<mapsto> a)"
| "kernel_step (EpollCtl _ EPOLL_CTL_DEL fd _, True) k = k(fd := None)"
| "kernel_step (CloseFd fd, _) k = k(fd := None)"
| "kernel_step _ k = k"

definition kernel_table :: "trace \<Rightarrow> (fd \<rightharpoonup> addr)" where
  "kernel_table tr = fold kernel_step tr Map.empty"

lemma kernel_table_Nil [simp]: "kernel_table [] = Map.empty"
  by (simp add: kernel_table_def)

lemma kernel_table_snoc [simp]: "kernel_table (tr @ [c]) = kernel_step c (kernel_table tr)"
  by (simp add: kernel_table_def)

text \<open>
  \<open>asked a tr\<close>: the mask of the last successful \<open>EPOLL_CTL_ADD\<close> or \<open>MOD\<close> with the word \<open>a\<close>, \<open>None\<close> once an event
  has been returned for it.  Every mode this crate uses contains \<open>EPOLLONESHOT\<close>: an event that has been
  returned disarms the registration until the next \<open>EPOLL_CTL_MOD\<close>.
\<close>

fun asked_step :: "addr \<Rightarrow> call \<times> bool \<Rightarrow> u32 option \<Rightarrow> u32 option" where
  "asked_step a (EpollCtl _ EPOLL_CTL_ADD _ (Some (m, b)), True) k = (if b = a then Some m else k)"
| "asked_step a (EpollCtl _ EPOLL_CTL_MOD _ (Some (m, b)), True) k = (if b = a then Some m else k)"
| "asked_step a (EventReturned _ b, _) k = (if b = a then None else k)"
| "asked_step _ _ k = k"

definition asked :: "addr \<Rightarrow> trace \<Rightarrow> u32 option" where
  "asked a tr = fold (asked_step a) tr None"

lemma asked_Nil [simp]: "asked a [] = None"
  by (simp add: asked_def)

lemma asked_snoc [simp]: "asked a (tr @ [c]) = asked_step a c (asked a tr)"
  by (simp add: asked_def)

text \<open>
  \<open>armed a tr\<close>: the mask the kernel reports events of registration \<open>a\<close> under.  It reports none for a word that
  is not in its table, that is, after \<open>EPOLL_CTL_DEL\<close> or when the descriptor has been closed.
\<close>

definition armed :: "addr \<Rightarrow> trace \<Rightarrow> u32 option" where
  "armed a tr = (if a \<in> ran (kernel_table tr) then asked a tr else None)"

lemma armed_mod [simp]: "armed a (tr @ [(EpollCtl p EPOLL_CTL_MOD fd (Some (m, a)), True)]) = Some m"
  by (auto simp: armed_def ran_def)

lemma armed_register [simp]: "armed a (tr @ [(TaskRegister j t, ok)]) = armed a tr"
  by (simp add: armed_def)

subsection \<open>The kernel never holds a dangling word\<close>

text \<open>
  The invariant behind "Don't drop weak pointer since it may still be in epoll": while a descriptor
  is in the kernel's table, the allocation its data word points to is still there, kept by a weak
  count.
\<close>

definition reg_inv :: "epoll \<Rightarrow> bool" where
  "reg_inv s \<longleftrightarrow>
     (\<forall>a c. heap s a = Some c \<longrightarrow>
        a < fresh s \<and> epoll_data c = a \<and> weak c = 1) \<and>
     (\<forall>fd a. kernel_table (trace s) fd = Some a \<longrightarrow>
        map_option reg_fd (heap s a) = Some fd)"

lemma reg_inv_fresh: "reg_inv s \<Longrightarrow> heap s (fresh s) = None"
  by (cases "heap s (fresh s)") (auto simp: reg_inv_def)

lemma reg_inv_table_fresh: "reg_inv s \<Longrightarrow> kernel_table (trace s) fd \<noteq> Some (fresh s)"
  using reg_inv_fresh by (fastforce simp: reg_inv_def)

text \<open>
  Operations that make no \<open>epoll_ctl\<close> or \<open>close\<close> call and leave the heap alone keep it; so does
  any operation that only changes the other fields.
\<close>

lemma reg_inv_cong:
  "heap s' = heap s \<Longrightarrow> fresh s \<le> fresh s' \<Longrightarrow>
   kernel_table (trace s') = kernel_table (trace s) \<Longrightarrow> reg_inv s \<Longrightarrow> reg_inv s'"
  by (force simp: reg_inv_def)

lemma reg_inv_close:
  "heap s' = heap s \<Longrightarrow> fresh s' = fresh s \<Longrightarrow>
   kernel_table (trace s') = (kernel_table (trace s))(fd := None) \<Longrightarrow> reg_inv s \<Longrightarrow> reg_inv s'"
  by (auto simp: reg_inv_def)

lemma Epoll_new_reg_inv: "Epoll_new E [] = Inr s \<Longrightarrow> reg_inv s"
  by (auto simp: Epoll_new_def reg_inv_def kernel_table_def split: sum.splits)

lemma handle_reg_inv: "reg_inv s \<Longrightarrow> reg_inv (handle s)"
  by (simp add: handle_def reg_inv_def)

lemma drop_inner_reg_inv: "reg_inv s \<Longrightarrow> reg_inv (drop_inner E s)"
  by (auto simp: drop_inner_def sys_def Let_def reg_inv_def)

lemma reg_clone_reg_inv: "reg_inv s \<Longrightarrow> reg_inv (reg_clone a s)"
  by (fastforce simp: reg_clone_def set_cell_def reg_inv_def split: option.splits)

lemma weak_upgrade_reg_inv: "weak_upgrade a s = Val (r, s') \<Longrightarrow> reg_inv s \<Longrightarrow> reg_inv s'"
  by (auto simp: weak_upgrade_def reg_clone_reg_inv split: option.splits if_splits)

lemma register_fd_raw_reg_inv:
  assumes "reg_inv s" and "register_fd_raw E fd m md h s = (r, s')"
  shows "reg_inv s'"
  using assms reg_inv_fresh [OF assms(1)] reg_inv_table_fresh [OF assms(1)]
  by (auto simp: register_fd_raw_def sys_def Let_def reg_inv_def less_Suc_eq
      split: sum.splits if_splits)

lemma modify_reg_inv:
  "reg_inv s \<Longrightarrow> modify E a m md s = (r, s') \<Longrightarrow> reg_inv s'"
  by (auto simp: modify_def sys_def Let_def reg_inv_def split: sum.splits option.splits if_splits)

lemma Registration_drop_reg_inv:
  assumes "reg_inv s"
  shows "reg_inv (Registration_drop E a s)"
proof (cases "heap s a")
  case None
  then show ?thesis using assms by (simp add: Registration_drop_def)
next
  case (Some c)
  show ?thesis
  proof (cases "strong c - 1 = 0")
    case False
    then show ?thesis
      using assms Some by (fastforce simp: Registration_drop_def Let_def set_cell_def reg_inv_def)
  next
    case True
    show ?thesis
    proof (cases "os_int E (trace s) (EpollCtl (epfd s) EPOLL_CTL_DEL (reg_fd c) None)")
      case (Inl e)
      have "reg_inv (set_cell a (c\<lparr>strong := strong c - 1\<rparr>)
        (s\<lparr>trace := trace s @ [(EpollCtl (epfd s) EPOLL_CTL_DEL (reg_fd c) None, False)]\<rparr>))"
        using assms Some by (fastforce simp: reg_inv_def set_cell_def)
      with Some True Inl show ?thesis
        by (simp add: Registration_drop_def sys_def drop_inner_reg_inv)
    next
      case (Inr n)
      have "reg_inv (set_cell a (c\<lparr>strong := strong c - 1, weak := weak c - 1\<rparr>)
        (s\<lparr>trace := trace s @ [(EpollCtl (epfd s) EPOLL_CTL_DEL (reg_fd c) None, True)]\<rparr>))"
        using assms Some True by (fastforce simp: reg_inv_def set_cell_def)
      with Some True Inr show ?thesis
        by (simp add: Registration_drop_def sys_def drop_inner_reg_inv)
    qed
  qed
qed

lemmas reg_inv_ops = handle_reg_inv drop_inner_reg_inv reg_clone_reg_inv weak_upgrade_reg_inv
  register_fd_raw_reg_inv modify_reg_inv Registration_drop_reg_inv

end
