(* ===== verification/Interests.thy ===== *)
theory Interests
  imports Epoll
begin

text \<open>
  \<open>FuturesRegistration\<close>, \<open>FutureInterest\<close> and the \<open>RegistrationHandler\<close> that fires interests
  (\<open>src/src/epoll/mod.rs\<close>).  Futures of the socket types wait by adding an interest to the
  registration of their descriptor; an event fires interests, removes them from the vector and
  re-arms the registration for those that remain.
\<close>

subsection \<open>The operations\<close>

record futures_registration =
  fr_registration :: addr
  fr_inner :: addr

definition FuturesRegistration_new ::
  "env \<Rightarrow> fd \<Rightarrow> epoll \<Rightarrow> (io_error + futures_registration) \<times> epoll" where
  "FuturesRegistration_new E fd s =
     (let h = fresh s;
          s1 = s\<lparr>fresh := h + 1, interests := (interests s)(h := [])\<rparr>
      in case register_fd_raw E fd (bf_empty E) (bf_union E (EDGE E) (ONE_SHOT E))
                (FuturesHandler h) s1 of
           (Inl e, s2) \<Rightarrow> (Inl e, s2)
         | (Inr a, s2) \<Rightarrow> (Inr \<lparr>fr_registration = a, fr_inner = h\<rparr>, s2))"

text \<open>\<open>t\<close> is the task that is running: \<open>AtomicTask::register\<close> registers it.\<close>

definition register :: "addr \<Rightarrow> task \<Rightarrow> epoll \<Rightarrow> epoll" where
  "register i t s = emit (TaskRegister i t) s"

definition add_interest ::
  "env \<Rightarrow> futures_registration \<Rightarrow> u32 \<Rightarrow> task \<Rightarrow> epoll \<Rightarrow> (io_error + addr) \<times> epoll" where
  "add_interest E fr ev t s =
     (let h = fr_inner fr;
          old = fold (\<lambda>(m, _) k. bf_union E k m) (interests s h) (bf_empty E);
          i = fresh s;
          s1 = register i t (s\<lparr>fresh := i + 1, fired := (fired s)(i := False)\<rparr>);
          s2 = s1\<lparr>interests := (interests s1)(h := interests s1 h @ [(ev, i)])\<rparr>
      in if bf_contains E old ev then (Inr i, s2)
         else case modify E (fr_registration fr) (bf_union E old ev)
                     (bf_union E (EDGE E) (ONE_SHOT E)) s2 of
             (Inl e, s3) \<Rightarrow> (Inl e, s3)
           | (Inr _, s3) \<Rightarrow> (Inr i, s3))"

definition FutureInterest_poll :: "addr \<Rightarrow> task \<Rightarrow> epoll \<Rightarrow> unit Async \<times> epoll" where
  "FutureInterest_poll i t s =
     (if fired s i then (Ready (), s) else (NotReady, register i t s))"

text \<open>The condition under which an event fires an interest.\<close>

definition hit :: "env \<Rightarrow> u32 \<Rightarrow> u32 \<Rightarrow> bool" where
  "hit E ev m \<longleftrightarrow>
     bf_contains E m ev \<or> bf_intersects E ev (bf_union E (HUP E) (ERROR E))"

definition fire :: "addr \<Rightarrow> epoll \<Rightarrow> epoll" where
  "fire j s = emit (TaskNotify j) (s\<lparr>fired := (fired s)(j := True)\<rparr>)"

text \<open>The loop over \<open>interests\<close>, with its index and \<open>remaining_interest_mask\<close>.\<close>

function fire_loop ::
  "env \<Rightarrow> u32 \<Rightarrow> (u32 \<times> addr) list \<Rightarrow> nat \<Rightarrow> u32 option \<Rightarrow> epoll \<Rightarrow>
     (u32 \<times> addr) list \<times> u32 option \<times> epoll" where
  "fire_loop E ev xs i rem s =
     (if i < length xs then
        if hit E ev (fst (xs ! i))
        then fire_loop E ev (swap_remove xs i) i rem (fire (snd (xs ! i)) s)
        else fire_loop E ev xs (Suc i)
               (Some (bf_union E (case rem of None \<Rightarrow> bf_empty E | Some r \<Rightarrow> r) (fst (xs ! i)))) s
      else (xs, rem, s))"
  by pat_completeness auto
termination
  by (relation "measure (\<lambda>(_, _, xs, i, _, _). length xs - i)") auto

declare fire_loop.simps [simp del]

definition Futures_handle_event ::
  "env \<Rightarrow> addr \<Rightarrow> addr \<Rightarrow> u32 \<Rightarrow> epoll \<Rightarrow> epoll rust" where
  "Futures_handle_event E h a ev s =
     (let (xs, rem, s1) = fire_loop E ev (interests s h) 0 None s;
          s2 = s1\<lparr>interests := (interests s1)(h := xs)\<rparr>
      in case rem of
           None \<Rightarrow> Val s2
         | Some remaining \<Rightarrow>
             (case modify E a remaining (bf_union E (EDGE E) (ONE_SHOT E)) s2 of
                (Inl _, _) \<Rightarrow> Panic
              | (Inr _, s3) \<Rightarrow> Val s3))"

subsection \<open>What the loop computes\<close>

definition keeps :: "env \<Rightarrow> u32 \<Rightarrow> (u32 \<times> addr) list \<Rightarrow> (u32 \<times> addr) list" where
  "keeps E ev xs = filter (\<lambda>(m, _). \<not> hit E ev m) xs"

definition fires :: "env \<Rightarrow> u32 \<Rightarrow> (u32 \<times> addr) list \<Rightarrow> (u32 \<times> addr) list" where
  "fires E ev xs = filter (\<lambda>(m, _). hit E ev m) xs"

lemma fire_frame [frame]:
  "heap (fire j s) = heap s" "fresh (fire j s) = fresh s" "interests (fire j s) = interests s"
  "epfd (fire j s) = epfd s" "fired (fire j s) = (fired s)(j := True)"
  "trace (fire j s) = trace s @ [(TaskNotify j, True)]"
  by (simp_all add: fire_def emit_def)

text \<open>
  The reference: the surviving vector is a permutation of the interests the event does not hit, the
  hit ones are fired and their tasks notified once each, nothing else of the state changes.
\<close>

definition notified :: "addr list \<Rightarrow> trace" where
  "notified js = map (\<lambda>j. (TaskNotify j, True)) js"

lemma fire_loop_spec:
  assumes "fire_loop E ev xs i rem s = (ys, rem', s')"
  shows "mset ys = mset (take i xs) + mset (keeps E ev (drop i xs)) \<and>
    (\<exists>js. mset js = mset (map snd (fires E ev (drop i xs))) \<and>
      s' = s\<lparr>fired := (\<lambda>j. fired s j \<or> j \<in> set js), trace := trace s @ notified js\<rparr>)"
  using assms
proof (induction E ev xs i rem s arbitrary: ys rem' s' rule: fire_loop.induct)
  case (1 E ev xs i rem s)
  show ?case
  proof (cases "i < length xs")
    case False
    then show ?thesis
      using "1.prems" by (auto simp: fire_loop.simps [of E ev xs i] keeps_def fires_def notified_def)
  next
    case True
    have drop_i: "drop i xs = xs ! i # drop (Suc i) xs"
      using True by (simp add: Cons_nth_drop_Suc)
    show ?thesis
    proof (cases "hit E ev (fst (xs ! i))")
      case False
      have rec: "fire_loop E ev xs (Suc i)
          (Some (bf_union E (case rem of None \<Rightarrow> bf_empty E | Some r \<Rightarrow> r) (fst (xs ! i)))) s
          = (ys, rem', s')"
        using "1.prems" True False by (simp add: fire_loop.simps [of E ev xs i])
      show ?thesis
        using "1.IH"(2) [OF True False rec] True False
        by (auto simp: drop_i keeps_def fires_def take_Suc_conv_app_nth case_prod_beta)
    next
      case hit: True
      have rec: "fire_loop E ev (swap_remove xs i) i rem (fire (snd (xs ! i)) s) = (ys, rem', s')"
        using "1.prems" True hit by (simp add: fire_loop.simps [of E ev xs i])
      from "1.IH"(1) [OF True hit rec] obtain js where
        ys: "mset ys = mset (take i xs) + mset (keeps E ev (drop i (swap_remove xs i)))" and
        js: "mset js = mset (map snd (fires E ev (drop i (swap_remove xs i))))" and
        s': "s' = (fire (snd (xs ! i)) s)\<lparr>fired := (\<lambda>j. fired (fire (snd (xs ! i)) s) j \<or> j \<in> set js),
               trace := trace (fire (snd (xs ! i)) s) @ notified js\<rparr>"
        using take_swap_remove [OF True] by auto
      have "mset (snd (xs ! i) # js) = mset (map snd (fires E ev (drop i xs)))"
        using js mset_drop_swap_remove [OF True] hit
        by (simp add: fires_def drop_i case_prod_beta mset_filter)
      moreover have "mset ys = mset (take i xs) + mset (keeps E ev (drop i xs))"
        using ys mset_drop_swap_remove [OF True] hit
        by (simp add: keeps_def drop_i case_prod_beta mset_filter)
      moreover have "s' = s\<lparr>fired := (\<lambda>j. fired s j \<or> j \<in> set (snd (xs ! i) # js)),
               trace := trace s @ notified (snd (xs ! i) # js)\<rparr>"
        by (subst s') (auto simp: fire_def emit_def notified_def fun_eq_iff)
      ultimately show ?thesis by blast
    qed
  qed
qed

text \<open>The mask to re-arm with: the union of what remains, and none when nothing remains.\<close>

definition mask_of :: "(u32 \<times> addr) list \<Rightarrow> u32" where
  "mask_of xs = fold (\<lambda>p k. k OR fst p) xs 0"

lemma bit_mask_of: "bit (mask_of xs) n \<longleftrightarrow> (\<exists>(m, j) \<in> set xs. bit m n)"
  by (force simp: mask_of_def bit_fold_or)

lemma mask_of_cong: "set xs = set ys \<Longrightarrow> mask_of xs = mask_of ys"
  by (simp add: bit_eq_iff bit_mask_of)

lemma mask_of_snoc [simp]: "mask_of (xs @ [(m, j)]) = mask_of xs OR m"
  by (simp add: mask_of_def)

lemma mask_of_Nil [simp]: "mask_of [] = 0"
  by (simp add: mask_of_def)

lemma old_mask:
  assumes "flags_ok E"
  shows "fold (\<lambda>(m, _) k. bf_union E k m) xs (bf_empty E) = mask_of xs"
  by (auto simp: mask_of_def flags_okD [OF assms] intro!: fold_cong)

lemma fire_loop_mask:
  assumes "fire_loop E ev xs i rem s = (ys, rem', s')" and "flags_ok E"
    and "rem = (if take i xs = [] then None else Some (mask_of (take i xs)))"
    and "i \<le> length xs"
  shows "rem' = (if ys = [] then None else Some (mask_of ys))"
  using assms
proof (induction E ev xs i rem s arbitrary: ys rem' s' rule: fire_loop.induct)
  case (1 E ev xs i rem s)
  show ?case
  proof (cases "i < length xs")
    case False
    have "(xs, rem, s) = (ys, rem', s')"
      using "1.prems"(1) False by (simp add: fire_loop.simps [of E ev xs i rem s])
    then show ?thesis
      using "1.prems"(3,4) False by auto
  next
    case True
    show ?thesis
    proof (cases "hit E ev (fst (xs ! i))")
      case False
      have rec: "fire_loop E ev xs (Suc i)
          (Some (bf_union E (case rem of None \<Rightarrow> bf_empty E | Some r \<Rightarrow> r) (fst (xs ! i)))) s
          = (ys, rem', s')"
        using "1.prems" True False by (simp add: fire_loop.simps [of E ev xs i])
      have mask: "take (Suc i) xs = take i xs @ [xs ! i]"
        using True by (simp add: take_Suc_conv_app_nth)
      have "bf_union E (case rem of None \<Rightarrow> bf_empty E | Some r \<Rightarrow> r) (fst (xs ! i))
          = mask_of (take (Suc i) xs)"
        using "1.prems"(3) mask_of_snoc [of "take i xs" "fst (xs ! i)" "snd (xs ! i)"]
        by (auto simp: flags_okD [OF "1.prems"(2)] mask split: option.splits)
      then show ?thesis
        using "1.IH"(2) [OF True False rec "1.prems"(2)] True mask by simp
    next
      case hit: True
      have rec: "fire_loop E ev (swap_remove xs i) i rem (fire (snd (xs ! i)) s) = (ys, rem', s')"
        using "1.prems" True hit by (simp add: fire_loop.simps [of E ev xs i])
      show ?thesis
        using "1.IH"(1) [OF True hit rec "1.prems"(2)] "1.prems"(3) True
        by (simp add: take_swap_remove)
    qed
  qed
qed

end
