(* ===== verification/CustomEvents.thy ===== *)
theory CustomEvents
  imports Epoll
begin

text \<open>
  Custom events of \<open>src/src/epoll/mod.rs\<close>: an eventfd in semaphore mode, a \<open>SegQueue\<close> of data words
  and a handler.  Posting pushes the word and adds one to the eventfd; the registration's handler
  reads the eventfd once and then drains the whole queue.
\<close>

subsection \<open>The operations\<close>

definition new_custom_event :: "env \<Rightarrow> epoll \<Rightarrow> (io_error + event_tag) \<times> epoll" where
  "new_custom_event E s =
     (case sys E CreateEventfd s of
        (Inl e, s1) \<Rightarrow> (Inl e, s1)
      | (Inr event_fd, s1) \<Rightarrow>
          let rh = fresh s1;
              s2 = handle (s1\<lparr>fresh := rh + 1, reg_event := (reg_event s1)(rh := None)\<rparr>)
          in case register_fd_raw E event_fd (READ E) (ONE_SHOT E) (CustomEventHandler rh) s2 of
               (Inl e, s3) \<Rightarrow> (Inl e, drop_inner E s3)
             | (Inr a, s3) \<Rightarrow>
                 let p = fresh s3;
                     s4 = drop_inner E s3
                 in (Inr \<lparr>tag_ptr = p, tag_epoll_fd = epfd s4\<rparr>,
                     s4\<lparr>fresh := p + 1,
                        events := (events s4)(p \<mapsto> \<lparr>ce_event_fd = event_fd, ce_registration = a\<rparr>),
                        reg_event := (reg_event s4)(rh := Some p),
                        custom_events := custom_events s4 @ [p]\<rparr>))"

text \<open>\<open>Panic\<close>: a tag of another instance.  \<open>UB\<close>: a pointer to a box that is gone.\<close>

definition post_custom_event ::
  "env \<Rightarrow> event_tag \<Rightarrow> usize \<Rightarrow> epoll \<Rightarrow> ((io_error + unit) \<times> epoll) rust" where
  "post_custom_event E tag d s =
     (if tag_epoll_fd tag \<noteq> epfd s then Panic
      else case events s (tag_ptr tag) of
          None \<Rightarrow> UB
        | Some ce \<Rightarrow>
            (case sys E (WriteEventfd (ce_event_fd ce)) (emit (SegPush (tag_ptr tag) d) s) of
               (Inl e, s1) \<Rightarrow> Val (Inl e, s1)
             | (Inr _, s1) \<Rightarrow> Val (Inr (), s1)))"

text \<open>
  \<open>while let Some(data) = queue.try_pop()\<close>: the loop ends when the queue answers \<open>None\<close>.  The
  handler is a user closure; its call is recorded.
\<close>

partial_function (option) drain ::
  "env \<Rightarrow> addr \<Rightarrow> event_tag \<Rightarrow> epoll \<Rightarrow> epoll option" where
  "drain E p tag s =
     (case try_pop E p s of
        (None, s1) \<Rightarrow> Some s1
      | (Some d, s1) \<Rightarrow> drain E p tag (emit (HandlerCall p tag d) s1))"

declare drain.simps [code]

definition rearm_event :: "env \<Rightarrow> addr \<Rightarrow> epoll \<Rightarrow> epoll rust" where
  "rearm_event E a s =
     (case modify E a (READ E) (ONE_SHOT E) s of
        (Inl _, _) \<Rightarrow> Panic
      | (Inr _, s1) \<Rightarrow> Val s1)"

text \<open>
  The value the kernel writes to \<open>count\<close> is the answer of \<open>ReadEventfd\<close>; it is 0 when the read would
  block.  The outer \<open>None\<close> is a loop that does not end.
\<close>

definition Custom_handle_event :: "env \<Rightarrow> addr \<Rightarrow> addr \<Rightarrow> epoll \<Rightarrow> epoll rust option" where
  "Custom_handle_event E rh a s =
     (case Option.bind (reg_event s rh) (\<lambda>p. map_option (Pair p) (events s p)) of
        None \<Rightarrow> Some UB
      | Some (p, ce) \<Rightarrow>
          let (r, s1) = sys E (ReadEventfd (ce_event_fd ce)) s in
          case (case r of Inl e \<Rightarrow> if kind e = WouldBlock then Some 0 else None | Inr n \<Rightarrow> Some n) of
            None \<Rightarrow> Some Panic
          | Some n \<Rightarrow>
              and_then
                (if n \<noteq> 0
                 then map_option Val (drain E p \<lparr>tag_ptr = p, tag_epoll_fd = epfd s1\<rparr> s1)
                 else Some (Val s1))
                (\<lambda>s2. Some (rearm_event E a s2)))"

subsection \<open>Draining\<close>

text \<open>What the drain of a queue with contents \<open>ds\<close> adds to the trace.\<close>

fun drain_trace :: "addr \<Rightarrow> event_tag \<Rightarrow> usize list \<Rightarrow> trace" where
  "drain_trace p tag [] = [(SegTryPop p, True)]"
| "drain_trace p tag (d # ds) =
     (SegTryPop p, True) # (HandlerCall p tag d, True) # drain_trace p tag ds"

text \<open>
  With a first-in first-out queue the loop ends, and it hands the posted words to the handler
  oldest first, each once.
\<close>

lemma drain_total:
  assumes "seg_queue_ok E" and "seg_contents p (trace s) = ds"
  shows "drain E p tag s = Some (s\<lparr>trace := trace s @ drain_trace p tag ds\<rparr>)"
  using assms(2)
proof (induction ds arbitrary: s)
  case Nil
  then show ?case
    using assms(1) by (subst drain.simps) (simp add: try_pop_def seg_queue_ok_def emit_def)
next
  case (Cons d ds)
  let ?s = "emit (HandlerCall p tag d) (emit (SegTryPop p) s)"
  have "drain E p tag s = drain E p tag ?s"
    using assms(1) Cons.prems by (subst drain.simps) (simp add: try_pop_def seg_queue_ok_def)
  also have "seg_contents p (trace ?s) = ds"
    using Cons.prems seg_contents_snoc [of p "trace s @ [(SegTryPop p, True)]"] by simp
  note Cons.IH [OF this]
  finally show ?case by (simp add: emit_def)
qed

lemma seg_contents_append:
  "seg_contents p (tr @ tr') = fold (seg_step p) tr' (seg_contents p tr)"
  by (simp add: seg_contents_def)

lemma seg_contents_drain: "seg_contents p (tr @ drain_trace p tag (seg_contents p tr)) = []"
proof -
  have "fold (seg_step p) (drain_trace p tag ds) ds = []" for ds
    by (induction ds) simp_all
  then show ?thesis by (simp add: seg_contents_append)
qed

text \<open>The words handed to handlers by a trace.\<close>

definition handled :: "addr \<Rightarrow> trace \<Rightarrow> usize list" where
  "handled p tr = concat (map (\<lambda>c. case c of (HandlerCall p' _ d, _) \<Rightarrow> if p' = p then [d] else []
     | _ \<Rightarrow> []) tr)"

definition posted :: "addr \<Rightarrow> trace \<Rightarrow> usize list" where
  "posted p tr = concat (map (\<lambda>c. case c of (SegPush p' d, _) \<Rightarrow> if p' = p then [d] else []
     | _ \<Rightarrow> []) tr)"

lemma handled_append [simp]: "handled p (tr @ tr') = handled p tr @ handled p tr'"
  by (simp add: handled_def)

lemma posted_append [simp]: "posted p (tr @ tr') = posted p tr @ posted p tr'"
  by (simp add: posted_def)

lemma handled_drain_trace [simp]:
  "handled p (drain_trace q tag ds) = (if q = p then ds else [])"
  by (induction ds) (auto simp: handled_def)

lemma posted_drain_trace [simp]: "posted p (drain_trace q tag ds) = []"
  by (induction ds) (auto simp: posted_def)

end
