(* ===== verification/EpollPoll.thy ===== *)
theory EpollPoll
  imports Interests CustomEvents
begin

text \<open>
  \<open>Inner::poll\<close> of \<open>src/src/epoll/mod.rs\<close> with its callers \<open>turn\<close> and \<open>turn_interruptible\<close>: the
  conversion of the timeout, the wait, and the dispatch of the events it returns to the handlers of
  their registrations.
\<close>

subsection \<open>The timeout\<close>

definition timeout_ms :: "bool \<Rightarrow> duration option \<Rightarrow> i32 rust" where
  "timeout_ms chk max_wait =
     (case max_wait of
        None \<Rightarrow> Val (- 1)
      | Some (secs, nanos) \<Rightarrow>
          (case mul_u32 chk (ucast secs) 1000 of
             Val ms \<Rightarrow> add_u32 chk ms (nanos div 1000000)
           | r \<Rightarrow> r))"

subsection \<open>One wait\<close>

datatype wait_result =
    WaitReturn "io_error + nat"
  | WaitRetry
  | WaitEvents "(u32 \<times> addr) list"
  | WaitPanic

definition sys_events ::
  "env \<Rightarrow> call \<Rightarrow> epoll \<Rightarrow> (io_error + (u32 \<times> addr) list) \<times> epoll" where
  "sys_events E c s =
     (let r = os_events E (trace s) c in
      (r, s\<lparr>trace := trace s @ (c, is_ok r) #
         (case r of Inl _ \<Rightarrow> [] | Inr es \<Rightarrow> map (\<lambda>(ev, a). (EventReturned ev a, True)) es)\<rparr>))"

text \<open>\<open>None\<close>: the panic of a failed \<open>sigaction\<close>.\<close>

definition install_sigusr2 :: "env \<Rightarrow> epoll \<Rightarrow> epoll option" where
  "install_sigusr2 E s =
     (if sigusr2_installed s then Some s
      else case sys E SigactionUsr2 s of
          (Inl _, _) \<Rightarrow> None
        | (Inr _, s1) \<Rightarrow> Some (s1\<lparr>sigusr2_installed := True\<rparr>))"

text \<open>\<open>self\<close> is \<open>pthread_self()\<close> of the calling thread.\<close>

definition wait_step ::
  "env \<Rightarrow> usize \<Rightarrow> addr option \<Rightarrow> i32 \<Rightarrow> epoll \<Rightarrow> wait_result \<times> epoll" where
  "wait_step E self interrupt timeout s =
     (case interrupt of
        Some i \<Rightarrow>
          (case install_sigusr2 E s of
             None \<Rightarrow> (WaitPanic, s)
           | Some s1 \<Rightarrow>
               let s2 = s1\<lparr>thread_id := (thread_id s1)(i := self)\<rparr>;
                   (r, s3) = sys_events E (EpollPwait (epfd s2) EVENT_BUFFER_SIZE timeout) s2;
                   s4 = s3\<lparr>thread_id := (thread_id s3)(i := 0)\<rparr>
               in (case r of
                     Inl e \<Rightarrow> if kind e = Interrupted then WaitReturn (Inr 0) else WaitReturn (Inl e)
                   | Inr [] \<Rightarrow> WaitReturn (Inr 0)
                   | Inr es \<Rightarrow> WaitEvents es, s4))
      | None \<Rightarrow>
          let (r, s1) = sys_events E (EpollWait (epfd s) EVENT_BUFFER_SIZE timeout) s
          in (case r of
                Inl e \<Rightarrow> if kind e = Interrupted then WaitRetry else WaitReturn (Inl e)
              | Inr [] \<Rightarrow> WaitReturn (Inr 0)
              | Inr es \<Rightarrow> WaitEvents es, s1))"

subsection \<open>Dispatch\<close>

definition handle_event :: "env \<Rightarrow> addr \<Rightarrow> u32 \<Rightarrow> epoll \<Rightarrow> epoll rust option" where
  "handle_event E a ev s =
     (case map_option reg_handler (heap s a) of
        None \<Rightarrow> Some UB
      | Some (FuturesHandler h) \<Rightarrow> Some (Futures_handle_event E h a ev s)
      | Some (CustomEventHandler rh) \<Rightarrow> Custom_handle_event E rh a s
      | Some (OtherHandler u) \<Rightarrow> Some (Val (emit (UserHandler u a ev) s)))"

text \<open>The upgraded \<open>Registration\<close> is dropped at the end of the iteration.\<close>

definition dispatch_one :: "env \<Rightarrow> u32 \<times> addr \<Rightarrow> epoll \<Rightarrow> epoll rust option" where
  "dispatch_one E e s =
     and_then (Some (weak_upgrade (snd e) s)) (\<lambda>(r, s1).
       case r of
         None \<Rightarrow> Some (Val s1)
       | Some a \<Rightarrow>
           and_then (handle_event E a (bf_truncate E (fst e)) s1) (\<lambda>s2.
             Some (Val (Registration_drop E a s2))))"

fun dispatch :: "env \<Rightarrow> (u32 \<times> addr) list \<Rightarrow> epoll \<Rightarrow> epoll rust option" where
  "dispatch E [] s = Some (Val s)"
| "dispatch E (e # es) s = and_then (dispatch_one E e s) (dispatch E es)"

text \<open>The slice \<open>events[0..event_count]\<close> panics past the end of the array.\<close>

definition dispatch_events ::
  "env \<Rightarrow> (u32 \<times> addr) list \<Rightarrow> epoll \<Rightarrow> ((io_error + nat) \<times> epoll) rust option" where
  "dispatch_events E es s =
     (if EVENT_BUFFER_SIZE < length es then Some Panic
      else and_then (dispatch E es s) (\<lambda>s1. Some (Val (Inr (length es), s1))))"

subsection \<open>The loop\<close>

partial_function (option) poll_loop ::
  "env \<Rightarrow> usize \<Rightarrow> addr option \<Rightarrow> i32 \<Rightarrow> epoll \<Rightarrow> ((io_error + nat) \<times> epoll) rust option" where
  "poll_loop E self interrupt timeout s =
     (case wait_step E self interrupt timeout s of
        (WaitPanic, _) \<Rightarrow> Some Panic
      | (WaitReturn r, s1) \<Rightarrow> Some (Val (r, s1))
      | (WaitRetry, s1) \<Rightarrow> poll_loop E self interrupt timeout s1
      | (WaitEvents es, s1) \<Rightarrow> dispatch_events E es s1)"

declare poll_loop.simps [code]

definition poll ::
  "env \<Rightarrow> bool \<Rightarrow> usize \<Rightarrow> duration option \<Rightarrow> addr option \<Rightarrow> epoll \<Rightarrow>
     ((io_error + nat) \<times> epoll) rust option" where
  "poll E chk self max_wait interrupt s =
     and_then (Some (timeout_ms chk max_wait)) (\<lambda>timeout. poll_loop E self interrupt timeout s)"

definition turn ::
  "env \<Rightarrow> bool \<Rightarrow> usize \<Rightarrow> duration option \<Rightarrow> epoll \<Rightarrow> ((io_error + nat) \<times> epoll) rust option" where
  "turn E chk self max_wait s = poll E chk self max_wait None s"

definition turn_interruptible ::
  "env \<Rightarrow> bool \<Rightarrow> usize \<Rightarrow> duration option \<Rightarrow> addr \<Rightarrow> epoll \<Rightarrow>
     ((io_error + nat) \<times> epoll) rust option" where
  "turn_interruptible E chk self max_wait i s = poll E chk self max_wait (Some i) s"

subsection \<open>Interrupt\<close>

definition Interrupt_new :: "epoll \<Rightarrow> addr \<times> epoll" where
  "Interrupt_new s =
     (fresh s, s\<lparr>fresh := fresh s + 1, thread_id := (thread_id s)(fresh s := 0)\<rparr>)"

definition interrupt :: "env \<Rightarrow> addr \<Rightarrow> epoll \<Rightarrow> (io_error + bool) \<times> epoll" where
  "interrupt E i s =
     (if thread_id s i = 0 then (Inr False, s)
      else case sys E (PthreadKill (thread_id s i)) s of
          (Inl e, s1) \<Rightarrow> (Inl e, s1)
        | (Inr _, s1) \<Rightarrow> (Inr True, s1))"

subsection \<open>What a turn leaves alone\<close>

definition same_tables :: "epoll \<Rightarrow> epoll \<Rightarrow> bool" where
  "same_tables s s' \<longleftrightarrow>
     epfd s' = epfd s \<and> custom_events s' = custom_events s \<and> reg_event s' = reg_event s \<and>
     events s' = events s \<and> thread_id s' = thread_id s \<and>
     sigusr2_installed s' = sigusr2_installed s \<and> fresh s' = fresh s"

lemma same_tables_refl [simp]: "same_tables s s"
  by (simp add: same_tables_def)

lemma same_tables_trans [trans]: "same_tables s t \<Longrightarrow> same_tables t u \<Longrightarrow> same_tables s u"
  by (simp add: same_tables_def)

lemma same_tables_upd [simp]:
  "same_tables s (s\<lparr>trace := t\<rparr>)" "same_tables s (s\<lparr>heap := h\<rparr>)"
  "same_tables s (s\<lparr>inner_refs := n\<rparr>)" "same_tables s (emit c s)"
  by (simp_all add: same_tables_def emit_def)

definition only_trace :: "epoll \<Rightarrow> epoll \<Rightarrow> bool" where
  "only_trace s s' \<longleftrightarrow> (\<exists>t. s' = s\<lparr>trace := t\<rparr>)"

lemma only_trace_refl [simp]: "only_trace s s"
  unfolding only_trace_def by (rule exI [of _ "trace s"]) simp

lemma only_trace_upd [simp]:
  "only_trace (s\<lparr>trace := t\<rparr>) s' = only_trace s s'"
  "only_trace (emit c s) s' = only_trace s s'"
  by (simp_all add: only_trace_def emit_def)

lemma only_trace_updI [intro]: "only_trace s s' \<Longrightarrow> only_trace s (s'\<lparr>trace := t\<rparr>)"
  by (auto simp: only_trace_def)

lemma only_trace_trans: "only_trace s t \<Longrightarrow> only_trace t u \<Longrightarrow> only_trace s u"
  by (auto simp: only_trace_def)

lemma only_trace_frame: "only_trace s s' \<Longrightarrow> same_tables s s' \<and> heap s' = heap s"
  by (auto simp: only_trace_def same_tables_def)

lemma modify_shape: "modify E a m md s = (r, s') \<Longrightarrow> only_trace s s'"
  by (auto simp: modify_def sys_def Let_def split: option.splits sum.splits)

lemma drop_inner_shape: "same_tables s (drop_inner E s) \<and> heap (drop_inner E s) = heap s"
  by (simp add: drop_inner_def sys_def Let_def same_tables_def)

lemma Registration_drop_tables: "same_tables s (Registration_drop E a s)"
  by (auto simp: Registration_drop_def Let_def sys_def set_cell_def drop_inner_def same_tables_def
      split: option.splits sum.splits)

lemma weak_upgrade_tables: "weak_upgrade a s = Val (r, s') \<Longrightarrow> same_tables s s'"
  by (auto simp: weak_upgrade_def reg_clone_def set_cell_def split: option.splits if_splits)

lemma Futures_handle_event_frame:
  assumes "Futures_handle_event E h a ev s = Val s'"
  shows "same_tables s s' \<and> heap s' = heap s"
proof -
  obtain ys rem s1 where loop: "fire_loop E ev (interests s h) 0 None s = (ys, rem, s1)"
    by (cases "fire_loop E ev (interests s h) 0 None s")
  obtain js where s1: "s1 = s\<lparr>fired := (\<lambda>j. fired s j \<or> j \<in> set js), trace := trace s @ notified js\<rparr>"
    using fire_loop_spec [OF loop] by blast
  show ?thesis
  proof (cases rem)
    case None
    with assms loop show ?thesis
      by (auto simp: Futures_handle_event_def same_tables_def s1)
  next
    case (Some k)
    define s2 where "s2 = s1\<lparr>interests := (interests s1)(h := ys)\<rparr>"
    from assms loop Some obtain r where "modify E a k (bf_union E (EDGE E) (ONE_SHOT E)) s2 = (r, s')"
      by (auto simp: Futures_handle_event_def s2_def split: prod.splits sum.splits)
    from only_trace_frame [OF modify_shape [OF this]] show ?thesis
      by (auto simp: same_tables_def s1 s2_def)
  qed
qed

lemma drain_shape:
  assumes "drain E p tag s = Some s'"
  shows "only_trace s s'"
proof (rule drain.raw_induct [where P = "\<lambda>E p tag s s'. only_trace s s'", OF _ assms])
  fix f :: "env \<Rightarrow> addr \<Rightarrow> event_tag \<Rightarrow> epoll \<Rightarrow> epoll option"
  fix E p tag s s'
  assume IH: "\<And>E p tag s s'. f E p tag s = Some s' \<Longrightarrow> only_trace s s'"
    and step: "(case try_pop E p s of (None, s1) \<Rightarrow> Some s1
      | (Some d, s1) \<Rightarrow> f E p tag (emit (HandlerCall p tag d) s1)) = Some s'"
  show "only_trace s s'"
  proof (cases "os_pop E (trace s) p")
    case None
    with step show ?thesis by (auto simp: try_pop_def emit_def)
  next
    case (Some d)
    with step have "f E p tag (emit (HandlerCall p tag d) (emit (SegTryPop p) s)) = Some s'"
      by (simp add: try_pop_def)
    from IH [OF this] show ?thesis by simp
  qed
qed

lemma rearm_event_shape: "rearm_event E a s = Val s' \<Longrightarrow> only_trace s s'"
  by (auto simp: rearm_event_def split: prod.splits sum.splits dest: modify_shape)

lemma Custom_handle_event_ValE:
  assumes "Custom_handle_event E rh a s = Some (Val s')"
  obtains p tag r s1 s2 and ce :: custom_event where "sys E (ReadEventfd (ce_event_fd ce)) s = (r, s1)"
    "drain E p tag s1 = Some s2 \<or> s2 = s1" "rearm_event E a s2 = Val s'"
proof -
  from assms obtain p ce where ce: "Option.bind (reg_event s rh) (\<lambda>p. map_option (Pair p) (events s p)) = Some (p, ce)"
    by (auto simp: Custom_handle_event_def split: option.splits)
  obtain r s1 where read: "sys E (ReadEventfd (ce_event_fd ce)) s = (r, s1)"
    by (cases "sys E (ReadEventfd (ce_event_fd ce)) s")
  define tag where "tag = \<lparr>tag_ptr = p, tag_epoll_fd = epfd s1\<rparr>"
  have "Custom_handle_event E rh a s =
      (case (case r of Inl e \<Rightarrow> if kind e = WouldBlock then Some 0 else None | Inr n \<Rightarrow> Some n) of
         None \<Rightarrow> Some Panic
       | Some n \<Rightarrow> and_then (if n \<noteq> 0 then map_option Val (drain E p tag s1) else Some (Val s1))
           (\<lambda>s2. Some (rearm_event E a s2)))"
    unfolding tag_def by (simp add: Custom_handle_event_def ce read)
  with assms obtain n :: int where "and_then (if n \<noteq> 0 then map_option Val (drain E p tag s1)
      else Some (Val s1)) (\<lambda>s2. Some (rearm_event E a s2)) = Some (Val s')"
    by (cases "case r of Inl e \<Rightarrow> if kind e = WouldBlock then Some 0 else None | Inr n \<Rightarrow> Some n")
      simp_all
  then obtain s2 where "drain E p tag s1 = Some s2 \<or> s2 = s1" "rearm_event E a s2 = Val s'"
    by (auto split: if_splits elim!: and_then_ValE)
  with read show thesis by (rule that)
qed

lemma Custom_handle_event_frame:
  assumes "Custom_handle_event E rh a s = Some (Val s')"
  shows "only_trace s s'"
proof -
  obtain p tag r s1 s2 and ce :: custom_event where "sys E (ReadEventfd (ce_event_fd ce)) s = (r, s1)"
    "drain E p tag s1 = Some s2 \<or> s2 = s1" "rearm_event E a s2 = Val s'"
    using assms by (rule Custom_handle_event_ValE)
  then have "only_trace s s1" "only_trace s1 s2" "only_trace s2 s'"
    by (auto simp: sys_def Let_def dest: drain_shape rearm_event_shape)
  then show ?thesis by (blast intro: only_trace_trans)
qed

lemma handle_event_frame:
  "handle_event E a ev s = Some (Val s') \<Longrightarrow> same_tables s s' \<and> heap s' = heap s"
  by (auto simp: handle_event_def emit_def same_tables_def split: option.splits handler.splits
      dest!: Futures_handle_event_frame Custom_handle_event_frame only_trace_frame)

text \<open>
  An iteration of the dispatch loop holds the registration it works on, so the drop at its end is
  never the last one: the heap is what it was.
\<close>

lemma Registration_drop_not_last:
  "heap s a = Some c \<Longrightarrow> 1 < strong c \<Longrightarrow>
   Registration_drop E a s = set_cell a (c\<lparr>strong := strong c - 1\<rparr>) s"
  by (simp add: Registration_drop_def Let_def)

lemma dispatch_one_frame:
  assumes "dispatch_one E e s = Some (Val s')"
  shows "same_tables s s' \<and> heap s' = heap s"
proof (cases "heap s (snd e)")
  case None
  with assms show ?thesis by (simp add: dispatch_one_def weak_upgrade_def)
next
  case (Some c)
  show ?thesis
  proof (cases "strong c = 0")
    case True
    with assms Some show ?thesis by (auto simp: dispatch_one_def weak_upgrade_def)
  next
    case False
    define s1 where "s1 = reg_clone (snd e) s"
    have s1: "same_tables s s1" "heap s1 = (heap s)(snd e \<mapsto> c\<lparr>strong := strong c + 1\<rparr>)"
      using Some by (simp_all add: s1_def reg_clone_def set_cell_def)
    from assms Some False obtain s2 where
      ev: "handle_event E (snd e) (bf_truncate E (fst e)) s1 = Some (Val s2)" and
      s': "s' = Registration_drop E (snd e) s2"
      by (auto simp: dispatch_one_def weak_upgrade_def s1_def elim!: and_then_ValE)
    have s2: "same_tables s1 s2" "heap s2 = heap s1"
      using handle_event_frame [OF ev] by simp_all
    have "s' = set_cell (snd e) c s2"
      using False by (simp add: s' s2 s1 Registration_drop_not_last)
    then have "heap s' = heap s"
      using s2 s1 Some False by (auto simp: set_cell_def)
    then show ?thesis
      using s1 s2 Registration_drop_tables [of s2 E "snd e"] s' by (metis same_tables_trans)
  qed
qed

lemma dispatch_frame:
  "dispatch E es s = Some (Val s') \<Longrightarrow> same_tables s s' \<and> heap s' = heap s"
  by (induction es arbitrary: s)
    (auto elim!: and_then_ValE dest!: dispatch_one_frame intro: same_tables_trans)

subsection \<open>The timeout, exactly\<close>

text \<open>What the release build passes to the kernel, as an unsigned number.\<close>

lemma unat_timeout:
  "timeout_ms False (Some d) = Val t \<Longrightarrow> unat t = duration_ms d mod 2 ^ 32"
  by (cases d) (auto simp: timeout_ms_def mul_u32_def add_u32_def duration_ms_def
      unat_word_ariths unsigned_ucast_eq take_bit_eq_mod unat_div mod_simps)

lemma timeout_ms_no_overflow:
  assumes "duration_ms d < 2 ^ 32"
  shows "\<exists>t. timeout_ms chk (Some d) = Val t \<and> unat t = duration_ms d"
proof -
  obtain secs nanos where d: "d = (secs, nanos)" by (cases d)
  from assms have secs: "unat secs * 1000 < 2 ^ 32" by (simp add: d duration_ms_def)
  then have cast: "unat (ucast secs :: u32) = unat secs"
    by (simp add: unsigned_ucast_eq take_bit_eq_mod)
  then have mul: "unat (ucast secs * 1000 :: u32) = unat secs * 1000"
    using secs by (simp add: unat_word_ariths)
  then have "unat (ucast secs * 1000 + nanos div 1000000 :: u32) = duration_ms d"
    using assms by (simp add: d duration_ms_def unat_word_ariths unat_div)
  then show ?thesis
    using cast mul secs assms
    by (simp add: d duration_ms_def timeout_ms_def mul_u32_def add_u32_def unat_div)
qed

lemma sint_i32:
  "sint (t :: i32) = (if unat t < 2 ^ 31 then int (unat t) else int (unat t) - 2 ^ 32)"
proof -
  have bounds: "0 \<le> uint t" "uint t < 2 ^ 32"
    using uint_lt2p [of t] by simp_all
  have "sint t = (uint t + 2 ^ 31) mod 2 ^ 32 - 2 ^ 31"
    by (simp add: sint_uint signed_take_bit_eq_take_bit_shift take_bit_eq_mod)
  also have "\<dots> = (if uint t < 2 ^ 31 then uint t else uint t - 2 ^ 32)"
    using bounds by (simp add: mod_pos_geq)
  finally have "sint t = (if uint t < 2 ^ 31 then uint t else uint t - 2 ^ 32)" .
  moreover obtain n where "unat t = n" "uint t = int n"
    by (metis uint_nat)
  ultimately show ?thesis by simp
qed

text \<open>
  C39. For every wait of less than \<open>2\<^sup>3\<^sup>1\<close> milliseconds, in debug and in release builds, \<open>poll\<close> passes
  the kernel exactly the duration in whole milliseconds (rounded down); an unbounded wait is -1.
\<close>

theorem timeout_ms_exact:
  assumes "duration_ms d < 2 ^ 31"
  shows "(\<exists>t. timeout_ms chk (Some d) = Val t \<and> sint t = int (duration_ms d)) \<and>
    (\<exists>t. timeout_ms chk None = Val t \<and> sint t = -1)"
proof -
  obtain t where "timeout_ms chk (Some d) = Val t" "unat t = duration_ms d"
    using timeout_ms_no_overflow [of d chk] assms by force
  with assms have "timeout_ms chk (Some d) = Val t \<and> sint t = int (duration_ms d)"
    by (simp add: sint_i32)
  moreover have "timeout_ms chk None = Val (- 1) \<and> sint (- 1 :: i32) = - 1"
    by (simp add: timeout_ms_def)
  ultimately show ?thesis by blast
qed

theorem timeout_ms_exact_witness:
  "duration_ms (5, 2500000) < 2 ^ 31 \<and>
   (\<exists>t. timeout_ms True (Some (5, 2500000)) = Val t \<and> sint t = int (duration_ms (5, 2500000)))"
proof -
  have "duration_ms (5, 2500000) < 2 ^ 31" by (simp add: duration_ms_def)
  with timeout_ms_exact [OF this, of True] show ?thesis by blast
qed

text \<open>
  From \<open>2\<^sup>3\<^sup>1\<close> milliseconds (24.8 days) up to \<open>2\<^sup>3\<^sup>2\<close> the conversion neither panics nor saturates:
  \<open>poll\<close> hands the kernel a negative timeout, which \<open>epoll_wait(2)\<close> takes as no timeout at all.
\<close>

theorem timeout_ms_negative:
  assumes "2 ^ 31 \<le> duration_ms d" and "duration_ms d < 2 ^ 32"
  shows "\<exists>t. timeout_ms chk (Some d) = Val t \<and> sint t = int (duration_ms d) - 2 ^ 32 \<and> sint t < 0"
proof -
  obtain t where "timeout_ms chk (Some d) = Val t" "unat t = duration_ms d"
    using timeout_ms_no_overflow [of d chk] assms by force
  with assms show ?thesis by (auto simp: sint_i32)
qed

theorem timeout_ms_negative_witness:
  "\<exists>t. timeout_ms False (Some (2147484, 0)) = Val t \<and> sint t < 0"
  using timeout_ms_negative [of "(2147484, 0)" False] by (force simp: duration_ms_def)

end
