(* ===== verification/EpollRuns.thy ===== *)
theory EpollRuns
  imports EpollPoll
begin

text \<open>
  Invariants of an epoll instance under every operation of its interface.

  The locale \<open>loop_invariant\<close> is the contract between the event loop and an invariant: what the
  calls a turn makes, the handlers of the crate and the references a turn takes must keep.  Its
  consequence is that a whole turn keeps the invariant.  The invariant may except a set of
  registrations, the pending ones: those an event has been returned for and whose handler has not
  run yet.  In \<open>dispatch_invariant\<close> the handler of custom events may be looked into: the invariant is kept
  by each call it makes.  \<open>turn_invariant\<close> is the special case of an invariant that the primitive changes
  of the state keep one by one.  Each contract gives the one before, and each is interpreted on
  invariants of the development.
\<close>

subsection \<open>Calls without effect on the kernel's interest table\<close>

fun quiet :: "call \<Rightarrow> bool" where
  "quiet (EpollCtl _ _ _ _) = False"
| "quiet (CloseFd _) = False"
| "quiet _ = True"

fun benign :: "call \<Rightarrow> bool" where
  "benign (TaskNotify _) = False"
| "benign (EventReturned _ _) = False"
| "benign k = quiet k"

fun plain :: "call \<Rightarrow> bool" where
  "plain (SegPush _ _) = False"
| "plain (SegTryPop _) = False"
| "plain (HandlerCall _ _ _) = False"
| "plain k = benign k"

lemma plain_benign: "plain k \<Longrightarrow> benign k"
  by (cases k) auto

lemma benign_quiet: "benign k \<Longrightarrow> quiet k"
  by (cases k) auto

subsection \<open>The contract of the event loop\<close>

locale loop_base =
  fixes E :: env and I :: "addr set \<Rightarrow> epoll \<Rightarrow> bool"
  assumes plain_call: "I P s \<Longrightarrow> plain k \<Longrightarrow> I P (s\<lparr>trace := trace s @ [(k, ok)]\<rparr>)"
    and returned: "I P s \<Longrightarrow> I (insert a P) (s\<lparr>trace := trace s @ [(EventReturned ev a, True)]\<rparr>)"
    and mono_pending: "I P s \<Longrightarrow> P \<subseteq> Q \<Longrightarrow> I Q s"
    and not_futures: "I P s \<Longrightarrow> (\<And>c h. heap s a = Some c \<Longrightarrow> 0 < strong c \<Longrightarrow>
      reg_handler c \<noteq> FuturesHandler h) \<Longrightarrow> I (P - {a}) s"
    and set_thread_id: "I P s \<Longrightarrow> I P (s\<lparr>thread_id := z\<rparr>)"
    and set_sigusr2: "I P s \<Longrightarrow> I P (s\<lparr>sigusr2_installed := b\<rparr>)"
    and futures_event: "I P s \<Longrightarrow> heap s a = Some c \<Longrightarrow> 0 < strong c \<Longrightarrow>
      reg_handler c = FuturesHandler h \<Longrightarrow> Futures_handle_event E h a ev s = Val s' \<Longrightarrow> I (P - {a}) s'"
    and clone_keeps: "I P s \<Longrightarrow> heap s a = Some c \<Longrightarrow> 0 < strong c \<Longrightarrow> I P (reg_clone a s)"
    and drop_keeps: "I P s \<Longrightarrow> heap s a = Some c \<Longrightarrow> 1 < strong c \<Longrightarrow> I P (Registration_drop E a s)"

locale loop_invariant = loop_base +
  assumes custom_event: "I P s \<Longrightarrow> heap s a = Some c \<Longrightarrow> 0 < strong c \<Longrightarrow>
      reg_handler c = CustomEventHandler rh \<Longrightarrow> Custom_handle_event E rh a s = Some (Val s') \<Longrightarrow> I P s'"
begin

lemma plain_emit_keeps: "I P s \<Longrightarrow> plain c \<Longrightarrow> I P (emit c s)"
  by (simp add: emit_def plain_call)

lemma plain_sys_keeps: "sys E c s = (r, s') \<Longrightarrow> plain c \<Longrightarrow> I P s \<Longrightarrow> I P s'"
  by (auto simp: sys_def Let_def plain_call)

lemma handle_event_keeps:
  assumes "handle_event E a ev s = Some (Val s')" and "I P s"
    and c: "heap s a = Some c" "0 < strong c"
  shows "I (P - {a}) s'"
proof (cases "reg_handler c")
  case (FuturesHandler h)
  with assms show ?thesis
    by (auto simp: handle_event_def intro: futures_event)
next
  case (CustomEventHandler rh)
  then have "I (P - {a}) s" using assms by (auto intro: not_futures)
  with assms CustomEventHandler show ?thesis
    by (auto simp: handle_event_def intro: custom_event)
next
  case (OtherHandler u)
  then have "I (P - {a}) s" using assms by (auto intro: not_futures)
  with assms OtherHandler show ?thesis
    by (auto simp: handle_event_def intro: plain_emit_keeps)
qed

lemma dispatch_one_keeps:
  assumes "dispatch_one E e s = Some (Val s')" and "I P s"
  shows "I (P - {snd e}) s'"
proof -
  obtain c where c: "heap s (snd e) = Some c"
    using assms(1) by (cases "heap s (snd e)") (auto simp: dispatch_one_def weak_upgrade_def)
  show ?thesis
  proof (cases "strong c = 0")
    case True
    then show ?thesis
      using assms c by (auto simp: dispatch_one_def weak_upgrade_def intro: not_futures)
  next
    case False
    then obtain s2 where
      ev: "handle_event E (snd e) (bf_truncate E (fst e)) (reg_clone (snd e) s) = Some (Val s2)" and
      s': "s' = Registration_drop E (snd e) s2"
      using assms(1) c by (auto simp: dispatch_one_def weak_upgrade_def elim!: and_then_ValE)
    have "heap (reg_clone (snd e) s) (snd e) = Some (c\<lparr>strong := strong c + 1\<rparr>)"
      using c by (simp add: reg_clone_def set_cell_def)
    then have "I (P - {snd e}) s2"
      using ev assms(2) c False by (auto intro: handle_event_keeps clone_keeps)
    moreover have "heap s2 (snd e) = Some (c\<lparr>strong := strong c + 1\<rparr>)"
      using handle_event_frame [OF ev] c by (simp add: reg_clone_def set_cell_def)
    ultimately show ?thesis
      using False by (auto simp: s' intro!: drop_keeps)
  qed
qed

lemma dispatch_keeps: "dispatch E es s = Some (Val s') \<Longrightarrow> I (snd ` set es) s \<Longrightarrow> I {} s'"
proof (induction es arbitrary: s)
  case (Cons e es)
  then obtain s1 where one: "dispatch_one E e s = Some (Val s1)" and rest: "dispatch E es s1 = Some (Val s')"
    by (auto elim!: and_then_ValE)
  have "I (snd ` set es) s1"
    by (rule mono_pending [OF dispatch_one_keeps [OF one Cons.prems(2)]]) auto
  then show ?case using Cons.IH [OF rest] by blast
qed simp

lemma events_keep:
  "I {} s \<Longrightarrow> I (snd ` set es) (s\<lparr>trace := trace s @ map (\<lambda>(ev, a). (EventReturned ev a, True)) es\<rparr>)"
proof (induction es rule: rev_induct)
  case (snoc e es)
  then show ?case
    using returned [of "snd ` set es"
        "s\<lparr>trace := trace s @ map (\<lambda>(ev, a). (EventReturned ev a, True)) es\<rparr>" "snd e" "fst e"]
    by (simp add: split_beta')
qed simp

lemma sys_events_keeps:
  "sys_events E c s = (r, s') \<Longrightarrow> plain c \<Longrightarrow> I {} s \<Longrightarrow>
   I (case r of Inl _ \<Rightarrow> {} | Inr es \<Rightarrow> snd ` set es) s'"
  using plain_call [of "{}" s c "is_ok (os_events E (trace s) c)"]
    events_keep [of "s\<lparr>trace := trace s @ [(c, True)]\<rparr>"]
  by (auto simp: sys_events_def Let_def split: sum.splits)

lemma wait_step_keeps:
  assumes "wait_step E self i t s = (r, s')" and "I {} s"
  shows "I (case r of WaitEvents es \<Rightarrow> snd ` set es | _ \<Rightarrow> {}) s'"
proof (cases i)
  case None
  then obtain x where "sys_events E (EpollWait (epfd s) EVENT_BUFFER_SIZE t) s = (x, s')"
    and "r = (case x of Inl e \<Rightarrow> if kind e = Interrupted then WaitRetry else WaitReturn (Inl e)
      | Inr [] \<Rightarrow> WaitReturn (Inr 0) | Inr es \<Rightarrow> WaitEvents es)"
    using assms(1) by (auto simp: wait_step_def split: prod.splits)
  then show ?thesis
    using sys_events_keeps [of "EpollWait (epfd s) EVENT_BUFFER_SIZE t" s x s'] assms(2)
      by (cases x) (auto split: list.splits)
next
  case (Some j)
  have install: "I {} s1" if "install_sigusr2 E s = Some s1" for s1
    using that assms(2) by (auto simp: install_sigusr2_def set_sigusr2 split: if_splits prod.splits
        sum.splits dest: plain_sys_keeps)
  show ?thesis
  proof (cases "install_sigusr2 E s")
    case None
    then show ?thesis using assms Some by (auto simp: wait_step_def)
  next
    case inst: (Some s1)
    let ?s2 = "s1\<lparr>thread_id := (thread_id s1)(j := self)\<rparr>"
    obtain x s3 where "sys_events E (EpollPwait (epfd s1) EVENT_BUFFER_SIZE t) ?s2 = (x, s3)"
      and "s' = s3\<lparr>thread_id := (thread_id s3)(j := 0)\<rparr>"
      and "r = (case x of Inl e \<Rightarrow> if kind e = Interrupted then WaitReturn (Inr 0) else WaitReturn (Inl e)
        | Inr [] \<Rightarrow> WaitReturn (Inr 0) | Inr es \<Rightarrow> WaitEvents es)"
      using assms(1) Some inst by (auto simp: wait_step_def Let_def split: prod.splits)
    moreover have "I {} ?s2" using install [OF inst] by (rule set_thread_id)
    ultimately show ?thesis
      using sys_events_keeps [of "EpollPwait (epfd s1) EVENT_BUFFER_SIZE t" ?s2 x s3]
      by (cases x) (auto split: list.splits intro!: set_thread_id)
  qed
qed

lemma dispatch_events_keeps:
  "dispatch_events E es s = Some (Val (r, s')) \<Longrightarrow> I (snd ` set es) s \<Longrightarrow> I {} s'"
  by (auto simp: dispatch_events_def split: if_splits elim!: and_then_ValE dest: dispatch_keeps)

lemma poll_loop_keeps:
  assumes "poll_loop E self i t s = Some (Val (r, s'))" and "I {} s"
  shows "I {} s'"
proof -
  have "E = E \<longrightarrow> I {} s \<longrightarrow> (case Val (r, s') of Val (_, u) \<Rightarrow> I {} u | _ \<Rightarrow> True)"
  proof (rule poll_loop.raw_induct [where
        P = "\<lambda>E' self i t s x. E' = E \<longrightarrow> I {} s \<longrightarrow> (case x of Val (_, u) \<Rightarrow> I {} u | _ \<Rightarrow> True)",
        OF _ assms(1)], clarify)
    fix f :: "env \<Rightarrow> usize \<Rightarrow> addr option \<Rightarrow> i32 \<Rightarrow> epoll \<Rightarrow> ((io_error + nat) \<times> epoll) rust option"
    fix self i t s x
    assume IH: "\<And>E' self i t s x. f E' self i t s = Some x \<Longrightarrow>
        E' = E \<longrightarrow> I {} s \<longrightarrow> (case x of Val (_, u) \<Rightarrow> I {} u | _ \<Rightarrow> True)"
      and step: "(case wait_step E self i t s of
          (WaitPanic, _) \<Rightarrow> Some Panic
        | (WaitReturn r, s1) \<Rightarrow> Some (Val (r, s1))
        | (WaitRetry, s1) \<Rightarrow> f E self i t s1
        | (WaitEvents es, s1) \<Rightarrow> dispatch_events E es s1) = Some x"
      and "I {} s"
    obtain w s1 where w: "wait_step E self i t s = (w, s1)"
      by (cases "wait_step E self i t s")
    then have "I (case w of WaitEvents es \<Rightarrow> snd ` set es | _ \<Rightarrow> {}) s1"
      using \<open>I {} s\<close> by (rule wait_step_keeps)
    then show "case x of Val (_, u) \<Rightarrow> I {} u | _ \<Rightarrow> True"
      using step w
      by (cases w) (auto split: rust.splits dest: dispatch_events_keeps IH)
  qed
  with assms(2) show ?thesis by simp
qed

lemma turn_keeps: "turn E chk self w s = Some (Val (r, s')) \<Longrightarrow> I {} s \<Longrightarrow> I {} s'"
  by (auto simp: turn_def poll_def elim!: and_then_ValE intro: poll_loop_keeps)

lemma turn_interruptible_keeps:
  "turn_interruptible E chk self w i s = Some (Val (r, s')) \<Longrightarrow> I {} s \<Longrightarrow> I {} s'"
  by (auto simp: turn_interruptible_def poll_def elim!: and_then_ValE intro: poll_loop_keeps)

end

subsection \<open>Invariants of the custom event handler\<close>

locale dispatch_invariant = loop_base +
  assumes benign_call: "I P s \<Longrightarrow> benign k \<Longrightarrow> I P (s\<lparr>trace := trace s @ [(k, ok)]\<rparr>)"
    and modify_custom: "I P s \<Longrightarrow> heap s a = Some c \<Longrightarrow> 0 < strong c \<Longrightarrow>
      (\<And>h. reg_handler c \<noteq> FuturesHandler h) \<Longrightarrow> modify E a m md s = (r, s') \<Longrightarrow> I P s'"
begin

lemma emit_keeps: "I P s \<Longrightarrow> benign c \<Longrightarrow> I P (emit c s)"
  by (simp add: emit_def benign_call)

lemma sys_keeps: "sys E c s = (r, s') \<Longrightarrow> benign c \<Longrightarrow> I P s \<Longrightarrow> I P s'"
  by (auto simp: sys_def Let_def benign_call)

lemma try_pop_keeps: "try_pop E p s = (r, s') \<Longrightarrow> I P s \<Longrightarrow> I P s'"
  by (auto simp: try_pop_def emit_keeps)

lemma drain_keeps:
  assumes "drain E p tag s = Some s'" and "I P s"
  shows "I P s'"
proof -
  have "E = E \<longrightarrow> I P s \<longrightarrow> I P s'"
  proof (rule drain.raw_induct [where P = "\<lambda>E' p tag s s'. E' = E \<longrightarrow> I P s \<longrightarrow> I P s'", OF _ assms(1)], clarify)
    fix f :: "env \<Rightarrow> addr \<Rightarrow> event_tag \<Rightarrow> epoll \<Rightarrow> epoll option"
    fix p tag s s'
    assume IH: "\<And>E' p tag s s'. f E' p tag s = Some s' \<Longrightarrow> E' = E \<longrightarrow> I P s \<longrightarrow> I P s'"
      and step: "(case try_pop E p s of (None, s1) \<Rightarrow> Some s1
        | (Some d, s1) \<Rightarrow> f E p tag (emit (HandlerCall p tag d) s1)) = Some s'"
      and "I P s"
    then show "I P s'"
      by (auto split: prod.splits option.splits dest!: IH try_pop_keeps intro: emit_keeps)
  qed
  with assms(2) show ?thesis by simp
qed

lemma rearm_event_keeps:
  "rearm_event E a s = Val s' \<Longrightarrow> I P s \<Longrightarrow> heap s a = Some c \<Longrightarrow> 0 < strong c \<Longrightarrow>
   (\<And>h. reg_handler c \<noteq> FuturesHandler h) \<Longrightarrow> I P s'"
  by (auto simp: rearm_event_def split: prod.splits sum.splits intro: modify_custom)

lemma drain_heap: "drain E p tag s = Some s' \<Longrightarrow> heap s' = heap s"
  by (drule drain_shape) (auto simp: only_trace_def)

lemma sys_heap: "sys E c s = (r, s') \<Longrightarrow> heap s' = heap s"
  by (auto simp: sys_def Let_def)

lemma Custom_handle_event_keeps:
  assumes "Custom_handle_event E rh a s = Some (Val s')" and "I P s"
    and "heap s a = Some c" "0 < strong c" "\<And>h. reg_handler c \<noteq> FuturesHandler h"
  shows "I P s'"
proof -
  obtain p tag r s1 s2 and ce :: custom_event where read: "sys E (ReadEventfd (ce_event_fd ce)) s = (r, s1)"
    and drained: "drain E p tag s1 = Some s2 \<or> s2 = s1"
    and rearm: "rearm_event E a s2 = Val s'"
    using assms(1) by (rule Custom_handle_event_ValE)
  have "I P s1" "heap s1 = heap s"
    using sys_keeps [OF read _ assms(2)] sys_heap [OF read] by simp_all
  with drained have "I P s2" "heap s2 = heap s"
    by (auto dest: drain_keeps drain_heap)
  with rearm assms(3-5) show ?thesis by (metis rearm_event_keeps)
qed

end

sublocale dispatch_invariant \<subseteq> loop_invariant
  by unfold_locales (auto intro: Custom_handle_event_keeps)

subsection \<open>Invariants kept by the primitive changes\<close>

locale turn_invariant =
  fixes E :: env and I :: "epoll \<Rightarrow> bool"
  assumes quiet_call: "I s \<Longrightarrow> quiet k \<Longrightarrow> I (s\<lparr>trace := trace s @ [(k, ok)]\<rparr>)"
    and set_interests: "I s \<Longrightarrow> I (s\<lparr>interests := x\<rparr>)"
    and set_fired: "I s \<Longrightarrow> I (s\<lparr>fired := y\<rparr>)"
    and set_thread_id: "I s \<Longrightarrow> I (s\<lparr>thread_id := z\<rparr>)"
    and set_sigusr2: "I s \<Longrightarrow> I (s\<lparr>sigusr2_installed := b\<rparr>)"
    and set_fresh: "I s \<Longrightarrow> I (s\<lparr>fresh := Suc (fresh s)\<rparr>)"
    and modify_keeps: "I s \<Longrightarrow> modify E a m md s = (r, s') \<Longrightarrow> I s'"
    and clone_keeps: "I s \<Longrightarrow> heap s a = Some c \<Longrightarrow> 0 < strong c \<Longrightarrow> I (reg_clone a s)"
    and drop_keeps: "I s \<Longrightarrow> heap s a = Some c \<Longrightarrow> 1 < strong c \<Longrightarrow> I (Registration_drop E a s)"
begin

lemma quiet_emit_keeps: "I s \<Longrightarrow> quiet c \<Longrightarrow> I (emit c s)"
  by (simp add: emit_def quiet_call)

lemma quiet_sys_keeps: "sys E c s = (r, s') \<Longrightarrow> quiet c \<Longrightarrow> I s \<Longrightarrow> I s'"
  by (auto simp: sys_def Let_def quiet_call)

lemma fire_keeps: "I s \<Longrightarrow> I (fire j s)"
  by (simp add: fire_def quiet_emit_keeps set_fired)

lemma fire_loop_keeps: "fire_loop E ev xs i rem s = (ys, rem', s') \<Longrightarrow> I s \<Longrightarrow> I s'"
proof (induction E ev xs i rem s rule: fire_loop.induct)
  case (1 E ev xs i rem s)
  then show ?case
    by (simp add: fire_loop.simps [of E ev xs i rem s] fire_keeps split: if_splits)
qed

lemma Futures_handle_event_keeps: "Futures_handle_event E h a ev s = Val s' \<Longrightarrow> I s \<Longrightarrow> I s'"
  by (auto simp: Futures_handle_event_def set_interests Let_def
      split: prod.splits option.splits sum.splits
      dest!: fire_loop_keeps modify_keeps [rotated])

lemma register_keeps: "I s \<Longrightarrow> I (register i t s)"
  by (simp add: register_def quiet_emit_keeps)

lemma add_interest_keeps: "add_interest E fr ev t s = (r, s') \<Longrightarrow> I s \<Longrightarrow> I s'"
  by (auto simp: add_interest_def Let_def split: if_splits prod.splits sum.splits
      dest!: modify_keeps [rotated] intro!: set_interests register_keeps set_fired set_fresh)

lemma FutureInterest_poll_keeps: "FutureInterest_poll i t s = (r, s') \<Longrightarrow> I s \<Longrightarrow> I s'"
  by (auto simp: FutureInterest_poll_def register_keeps split: if_splits)

lemma post_custom_event_keeps: "post_custom_event E tag d s = Val (r, s') \<Longrightarrow> I s \<Longrightarrow> I s'"
  by (auto simp: post_custom_event_def split: if_splits option.splits prod.splits sum.splits
      dest!: quiet_sys_keeps intro: quiet_emit_keeps)

lemma interrupt_keeps: "interrupt E i s = (r, s') \<Longrightarrow> I s \<Longrightarrow> I s'"
  by (auto simp: interrupt_def split: if_splits prod.splits sum.splits dest: quiet_sys_keeps)

lemma Interrupt_new_keeps: "Interrupt_new s = (i, s') \<Longrightarrow> I s \<Longrightarrow> I s'"
  using set_fresh [of s] by (auto simp: Interrupt_new_def intro!: set_thread_id)

end

sublocale turn_invariant \<subseteq> loop: dispatch_invariant E "\<lambda>_. I"
proof
  fix s k ok
  assume "I s" "benign k"
  then show "I (s\<lparr>trace := trace s @ [(k, ok)]\<rparr>)"
    by (simp add: quiet_call benign_quiet)
qed (auto intro: quiet_call benign_quiet [OF plain_benign] set_thread_id set_sigusr2 modify_keeps clone_keeps drop_keeps
    Futures_handle_event_keeps)

subsection \<open>Registrations stay allocated while the kernel knows them\<close>

lemma kernel_step_quiet: "quiet c \<Longrightarrow> kernel_step (c, ok) k = k"
  by (cases c) auto

lemma reg_inv_upd [simp]:
  "reg_inv (s\<lparr>interests := x\<rparr>) = reg_inv s" "reg_inv (s\<lparr>fired := y\<rparr>) = reg_inv s"
  "reg_inv (s\<lparr>reg_event := e\<rparr>) = reg_inv s" "reg_inv (s\<lparr>events := v\<rparr>) = reg_inv s"
  "reg_inv (s\<lparr>custom_events := w\<rparr>) = reg_inv s"
  "reg_inv (s\<lparr>thread_id := z\<rparr>) = reg_inv s" "reg_inv (s\<lparr>sigusr2_installed := b\<rparr>) = reg_inv s"
  by (simp_all add: reg_inv_def)

interpretation reg: turn_invariant E reg_inv for E
proof
  fix s k ok
  assume "reg_inv s" "quiet k"
  then show "reg_inv (s\<lparr>trace := trace s @ [(k, ok)]\<rparr>)"
    by (auto intro: reg_inv_cong simp: kernel_step_quiet)
next
  fix s
  assume "reg_inv s"
  then show "reg_inv (s\<lparr>fresh := Suc (fresh s)\<rparr>)"
    by (auto intro: reg_inv_cong)
qed (auto intro: modify_reg_inv reg_clone_reg_inv Registration_drop_reg_inv)

subsection \<open>Custom events keep their memory\<close>

text \<open>
  The handler of every registered custom event points at a boxed event: the pointer has been set,
  and boxes are never freed.
\<close>

definition ce_inv :: "epoll \<Rightarrow> bool" where
  "ce_inv s \<longleftrightarrow>
     (\<forall>a c rh. heap s a = Some c \<longrightarrow> reg_handler c = CustomEventHandler rh \<longrightarrow>
        rh < fresh s \<and> (\<exists>p. reg_event s rh = Some p \<and> p \<in> dom (events s)))"

lemma ce_inv_sub:
  assumes "ce_inv s" and "reg_event s' = reg_event s" and "events s' = events s"
    and "fresh s \<le> fresh s'"
    and "\<And>a c. heap s' a = Some c \<Longrightarrow> \<exists>c0. heap s a = Some c0 \<and> reg_handler c0 = reg_handler c"
  shows "ce_inv s'"
  using assms unfolding ce_inv_def by (metis order.strict_trans2)

lemma modify_only_trace: "modify E a m md s = (r, s') \<Longrightarrow>
  heap s' = heap s \<and> reg_event s' = reg_event s \<and> events s' = events s \<and> fresh s' = fresh s \<and>
  inner_refs s' = inner_refs s \<and> epfd s' = epfd s"
  by (drule modify_shape) (auto simp: only_trace_def)

lemma ce_inv_upd [simp]:
  "ce_inv (s\<lparr>interests := x\<rparr>) = ce_inv s" "ce_inv (s\<lparr>fired := y\<rparr>) = ce_inv s"
  "ce_inv (s\<lparr>thread_id := z\<rparr>) = ce_inv s" "ce_inv (s\<lparr>sigusr2_installed := b\<rparr>) = ce_inv s"
  by (simp_all add: ce_inv_def)

lemma ce_inv_trace [simp]: "ce_inv (s\<lparr>trace := t\<rparr>) = ce_inv s"
  by (simp add: ce_inv_def)

lemma ce_inv_fresh: "ce_inv s \<Longrightarrow> ce_inv (s\<lparr>fresh := Suc (fresh s)\<rparr>)"
  by (fastforce simp: ce_inv_def)

lemma modify_ce_inv: "ce_inv s \<Longrightarrow> modify E a m md s = (r, s') \<Longrightarrow> ce_inv s'"
  by (drule modify_only_trace) (simp add: ce_inv_def)

interpretation ce: turn_invariant E ce_inv for E
proof
  fix s a c
  assume "ce_inv s" "heap s a = Some c"
  then show "ce_inv (reg_clone a s)"
    by (auto intro!: ce_inv_sub [OF \<open>ce_inv s\<close>] simp: reg_clone_def set_cell_def split: if_splits)
next
  fix s a c
  assume "ce_inv s" "heap s a = Some c" "1 < strong c"
  then show "ce_inv (Registration_drop E a s)"
    by (auto intro!: ce_inv_sub [OF \<open>ce_inv s\<close>] simp: Registration_drop_not_last set_cell_def
        split: if_splits)
qed (auto intro: ce_inv_fresh modify_ce_inv)

subsection \<open>Counting the references to the instance\<close>

text \<open>
  \<open>live\<close>: the registrations that are not dropped.  Each owns one \<open>Arc<Inner>\<close>, so does each \<open>Epoll\<close> or
  \<open>Handle\<close> (\<open>n\<close> of them), and one more is lost with every registration that failed.
\<close>

definition live :: "epoll \<Rightarrow> addr set" where
  "live s = {a. \<exists>c. heap s a = Some c \<and> 0 < strong c}"

fun failed_add :: "call \<times> bool \<Rightarrow> bool" where
  "failed_add (EpollCtl _ EPOLL_CTL_ADD _ _, ok) = (\<not> ok)"
| "failed_add _ = False"

definition failed_adds :: "trace \<Rightarrow> nat" where
  "failed_adds tr = length (filter failed_add tr)"

lemma failed_adds_snoc [simp]: "failed_adds (tr @ [c]) = failed_adds tr + (if failed_add c then 1 else 0)"
  by (simp add: failed_adds_def)

definition closed :: "epoll \<Rightarrow> bool" where
  "closed s \<longleftrightarrow> (\<exists>ok. (CloseFd (epfd s), ok) \<in> set (trace s))"

definition acct :: "nat \<Rightarrow> epoll \<Rightarrow> bool" where
  "acct n s \<longleftrightarrow> finite (live s) \<and> inner_refs s = n + card (live s) + failed_adds (trace s) \<and>
     (closed s \<longrightarrow> inner_refs s = 0)"

lemma acct_cong:
  "acct n s \<Longrightarrow> live s' = live s \<Longrightarrow> inner_refs s' = inner_refs s \<Longrightarrow>
   failed_adds (trace s') = failed_adds (trace s) \<Longrightarrow> (closed s' \<Longrightarrow> closed s) \<Longrightarrow> acct n s'"
  by (auto simp: acct_def)

lemma failed_add_quiet: "quiet c \<Longrightarrow> \<not> failed_add (c, ok)"
  by (cases c) auto

lemma modify_acct:
  assumes "acct n s" "modify E a m md s = (r, s')"
  shows "acct n s'"
  using assms
  by (auto simp: modify_def sys_def Let_def live_def closed_def split: option.splits sum.splits
      intro: acct_cong)

lemma set_cell_frame [simp]:
  "trace (set_cell a c s) = trace s" "inner_refs (set_cell a c s) = inner_refs s"
  "epfd (set_cell a c s) = epfd s"
  by (simp_all add: set_cell_def)

lemma live_set_cell: "live (set_cell a c s) = (if 0 < strong c then insert a (live s) else live s - {a})"
  by (auto simp: live_def set_cell_def split: if_splits)

lemma live_upd [simp]:
  "live (s\<lparr>interests := x\<rparr>) = live s" "live (s\<lparr>fired := y\<rparr>) = live s"
  "live (s\<lparr>thread_id := z\<rparr>) = live s" "live (s\<lparr>sigusr2_installed := b\<rparr>) = live s"
  "live (s\<lparr>trace := t\<rparr>) = live s" "live (s\<lparr>fresh := f\<rparr>) = live s"
  "live (s\<lparr>inner_refs := r\<rparr>) = live s" "live (s\<lparr>reg_event := e\<rparr>) = live s"
  "live (s\<lparr>events := v\<rparr>) = live s" "live (s\<lparr>custom_events := w\<rparr>) = live s"
  by (simp_all add: live_def)

lemma acct_upd [simp]:
  "acct n (s\<lparr>interests := x\<rparr>) = acct n s" "acct n (s\<lparr>fired := y\<rparr>) = acct n s"
  "acct n (s\<lparr>fresh := f\<rparr>) = acct n s" "acct n (s\<lparr>reg_event := e\<rparr>) = acct n s"
  "acct n (s\<lparr>events := v\<rparr>) = acct n s" "acct n (s\<lparr>custom_events := w\<rparr>) = acct n s"
  "acct n (s\<lparr>thread_id := z\<rparr>) = acct n s" "acct n (s\<lparr>sigusr2_installed := b\<rparr>) = acct n s"
  by (simp_all add: acct_def closed_def)

interpretation acct: turn_invariant E "acct n" for E n
proof
  fix s k ok
  assume "acct n s" "quiet k"
  then show "acct n (s\<lparr>trace := trace s @ [(k, ok)]\<rparr>)"
    by (auto intro!: acct_cong [OF \<open>acct n s\<close>] simp: live_def closed_def failed_add_quiet)
next
  fix s a c
  assume "acct n s" "heap s a = Some c" "0 < strong c"
  then show "acct n (reg_clone a s)"
    by (intro acct_cong [OF \<open>acct n s\<close>])
      (auto simp: reg_clone_def live_set_cell live_def closed_def set_cell_def)
next
  fix s a c
  assume "acct n s" "heap s a = Some c" "1 < strong c"
  then show "acct n (Registration_drop E a s)"
    by (intro acct_cong [OF \<open>acct n s\<close>])
      (auto simp: Registration_drop_not_last live_set_cell closed_def set_cell_def live_def)
qed (auto intro: modify_acct)

subsection \<open>The remaining operations\<close>

lemma handle_acct: "acct n s \<Longrightarrow> 0 < n \<Longrightarrow> acct (Suc n) (handle s)"
  by (auto simp: acct_def handle_def closed_def)

lemma drop_inner_acct: "acct (Suc n) s \<Longrightarrow> acct n (drop_inner E s)"
  by (auto simp: acct_def drop_inner_def Let_def sys_def closed_def)

lemma register_fd_raw_acct:
  assumes "acct n s" "reg_inv s" "0 < n" and reg: "register_fd_raw E fd m md h s = (r, s')"
  shows "acct n s'"
proof -
  have new: "fresh s \<notin> live s"
    using reg_inv_fresh [OF assms(2)] by (auto simp: live_def)
  have open_fd: "\<not> closed s"
    using assms(1,3) by (auto simp: acct_def)
  show ?thesis
  proof (cases r)
    case (Inl e)
    then have "live s' = live s"
      using reg new
      by (auto simp: register_fd_raw_def Let_def sys_def live_def split: sum.splits if_splits)
    then show ?thesis
      using Inl reg assms(1) open_fd
      by (auto simp: register_fd_raw_def Let_def sys_def acct_def closed_def split: sum.splits)
  next
    case (Inr a)
    then have "live s' = insert (fresh s) (live s)"
      using reg by (auto simp: register_fd_raw_def Let_def sys_def live_def split: sum.splits)
    then show ?thesis
      using Inr reg assms(1) open_fd new
      by (auto simp: register_fd_raw_def Let_def sys_def acct_def closed_def split: sum.splits)
  qed
qed

lemma Registration_drop_acct:
  assumes "acct n s" "heap s a = Some c" "0 < strong c"
  shows "acct n (Registration_drop E a s)"
proof (cases "1 < strong c")
  case True
  then show ?thesis using assms by (simp add: acct.drop_keeps)
next
  case False
  have a: "a \<in> live s" using assms by (auto simp: live_def)
  then have refs: "0 < inner_refs s" "\<not> closed s"
    using assms(1) by (auto simp: acct_def card_gt_0_iff)
  have "acct (Suc n) (set_cell a c' (s\<lparr>trace := trace s @ [(EpollCtl e EPOLL_CTL_DEL fd x, ok)]\<rparr>))"
    if "strong c' = 0" for c' e fd x ok
    using assms(1) a refs that card_gt_0_iff [of "live s"]
    by (auto simp: acct_def live_set_cell closed_def card_Suc_Diff1)
  then show ?thesis
    using assms(2,3) False
    by (auto simp: Registration_drop_def Let_def sys_def intro!: drop_inner_acct split: sum.splits)
qed

lemma Registration_drop_ce_inv: "ce_inv s \<Longrightarrow> ce_inv (Registration_drop E a s)"
  by (rule ce_inv_sub [of s], assumption)
    (auto simp: Registration_drop_def Let_def sys_def set_cell_def drop_inner_def
      split: option.splits sum.splits if_splits)

lemma register_fd_raw_tables:
  "register_fd_raw E fd m md h s = (r, s') \<Longrightarrow>
     reg_event s' = reg_event s \<and> events s' = events s \<and> fresh s' = Suc (fresh s) \<and>
     epfd s' = epfd s \<and>
     heap s' = (case r of Inl _ \<Rightarrow> (heap s)(fresh s := None)
       | Inr a \<Rightarrow> (heap s)(a \<mapsto> \<lparr>strong = 1, weak = 1, reg_fd = fd, epoll_data = a, reg_handler = h\<rparr>)) \<and>
     (\<forall>a. r = Inr a \<longrightarrow> a = fresh s)"
  by (auto simp: register_fd_raw_def Let_def sys_def split: sum.splits)

lemma register_fd_raw_ce_inv:
  assumes "ce_inv s" "register_fd_raw E fd m md h s = (r, s')" "\<forall>rh. h \<noteq> CustomEventHandler rh"
  shows "ce_inv s'"
  using assms(1,3) register_fd_raw_tables [OF assms(2)]
  by (auto simp: ce_inv_def less_Suc_eq split: sum.splits if_splits)

lemma FuturesRegistration_new_ops:
  assumes "FuturesRegistration_new E fd s = (r, s')"
  shows "reg_inv s \<Longrightarrow> reg_inv s'" "ce_inv s \<Longrightarrow> ce_inv s'"
    "acct n s \<Longrightarrow> reg_inv s \<Longrightarrow> 0 < n \<Longrightarrow> acct n s'"
proof -
  define s1 where "s1 = s\<lparr>fresh := Suc (fresh s), interests := (interests s)(fresh s := [])\<rparr>"
  obtain r1 where reg: "register_fd_raw E fd (bf_empty E) (bf_union E (EDGE E) (ONE_SHOT E))
      (FuturesHandler (fresh s)) s1 = (r1, s')"
    using assms by (auto simp: FuturesRegistration_new_def s1_def Let_def split: prod.splits sum.splits)
  have s1: "reg_inv s \<Longrightarrow> reg_inv s1" "ce_inv s \<Longrightarrow> ce_inv s1" "acct n s \<Longrightarrow> acct n s1"
    using reg.set_fresh [of s] reg.set_interests ce_inv_fresh ce.set_interests
    by (auto simp: s1_def)
  show "reg_inv s \<Longrightarrow> reg_inv s'" using reg s1 by (auto intro: register_fd_raw_reg_inv)
  show "ce_inv s \<Longrightarrow> ce_inv s'" using reg s1 by (auto intro: register_fd_raw_ce_inv)
  show "acct n s \<Longrightarrow> reg_inv s \<Longrightarrow> 0 < n \<Longrightarrow> acct n s'"
    using reg s1 by (auto intro: register_fd_raw_acct)
qed

lemma new_custom_event_cases:
  assumes "new_custom_event E s = (r, s')"
  obtains (no_eventfd) e s1 where "sys E CreateEventfd s = (Inl e, s1)" "r = Inl e" "s' = s1"
  | (failed) efd s1 e s3 where "sys E CreateEventfd s = (Inr efd, s1)" "r = Inl e"
      "register_fd_raw E efd (READ E) (ONE_SHOT E) (CustomEventHandler (fresh s1))
         (handle (s1\<lparr>fresh := fresh s1 + 1, reg_event := (reg_event s1)(fresh s1 := None)\<rparr>)) = (Inl e, s3)"
      "s' = drop_inner E s3"
  | (ok) efd s1 a s3 where "sys E CreateEventfd s = (Inr efd, s1)"
      "r = Inr \<lparr>tag_ptr = fresh s3, tag_epoll_fd = epfd s3\<rparr>"
      "register_fd_raw E efd (READ E) (ONE_SHOT E) (CustomEventHandler (fresh s1))
         (handle (s1\<lparr>fresh := fresh s1 + 1, reg_event := (reg_event s1)(fresh s1 := None)\<rparr>)) = (Inr a, s3)"
      "s' = (drop_inner E s3)\<lparr>fresh := fresh s3 + 1,
         events := (events s3)(fresh s3 \<mapsto> \<lparr>ce_event_fd = efd, ce_registration = a\<rparr>),
         reg_event := (reg_event s3)(fresh s1 := Some (fresh s3)),
         custom_events := custom_events s3 @ [fresh s3]\<rparr>"
proof -
  have frame: "epfd (drop_inner E s3) = epfd s3" "events (drop_inner E s3) = events s3"
    "reg_event (drop_inner E s3) = reg_event s3" "custom_events (drop_inner E s3) = custom_events s3"
    for s3
    using drop_inner_shape [of s3 E] by (simp_all add: same_tables_def)
  show ?thesis
    using assms that
    by (auto simp: new_custom_event_def Let_def frame split: prod.splits sum.splits)
qed

lemma new_custom_event_reg_inv:
  assumes "new_custom_event E s = (r, s')" and "reg_inv s"
  shows "reg_inv s'"
proof -
  have prep: "reg_inv (handle (s1\<lparr>fresh := Suc (fresh s1), reg_event := y\<rparr>))"
    if "sys E CreateEventfd s = (x, s1)" for x s1 y
    using reg.quiet_sys_keeps [OF that _ assms(2)] reg.set_fresh by (auto intro!: handle_reg_inv)
  from assms(1) show ?thesis
  proof (cases rule: new_custom_event_cases)
    case no_eventfd
    then show ?thesis using assms(2) by (auto intro: reg.quiet_sys_keeps)
  next
    case (failed efd s1 e s3)
    then show ?thesis
      using prep by (auto intro!: drop_inner_reg_inv intro: register_fd_raw_reg_inv)
  next
    case (ok efd s1 a s3)
    then have "reg_inv (drop_inner E s3)" "fresh (drop_inner E s3) = fresh s3"
      using prep drop_inner_shape [of s3 E]
      by (auto intro!: drop_inner_reg_inv intro: register_fd_raw_reg_inv simp: same_tables_def)
    then show ?thesis
      using ok(4) reg.set_fresh [of "drop_inner E s3"] by simp
  qed
qed

lemma new_custom_event_ce_inv:
  assumes "new_custom_event E s = (r, s')" and "ce_inv s"
  shows "ce_inv s'"
proof -
  have pre: "ce_inv s1" "fresh s1 = fresh s" if "sys E CreateEventfd s = (x, s1)" for x s1
    using that assms(2) by (auto simp: sys_def Let_def)
  from assms(1) show ?thesis
  proof (cases rule: new_custom_event_cases)
    case no_eventfd
    then show ?thesis using pre by blast
  next
    case (failed efd s1 e s3)
    then show ?thesis
      using pre(1) [OF failed(1)] register_fd_raw_tables [OF failed(3)] drop_inner_shape [of s3 E]
      by (fastforce simp: ce_inv_def same_tables_def handle_def split: if_splits)
  next
    case (ok efd s1 a s3)
    let ?cell = "\<lparr>strong = 1, weak = 1, reg_fd = efd, epoll_data = a,
      reg_handler = CustomEventHandler (fresh s1)\<rparr>"
    have shape: "heap s' = (heap s1)(a \<mapsto> ?cell)" "fresh s1 < fresh s'"
      "reg_event s' = (reg_event s1)(fresh s1 := Some (fresh s3))"
      "dom (events s') = insert (fresh s3) (dom (events s1))"
      using ok(4) register_fd_raw_tables [OF ok(3)] drop_inner_shape [of s3 E]
      by (auto simp: same_tables_def handle_def)
    show ?thesis
      unfolding ce_inv_def
    proof (intro allI impI)
      fix b c rh
      assume b: "heap s' b = Some c" "reg_handler c = CustomEventHandler rh"
      show "rh < fresh s' \<and> (\<exists>p. reg_event s' rh = Some p \<and> p \<in> dom (events s'))"
      proof (cases "b = a")
        case True
        with b shape(1) have "rh = fresh s1" by auto
        then show ?thesis using shape by simp
      next
        case False
        then have "rh < fresh s1" "\<exists>p. reg_event s1 rh = Some p \<and> p \<in> dom (events s1)"
          using b pre(1) [OF ok(1)] by (auto simp: shape(1) ce_inv_def)
        then show ?thesis using shape by auto
      qed
    qed
  qed
qed

lemma new_custom_event_acct:
  assumes "new_custom_event E s = (r, s')" and "acct n s" "reg_inv s" "0 < n"
  shows "acct n s'"
proof -
  have prep: "acct (Suc n) (handle (s1\<lparr>fresh := Suc (fresh s1), reg_event := y\<rparr>)) \<and>
      reg_inv (handle (s1\<lparr>fresh := Suc (fresh s1), reg_event := y\<rparr>))"
    if "sys E CreateEventfd s = (x, s1)" for x s1 y
    using acct.quiet_sys_keeps [OF that _ assms(2)] reg.quiet_sys_keeps [OF that _ assms(3)] reg.set_fresh assms(4)
    by (auto intro!: handle_acct handle_reg_inv)
  from assms(1) show ?thesis
  proof (cases rule: new_custom_event_cases)
    case no_eventfd
    then show ?thesis using assms(2) by (auto intro: acct.quiet_sys_keeps)
  next
    case (failed efd s1 e s3)
    have "acct (Suc n) s3"
      using prep [OF failed(1)] failed(3) by (auto intro: register_fd_raw_acct)
    then show ?thesis using failed(4) by (simp add: drop_inner_acct)
  next
    case (ok efd s1 a s3)
    have "acct (Suc n) s3"
      using prep [OF ok(1)] ok(3) by (auto intro: register_fd_raw_acct)
    then show ?thesis using ok(4) by (simp add: drop_inner_acct)
  qed
qed

end
