(* ===== verification/EpollSteps.thy ===== *)
theory EpollSteps
  imports EpollRuns
begin

text \<open>
  The programs that can use an epoll instance: a step relation with one rule per operation of the
  interface in \<open>src/src/epoll/mod.rs\<close>, the states it reaches, and what holds in all of them.

  A state is the number \<open>n\<close> of \<open>Epoll\<close>s and \<open>Handle\<close>s the client holds, and the instance.  The rules
  ask for what the borrow checker asks for: a handle where the code takes \<open>&self\<close> of a handle, a
  registration that is not dropped where it takes \<open>&self\<close> of a registration.  The registration of a
  custom event is owned by the instance, so a client cannot drop it.  Operations happen one after
  the other; the last section has the schedule of two threads that breaks this.
\<close>

subsection \<open>Steps\<close>

definition usable :: "epoll \<Rightarrow> addr \<Rightarrow> (handler \<Rightarrow> bool) \<Rightarrow> bool" where
  "usable s a p \<longleftrightarrow> (case heap s a of None \<Rightarrow> False | Some c \<Rightarrow> 0 < strong c \<and> p (reg_handler c))"

fun is_custom :: "handler \<Rightarrow> bool" where
  "is_custom (CustomEventHandler _) = True"
| "is_custom _ = False"

fun is_other :: "handler \<Rightarrow> bool" where
  "is_other (OtherHandler _) = True"
| "is_other _ = False"

text \<open>The calls the sockets make on descriptors of their own.\<close>

fun socket_call :: "call \<Rightarrow> bool" where
  "socket_call (SetNonblocking _) = True"
| "socket_call (NewTcpSocket _) = True"
| "socket_call (BindTcp _) = True"
| "socket_call (BindUdp _) = True"
| "socket_call (Accept4 _) = True"
| "socket_call (ConnectTo _ _) = True"
| "socket_call (Recv _ _) = True"
| "socket_call (Send _ _) = True"
| "socket_call (RecvFromSock _ _) = True"
| "socket_call (SendToSock _ _ _) = True"
| "socket_call _ = False"

lemma socket_call_quiet: "socket_call c \<Longrightarrow> quiet c"
  by (cases c) auto

inductive epoll_step :: "env \<Rightarrow> nat \<times> epoll \<Rightarrow> nat \<times> epoll \<Rightarrow> bool" for E where
  Handle: "0 < n \<Longrightarrow> epoll_step E (n, s) (Suc n, handle s)"
| DropHandle: "epoll_step E (Suc n, s) (n, drop_inner E s)"
| RegisterFd: "0 < n \<Longrightarrow> register_fd_raw E fd m md (OtherHandler u) s = (r, s') \<Longrightarrow>
    epoll_step E (n, s) (n, s')"
| NewFutures: "0 < n \<Longrightarrow> FuturesRegistration_new E fd s = (r, s') \<Longrightarrow> epoll_step E (n, s) (n, s')"
| NewCustomEvent: "0 < n \<Longrightarrow> new_custom_event E s = (tag, s') \<Longrightarrow> epoll_step E (n, s) (n, s')"
| CloneRegistration: "usable s a (\<lambda>h. \<not> is_custom h) \<Longrightarrow> epoll_step E (n, s) (n, reg_clone a s)"
| DropRegistration: "usable s a (\<lambda>h. \<not> is_custom h) \<Longrightarrow>
    epoll_step E (n, s) (n, Registration_drop E a s)"
| Modify: "usable s a is_other \<Longrightarrow> modify E a m md s = (r2, s') \<Longrightarrow> epoll_step E (n, s) (n, s')"
| AddInterest: "usable s (fr_registration fr) (\<lambda>h. h = FuturesHandler (fr_inner fr)) \<Longrightarrow>
    add_interest E fr ev t s = (r3, s') \<Longrightarrow> epoll_step E (n, s) (n, s')"
| PollInterest: "FutureInterest_poll i t s = (r4, s') \<Longrightarrow> epoll_step E (n, s) (n, s')"
| RegisterInterest: "epoll_step E (n, s) (n, register i t s)"
| CloseDescriptor: "fd \<noteq> epfd s \<Longrightarrow>
    epoll_step E (n, s) (n, s\<lparr>trace := trace s @ [(CloseFd fd, ok)]\<rparr>)"
| SocketCall: "socket_call k \<Longrightarrow> epoll_step E (n, s) (n, s\<lparr>trace := trace s @ [(k, ok)]\<rparr>)"
| PostCustomEvent: "0 < n \<Longrightarrow> post_custom_event E tg d s = Val (r5, s') \<Longrightarrow>
    epoll_step E (n, s) (n, s')"
| Turn: "0 < n \<Longrightarrow> turn E chk self w s = Some (Val (r6, s')) \<Longrightarrow> epoll_step E (n, s) (n, s')"
| TurnInterruptible: "0 < n \<Longrightarrow> turn_interruptible E chk self w i s = Some (Val (r6, s')) \<Longrightarrow>
    epoll_step E (n, s) (n, s')"
| InterruptNew: "Interrupt_new s = (i, s') \<Longrightarrow> epoll_step E (n, s) (n, s')"
| InterruptCall: "interrupt E i s = (r7, s') \<Longrightarrow> epoll_step E (n, s) (n, s')"

inductive_cases epoll_stepE: "epoll_step E (n, s) (n', s')"

inductive epoll_reachable :: "env \<Rightarrow> nat \<times> epoll \<Rightarrow> bool" for E where
  Init: "Epoll_new E [] = Inr s \<Longrightarrow> epoll_reachable E (1, s)"
| Step: "epoll_reachable E p \<Longrightarrow> epoll_step E p q \<Longrightarrow> epoll_reachable E q"

lemma usable_ops:
  "usable s a p \<Longrightarrow> \<exists>c. heap s a = Some c \<and> 0 < strong c \<and> p (reg_handler c)"
  by (simp add: usable_def split: option.splits)

subsection \<open>Every step keeps the invariants\<close>

lemma close_reg_inv: "reg_inv s \<Longrightarrow> reg_inv (s\<lparr>trace := trace s @ [(CloseFd fd, ok)]\<rparr>)"
  by (rule reg_inv_close [of _ s fd]) simp_all

lemma step_reg_inv: "epoll_step E p q \<Longrightarrow> reg_inv (snd p) \<Longrightarrow> reg_inv (snd q)"
  by (induction rule: epoll_step.induct)
    (auto intro: reg_inv_ops close_reg_inv FuturesRegistration_new_ops(1) new_custom_event_reg_inv
       reg.add_interest_keeps reg.FutureInterest_poll_keeps reg.post_custom_event_keeps
       reg.loop.turn_keeps reg.loop.turn_interruptible_keeps reg.Interrupt_new_keeps
       reg.interrupt_keeps reg.quiet_call reg.register_keeps socket_call_quiet)

lemma step_ce_inv: "epoll_step E p q \<Longrightarrow> ce_inv (snd p) \<Longrightarrow> ce_inv (snd q)"
proof (induction rule: epoll_step.induct)
  case (Handle n s)
  then show ?case by (simp add: ce_inv_def handle_def)
next
  case (DropHandle n s)
  then show ?case by (simp add: ce_inv_def drop_inner_def sys_def Let_def)
next
  case (CloneRegistration s a n)
  then show ?case using ce.clone_keeps [of s a] by (auto dest!: usable_ops)
qed (auto intro: register_fd_raw_ce_inv FuturesRegistration_new_ops(2) new_custom_event_ce_inv
       Registration_drop_ce_inv modify_ce_inv ce.add_interest_keeps ce.FutureInterest_poll_keeps
       ce.post_custom_event_keeps ce.loop.turn_keeps ce.loop.turn_interruptible_keeps
       ce.Interrupt_new_keeps ce.interrupt_keeps ce.register_keeps simp: emit_def)

lemma step_acct:
  "epoll_step E p q \<Longrightarrow> acct (fst p) (snd p) \<Longrightarrow> reg_inv (snd p) \<Longrightarrow> acct (fst q) (snd q)"
proof (induction rule: epoll_step.induct)
  case (CloseDescriptor fd s n)
  then show ?case by (auto simp: acct_def emit_def closed_def)
qed (auto intro: handle_acct drop_inner_acct register_fd_raw_acct FuturesRegistration_new_ops(3)
       new_custom_event_acct Registration_drop_acct acct.clone_keeps modify_acct
       acct.add_interest_keeps
       acct.FutureInterest_poll_keeps acct.post_custom_event_keeps acct.loop.turn_keeps
       acct.loop.turn_interruptible_keeps acct.Interrupt_new_keeps acct.interrupt_keeps
       acct.quiet_call acct.register_keeps socket_call_quiet
     dest!: usable_ops)

lemma Epoll_new_ce_inv: "Epoll_new E [] = Inr s \<Longrightarrow> ce_inv s"
  by (auto simp: Epoll_new_def ce_inv_def split: sum.splits)

lemma Epoll_new_acct: "Epoll_new E [] = Inr s \<Longrightarrow> acct 1 s"
  by (auto simp: Epoll_new_def acct_def live_def closed_def failed_adds_def split: sum.splits)

lemma reachable_inv:
  "epoll_reachable E p \<Longrightarrow> reg_inv (snd p) \<and> ce_inv (snd p) \<and> acct (fst p) (snd p)"
proof (induction rule: epoll_reachable.induct)
  case (Init s)
  then show ?case
    using Epoll_new_reg_inv Epoll_new_ce_inv Epoll_new_acct by fastforce
next
  case (Step p q)
  then show ?case using step_reg_inv step_ce_inv step_acct by blast
qed

subsection \<open>Custom events keep the instance open\<close>

text \<open>
  Each boxed custom event owns a registration, and that registration an \<open>Arc\<close> of the instance that
  owns the box: neither is ever freed.
\<close>

definition ce_live :: "epoll \<Rightarrow> bool" where
  "ce_live s \<longleftrightarrow> (\<forall>p ce. events s p = Some ce \<longrightarrow>
     (\<exists>c. heap s (ce_registration ce) = Some c \<and> 0 < strong c \<and> is_custom (reg_handler c)))"

lemma ce_live_sub:
  assumes "ce_live s" and "events s' = events s"
    and "\<And>a c. heap s a = Some c \<Longrightarrow> 0 < strong c \<Longrightarrow> is_custom (reg_handler c) \<Longrightarrow>
      \<exists>c'. heap s' a = Some c' \<and> 0 < strong c' \<and> reg_handler c' = reg_handler c"
  shows "ce_live s'"
  using assms unfolding ce_live_def by metis

lemma ce_live_upd [simp]:
  "ce_live (s\<lparr>interests := x\<rparr>) = ce_live s" "ce_live (s\<lparr>fired := y\<rparr>) = ce_live s"
  "ce_live (s\<lparr>thread_id := z\<rparr>) = ce_live s" "ce_live (s\<lparr>sigusr2_installed := b\<rparr>) = ce_live s"
  "ce_live (s\<lparr>trace := t\<rparr>) = ce_live s" "ce_live (s\<lparr>fresh := f\<rparr>) = ce_live s"
  "ce_live (s\<lparr>inner_refs := k\<rparr>) = ce_live s"
  by (simp_all add: ce_live_def)

lemma modify_ce_live: "ce_live s \<Longrightarrow> modify E a m md s = (r, s') \<Longrightarrow> ce_live s'"
  by (drule modify_only_trace) (simp add: ce_live_def)

interpretation cel: turn_invariant E ce_live for E
proof
  fix s a c
  assume "ce_live s" "heap s a = Some c" "0 < strong c"
  then show "ce_live (reg_clone a s)"
    by (auto intro!: ce_live_sub [OF \<open>ce_live s\<close>] simp: reg_clone_def set_cell_def)
next
  fix s a c
  assume "ce_live s" "heap s a = Some c" "1 < strong c"
  then show "ce_live (Registration_drop E a s)"
    by (auto intro!: ce_live_sub [OF \<open>ce_live s\<close>] simp: Registration_drop_not_last set_cell_def)
qed (auto intro: modify_ce_live)

lemma drop_inner_ce_live: "ce_live s \<Longrightarrow> ce_live (drop_inner E s)"
  by (simp add: drop_inner_def sys_def Let_def)

lemma register_fd_raw_events:
  "register_fd_raw E fd m md h s = (r, s') \<Longrightarrow> reg_inv s \<Longrightarrow>
   events s' = events s \<and> (\<forall>a c. heap s a = Some c \<longrightarrow> heap s' a = Some c)"
  using reg_inv_fresh [of s] by (auto simp: register_fd_raw_def Let_def sys_def split: sum.splits)

lemma register_fd_raw_ce_live:
  "register_fd_raw E fd m md h s = (r, s') \<Longrightarrow> reg_inv s \<Longrightarrow> ce_live s \<Longrightarrow> ce_live s'"
  by (drule register_fd_raw_events) (auto intro: ce_live_sub)

lemma Registration_drop_heap:
  "heap (Registration_drop E a s) b = heap s b" if "b \<noteq> a"
  using that drop_inner_shape
  by (auto simp: Registration_drop_def Let_def sys_def set_cell_def split: option.splits sum.splits)

lemma Registration_drop_events: "events (Registration_drop E a s) = events s"
  using Registration_drop_tables [of s E a] by (simp add: same_tables_def)

lemma new_custom_event_spec:
  assumes "new_custom_event E s = (r, s')" and "reg_inv s" and "ce_live s"
  shows "ce_live s' \<and> epfd s' = epfd s \<and> dom (events s) \<subseteq> dom (events s') \<and>
    (\<forall>tag. r = Inr tag \<longrightarrow> tag_epoll_fd tag = epfd s' \<and> tag_ptr tag \<in> dom (events s'))"
proof -
  have prep: "reg_inv (handle (s1\<lparr>fresh := Suc (fresh s1), reg_event := y\<rparr>)) \<and>
      ce_live (handle (s1\<lparr>fresh := Suc (fresh s1), reg_event := y\<rparr>)) \<and> epfd s1 = epfd s \<and>
      events s1 = events s"
    if "sys E CreateEventfd s = (x, s1)" for x s1 y
  proof -
    have inv: "reg_inv s1" "ce_live s1"
      using reg.quiet_sys_keeps [OF that _ assms(2)] cel.quiet_sys_keeps [OF that _ assms(3)]
      by simp_all
    have "reg_inv (handle (s1\<lparr>fresh := Suc (fresh s1), reg_event := y\<rparr>))"
      using reg.set_fresh [OF inv(1)] by (intro handle_reg_inv) simp
    moreover have "ce_live (handle (s1\<lparr>fresh := Suc (fresh s1), reg_event := y\<rparr>))"
      using inv(2) by (simp add: handle_def ce_live_def)
    moreover have "epfd s1 = epfd s" "events s1 = events s"
      using that by (auto simp: sys_def Let_def)
    ultimately show ?thesis by blast
  qed
  from assms(1) show ?thesis
  proof (cases rule: new_custom_event_cases)
    case no_eventfd
    then show ?thesis using prep assms(3) by (auto intro: cel.quiet_sys_keeps)
  next
    case (failed efd s1 e s3)
    have "ce_live s3" "epfd s3 = epfd s" "events s3 = events s"
      using prep [OF failed(1)] failed(3) register_fd_raw_ce_live register_fd_raw_tables [OF failed(3)]
      by (auto simp: handle_def)
    then show ?thesis using failed drop_inner_ce_live drop_inner_shape [of s3 E]
      by (auto simp: same_tables_def)
  next
    case (ok efd s1 a s3)
    let ?s2 = "handle (s1\<lparr>fresh := fresh s1 + 1, reg_event := (reg_event s1)(fresh s1 := None)\<rparr>)"
    have s3: "ce_live s3" "epfd s3 = epfd s" "events s3 = events s"
      "heap s3 a = Some \<lparr>strong = 1, weak = 1, reg_fd = efd, epoll_data = a,
        reg_handler = CustomEventHandler (fresh s1)\<rparr>"
      using prep [OF ok(1)] ok(3) register_fd_raw_ce_live register_fd_raw_tables [OF ok(3)]
      by (auto simp: handle_def)
    have "heap s' = heap s3" "epfd s' = epfd s3"
      "events s' = (events s3)(fresh s3 \<mapsto> \<lparr>ce_event_fd = efd, ce_registration = a\<rparr>)"
      using ok(4) drop_inner_shape [of s3 E] by (auto simp: same_tables_def)
    with s3 ok(2) show ?thesis by (auto simp: ce_live_def)
  qed
qed

lemma FuturesRegistration_new_ce_live:
  assumes "FuturesRegistration_new E fd s = (r, s')" and "reg_inv s" and "ce_live s"
  shows "ce_live s' \<and> epfd s' = epfd s \<and> events s' = events s"
proof -
  define s1 where "s1 = s\<lparr>fresh := Suc (fresh s), interests := (interests s)(fresh s := [])\<rparr>"
  obtain r1 where new: "register_fd_raw E fd (bf_empty E) (bf_union E (EDGE E) (ONE_SHOT E))
      (FuturesHandler (fresh s)) s1 = (r1, s')"
    using assms(1) by (auto simp: FuturesRegistration_new_def s1_def Let_def split: prod.splits sum.splits)
  have "reg_inv s1" "ce_live s1"
    using reg.set_fresh [of s] assms by (simp_all add: s1_def)
  then show ?thesis
    using register_fd_raw_ce_live [OF new] register_fd_raw_tables [OF new] by (simp add: s1_def)
qed

text \<open>The descriptor of the instance does not change, and boxes stay.\<close>

definition issued :: "fd \<Rightarrow> addr set \<Rightarrow> epoll \<Rightarrow> bool" where
  "issued e A s \<longleftrightarrow> epfd s = e \<and> A \<subseteq> dom (events s)"

lemma issued_same: "issued e A s \<Longrightarrow> epfd s' = epfd s \<Longrightarrow> dom (events s) \<subseteq> dom (events s') \<Longrightarrow>
  issued e A s'"
  unfolding issued_def by (metis order_trans)

lemma same_tables_issued: "same_tables s s' \<Longrightarrow> issued e A s \<Longrightarrow> issued e A s'"
  by (simp add: same_tables_def issued_def)

lemma modify_issued: "issued e A s \<Longrightarrow> modify E a m md s = (r, s') \<Longrightarrow> issued e A s'"
  by (drule modify_shape) (blast dest: only_trace_frame intro: same_tables_issued)

interpretation iss: turn_invariant E "issued e A" for E e A
proof
  fix s a c
  assume "issued e A s" "heap s a = Some c"
  then show "issued e A (reg_clone a s)"
    by (simp add: reg_clone_def set_cell_def issued_def)
next
  fix s a c
  assume "issued e A s"
  then show "issued e A (Registration_drop E a s)"
    using Registration_drop_tables by (rule same_tables_issued [rotated])
qed (auto intro: modify_issued, auto simp: issued_def)

lemma step_issued:
  "epoll_step E p q \<Longrightarrow> reg_inv (snd p) \<Longrightarrow> ce_live (snd p) \<Longrightarrow> issued e A (snd p) \<Longrightarrow>
   issued e A (snd q)"
proof (induction rule: epoll_step.induct)
  case (Handle n s)
  then show ?case by (simp add: handle_def issued_def)
next
  case (DropHandle n s)
  then show ?case using drop_inner_shape [of s E] by (auto intro: same_tables_issued)
next
  case (RegisterFd n fd m md u s r s')
  then show ?case using register_fd_raw_tables by (auto simp: issued_def)
next
  case (NewFutures n fd s r s')
  then show ?case using FuturesRegistration_new_ce_live by (fastforce simp: issued_def)
next
  case (NewCustomEvent n s tag s')
  then show ?case using new_custom_event_spec by (fastforce simp: issued_def)
next
  case (CloneRegistration s a n)
  then show ?case by (simp add: reg_clone_def set_cell_def issued_def split: option.splits)
next
  case (DropRegistration s a n)
  then show ?case using Registration_drop_tables by (auto intro: same_tables_issued)
qed (auto intro: modify_issued iss.add_interest_keeps iss.FutureInterest_poll_keeps
       iss.post_custom_event_keeps iss.loop.turn_keeps iss.loop.turn_interruptible_keeps
       iss.Interrupt_new_keeps iss.interrupt_keeps iss.register_keeps simp: emit_def, simp_all add: issued_def)

lemma step_ce_live: "epoll_step E p q \<Longrightarrow> reg_inv (snd p) \<Longrightarrow> ce_live (snd p) \<Longrightarrow> ce_live (snd q)"
proof (induction rule: epoll_step.induct)
  case (Handle n s)
  then show ?case by (simp add: handle_def)
next
  case (CloneRegistration s a n)
  then show ?case using cel.clone_keeps [of s a] by (auto dest!: usable_ops)
next
  case (DropRegistration s a n)
  then show ?case
    by (auto intro!: ce_live_sub [of s] simp: Registration_drop_events dest!: usable_ops)
      (metis Registration_drop_heap option.inject)
qed (auto intro: drop_inner_ce_live register_fd_raw_ce_live FuturesRegistration_new_ce_live [THEN conjunct1]
       new_custom_event_spec [THEN conjunct1] modify_ce_live cel.add_interest_keeps
       cel.FutureInterest_poll_keeps
       cel.post_custom_event_keeps cel.loop.turn_keeps cel.loop.turn_interruptible_keeps
       cel.Interrupt_new_keeps cel.interrupt_keeps cel.register_keeps simp: emit_def)

lemma reachable_ce_live: "epoll_reachable E p \<Longrightarrow> ce_live (snd p)"
proof (induction rule: epoll_reachable.induct)
  case (Init s)
  then show ?case by (auto simp: Epoll_new_def ce_live_def split: sum.splits)
next
  case (Step p q)
  then show ?case using reachable_inv step_ce_live by blast
qed

lemma reachable_steps: "(epoll_step E)\<^sup>*\<^sup>* p q \<Longrightarrow> epoll_reachable E p \<Longrightarrow> epoll_reachable E q"
  by (induction rule: rtranclp_induct) (auto intro: epoll_reachable.Step)

lemma steps_issued:
  "(epoll_step E)\<^sup>*\<^sup>* p q \<Longrightarrow> epoll_reachable E p \<Longrightarrow> issued e A (snd p) \<Longrightarrow> issued e A (snd q)"
proof (induction rule: rtranclp_induct)
  case (step q r)
  then have "epoll_reachable E q" using reachable_steps by blast
  with step show ?case using reachable_inv reachable_ce_live step_issued by blast
qed simp

end
