(* ===== verification/InterestRuns.thy ===== *)
theory InterestRuns
  imports EpollSteps
begin

text \<open>
  Interests in every state the operations of an epoll instance reach (\<open>src/src/epoll/mod.rs\<close>): an
  interest is notified once, and a registration with waiting interests is armed in the kernel for all of
  them.  The invariants hold at the end of a turn; within the dispatch loop the second one excepts the
  registrations whose event is still to be handled, which the contract \<open>dispatch_invariant\<close> provides for.
\<close>

subsection \<open>Each interest is notified once\<close>

definition notifications :: "addr \<Rightarrow> trace \<Rightarrow> nat" where
  "notifications j tr = length (filter (\<lambda>c. fst c = TaskNotify j) tr)"

lemma notifications_append [simp]:
  "notifications j (tr @ tr') = notifications j tr + notifications j tr'"
  by (simp add: notifications_def)

lemma notifications_Nil [simp]: "notifications j [] = 0"
  by (simp add: notifications_def)

lemma notifications_Cons [simp]:
  "notifications j (c # tr) = (if fst c = TaskNotify j then 1 else 0) + notifications j tr"
  by (simp add: notifications_def)

lemma notifications_notified:
  "distinct js \<Longrightarrow> notifications j (notified js) = (if j \<in> set js then 1 else 0)"
  by (induction js) (auto simp: notifications_def notified_def)

text \<open>
  The vectors hold each waiting interest once, and no interest that has fired; a fired interest has been
  notified once, any other never.
\<close>

definition waiting :: "epoll \<Rightarrow> addr \<Rightarrow> addr set" where
  "waiting s h = snd ` set (interests s h)"

definition once_inv :: "epoll \<Rightarrow> bool" where
  "once_inv s \<longleftrightarrow>
     (\<forall>h. distinct (map snd (interests s h))) \<and>
     (\<forall>h j. j \<in> waiting s h \<longrightarrow> j < fresh s \<and> \<not> fired s j) \<and>
     (\<forall>h h' j. j \<in> waiting s h \<longrightarrow> j \<in> waiting s h' \<longrightarrow> h = h') \<and>
     (\<forall>j. fired s j \<longrightarrow> j < fresh s) \<and>
     (\<forall>j. notifications j (trace s) = (if fired s j then 1 else 0))"

lemma once_invI:
  assumes "\<And>h. distinct (map snd (interests s h))"
    and "\<And>h j. j \<in> waiting s h \<Longrightarrow> j < fresh s \<and> \<not> fired s j"
    and "\<And>h h' j. j \<in> waiting s h \<Longrightarrow> j \<in> waiting s h' \<Longrightarrow> h = h'"
    and "\<And>j. fired s j \<Longrightarrow> j < fresh s"
    and "\<And>j. notifications j (trace s) = (if fired s j then 1 else 0)"
  shows "once_inv s"
  using assms unfolding once_inv_def by blast

lemma once_invD:
  assumes "once_inv s"
  shows "distinct (map snd (interests s h))"
    and "j \<in> waiting s h \<Longrightarrow> j < fresh s \<and> \<not> fired s j"
    and "j \<in> waiting s h \<Longrightarrow> j \<in> waiting s h' \<Longrightarrow> h = h'"
    and "fired s j \<Longrightarrow> j < fresh s"
    and "notifications j (trace s) = (if fired s j then 1 else 0)"
  using assms unfolding once_inv_def by blast+

lemma once_inv_cong:
  assumes "once_inv s" and "interests s' = interests s" and "fired s' = fired s"
    and "fresh s \<le> fresh s'" and "\<And>j. notifications j (trace s') = notifications j (trace s)"
  shows "once_inv s'"
proof -
  note D = once_invD [OF assms(1)]
  have w: "waiting s' h = waiting s h" for h using assms(2) by (simp add: waiting_def)
  show ?thesis
  proof (rule once_invI)
    show "j < fresh s' \<and> \<not> fired s' j" if "j \<in> waiting s' h" for h j
      using D(2) [of j h] that assms(3,4) w by simp
    show "j < fresh s'" if "fired s' j" for j
      using D(4) [of j] that assms(3,4) by simp
    show "h = h'" if "j \<in> waiting s' h" "j \<in> waiting s' h'" for h h' j
      using D(3) that unfolding w .
  qed (simp_all add: D assms)
qed

lemma modify_notifications:
  "modify E a m md s = (r, s') \<Longrightarrow> notifications j (trace s') = notifications j (trace s) \<and>
   interests s' = interests s \<and> fired s' = fired s \<and> fresh s' = fresh s"
  by (auto simp: modify_def sys_def Let_def split: option.splits sum.splits)

lemma drop_inner_quiet:
  "notifications j (trace (drop_inner E s)) = notifications j (trace s) \<and>
   interests (drop_inner E s) = interests s \<and> fired (drop_inner E s) = fired s \<and>
   fresh (drop_inner E s) = fresh s"
  by (auto simp: drop_inner_def sys_def Let_def)

lemma Registration_drop_quiet:
  "notifications j (trace (Registration_drop E a s)) = notifications j (trace s) \<and>
   interests (Registration_drop E a s) = interests s \<and> fired (Registration_drop E a s) = fired s \<and>
   fresh (Registration_drop E a s) = fresh s"
  by (auto simp: Registration_drop_def sys_def Let_def set_cell_def drop_inner_def
      split: option.splits sum.splits)

lemma reg_clone_quiet:
  "notifications j (trace (reg_clone a s)) = notifications j (trace s) \<and>
   interests (reg_clone a s) = interests s \<and> fired (reg_clone a s) = fired s \<and>
   fresh (reg_clone a s) = fresh s"
  by (auto simp: reg_clone_def set_cell_def split: option.splits)

text \<open>What an event does to the vector: the interests it hits leave, fired and notified.\<close>

lemma Futures_handle_event_ValE:
  assumes "Futures_handle_event E h a ev s = Val s'"
  obtains ys js rem where "mset ys = mset (keeps E ev (interests s h))"
    "mset js = mset (map snd (fires E ev (interests s h)))"
    "interests s' = (interests s)(h := ys)" "fired s' = (\<lambda>j. fired s j \<or> j \<in> set js)"
    "fresh s' = fresh s" "heap s' = heap s" "epfd s' = epfd s"
    "fire_loop E ev (interests s h) 0 None s = (ys, rem,
       s\<lparr>fired := (\<lambda>j. fired s j \<or> j \<in> set js), trace := trace s @ notified js\<rparr>)"
    "case rem of None \<Rightarrow> trace s' = trace s @ notified js
     | Some r \<Rightarrow> heap s a = None \<and> trace s' = trace s @ notified js \<or>
        (\<exists>c. heap s a = Some c \<and> trace s' = trace s @ notified js @
           [(EpollCtl (epfd s) EPOLL_CTL_MOD (reg_fd c)
               (Some (r OR bf_union E (EDGE E) (ONE_SHOT E), epoll_data c)), True)])"
proof -
  obtain ys rem s1 where loop: "fire_loop E ev (interests s h) 0 None s = (ys, rem, s1)"
    by (cases "fire_loop E ev (interests s h) 0 None s")
  obtain js where js: "mset js = mset (map snd (fires E ev (interests s h)))"
    and s1: "s1 = s\<lparr>fired := (\<lambda>j. fired s j \<or> j \<in> set js), trace := trace s @ notified js\<rparr>"
    and ys: "mset ys = mset (keeps E ev (interests s h))"
    using fire_loop_spec [OF loop] by auto
  show thesis
  proof (cases rem)
    case None
    with assms loop s1 have "s' = s1\<lparr>interests := (interests s1)(h := ys)\<rparr>"
      by (simp add: Futures_handle_event_def)
    with None s1 loop show thesis by (intro that [OF ys js]) auto
  next
    case (Some r)
    with assms loop s1 show thesis
      by (intro that [OF ys js])
        (auto simp: Futures_handle_event_def modify_def sys_def Let_def
          split: option.splits sum.splits prod.splits)
  qed
qed

lemma keeps_fires_split: "mset (keeps E ev xs) + mset (fires E ev xs) = mset xs"
  by (induction xs) (auto simp: keeps_def fires_def)

lemma Futures_handle_event_once:
  assumes "Futures_handle_event E h a ev s = Val s'" and "once_inv s"
  shows "once_inv s'"
  using assms(1)
proof (cases rule: Futures_handle_event_ValE)
  case (1 ys js rem)
  let ?xs = "interests s h"
  note D = once_invD [OF assms(2)]
  have "mset (map snd ys) + mset js = mset (map snd ?xs)"
    using 1(1,2) keeps_fires_split [of E ev ?xs] by (metis image_mset_union mset_map)
  moreover have "distinct (map snd ?xs)" using assms(2) by (simp add: once_inv_def)
  ultimately have split: "distinct (map snd ys @ js)" "set (map snd ys @ js) = waiting s h"
    by (metis mset_append mset_eq_imp_distinct_iff, metis mset_append mset_eq_setD waiting_def list.set_map)
  have notif: "notifications j (trace s') = notifications j (trace s) + (if j \<in> set js then 1 else 0)" for j
    using 1(9) split(1) by (auto simp: notifications_notified split: option.splits)
  have wait: "waiting s' h = snd ` set ys" "\<And>h'. h' \<noteq> h \<Longrightarrow> waiting s' h' = waiting s h'"
    using 1(3) by (simp_all add: waiting_def)
  have sub: "waiting s' h' \<subseteq> waiting s h'" for h'
    using wait split(2) by (cases "h' = h") auto
  have gone: "j \<notin> set js" if "j \<in> waiting s' h'" for h' j
  proof (cases "h' = h")
    case True
    then show ?thesis using that split wait by auto
  next
    case False
    then have "j \<in> waiting s h'" using that wait by simp
    moreover have "j \<in> set js \<Longrightarrow> j \<in> waiting s h" using split(2) by auto
    ultimately show ?thesis using False D(3) by blast
  qed
  show ?thesis
  proof (rule once_invI)
    show "distinct (map snd (interests s' h'))" for h'
      using D(1) [of h'] split(1) 1(3) by simp
    show "j < fresh s' \<and> \<not> fired s' j" if "j \<in> waiting s' h'" for h' j
      using D(2) [of j h'] that sub [of h'] gone [OF that] 1(4,5) by auto
    show "h1 = h2" if "j \<in> waiting s' h1" "j \<in> waiting s' h2" for h1 h2 j
      using that sub D(3) by blast
    show "j < fresh s'" if "fired s' j" for j
      using that D(2) [of j h] D(4) [of j] split(2) 1(4,5) by auto
    show "notifications j (trace s') = (if fired s' j then 1 else 0)" for j
      using D(5) [of j] D(2) [of j h] split(2) notif [of j] 1(4) by auto
  qed
qed

lemma notifications_benign: "benign k \<Longrightarrow> k \<noteq> TaskNotify j"
  by (cases k) auto

lemma once_inv_upd [simp]:
  "once_inv (s\<lparr>thread_id := z\<rparr>) = once_inv s" "once_inv (s\<lparr>sigusr2_installed := b\<rparr>) = once_inv s"
  "once_inv (s\<lparr>heap := hp\<rparr>) = once_inv s" "once_inv (s\<lparr>inner_refs := k\<rparr>) = once_inv s"
  "once_inv (s\<lparr>reg_event := e\<rparr>) = once_inv s" "once_inv (s\<lparr>events := v\<rparr>) = once_inv s"
  "once_inv (s\<lparr>custom_events := w\<rparr>) = once_inv s"
  by (simp_all add: once_inv_def waiting_def)

lemma once_inv_call:
  assumes "once_inv s" and "\<And>j. k \<noteq> TaskNotify j"
  shows "once_inv (s\<lparr>trace := trace s @ [(k, ok)]\<rparr>)"
  using assms by (intro once_inv_cong [OF assms(1)]) auto

lemma modify_once: "modify E a m md s = (r, s') \<Longrightarrow> once_inv s \<Longrightarrow> once_inv s'"
  by (frule modify_notifications) (auto intro: once_inv_cong simp: modify_notifications)

lemma reg_clone_once: "once_inv s \<Longrightarrow> once_inv (reg_clone a s)"
  by (rule once_inv_cong [of s]) (simp_all add: reg_clone_quiet)

lemma Registration_drop_once: "once_inv s \<Longrightarrow> once_inv (Registration_drop E a s)"
  by (rule once_inv_cong [of s]) (simp_all add: Registration_drop_quiet)

lemma drop_inner_once: "once_inv s \<Longrightarrow> once_inv (drop_inner E s)"
  by (rule once_inv_cong [of s]) (simp_all add: drop_inner_quiet)

interpretation once: dispatch_invariant E "\<lambda>_. once_inv" for E
proof
  fix s k ok
  assume "once_inv s" "benign k"
  then show "once_inv (s\<lparr>trace := trace s @ [(k, ok)]\<rparr>)"
    using notifications_benign by (intro once_inv_call)
next
  fix s a ev
  assume "once_inv s"
  then show "once_inv (s\<lparr>trace := trace s @ [(EventReturned ev a, True)]\<rparr>)"
    by (intro once_inv_call) simp_all
next
  fix s a c h ev s'
  assume "once_inv s" "Futures_handle_event E h a ev s = Val s'"
  then show "once_inv s'" by (blast intro: Futures_handle_event_once)
next
  fix s k ok
  assume o: "once_inv s" and k: "plain k"
  show "once_inv (s\<lparr>trace := trace s @ [(k, ok)]\<rparr>)"
    using o notifications_benign [OF plain_benign [OF k]] by (rule once_inv_call)
qed (auto simp: reg_clone_once Registration_drop_once elim: modify_once)

text \<open>The other operations.\<close>

lemma register_fd_raw_once:
  "register_fd_raw E fd m md h s = (r, s') \<Longrightarrow> once_inv s \<Longrightarrow> once_inv s'"
  by (rule once_inv_cong [of s])
    (auto simp: register_fd_raw_def Let_def sys_def split: sum.splits)

lemma once_inv_new:
  assumes "once_inv s"
  shows "once_inv (s\<lparr>fresh := Suc (fresh s), interests := (interests s)(fresh s := [])\<rparr>)"
  (is "once_inv ?s")
proof (rule once_invI)
  note D = once_invD [OF assms]
  have w: "waiting ?s h = (if h = fresh s then {} else waiting s h)" for h
    by (simp add: waiting_def)
  show "distinct (map snd (interests ?s h))" for h using D(1) by simp
  show "j < fresh ?s \<and> \<not> fired ?s j" if "j \<in> waiting ?s h" for h j
    using that D(2) [of j h] by (simp add: w split: if_splits)
  show "h = h'" if "j \<in> waiting ?s h" "j \<in> waiting ?s h'" for h h' j
    using that D(3) [of j h h'] by (simp add: w split: if_splits)
  show "j < fresh ?s" if "fired ?s j" for j using that D(4) [of j] by simp
  show "notifications j (trace ?s) = (if fired ?s j then 1 else 0)" for j using D(5) by simp
qed

lemma FuturesRegistration_new_once:
  assumes "FuturesRegistration_new E fd s = (r, s')" and "once_inv s"
  shows "once_inv s'"
proof -
  define s1 where "s1 = s\<lparr>fresh := Suc (fresh s), interests := (interests s)(fresh s := [])\<rparr>"
  obtain r1 where "register_fd_raw E fd (bf_empty E) (bf_union E (EDGE E) (ONE_SHOT E))
      (FuturesHandler (fresh s)) s1 = (r1, s')"
    using assms(1) by (auto simp: FuturesRegistration_new_def s1_def Let_def split: prod.splits sum.splits)
  then show ?thesis
    using once_inv_new [OF assms(2)] by (simp add: s1_def register_fd_raw_once)
qed

lemma new_custom_event_once:
  assumes "new_custom_event E s = (r, s')" and "once_inv s"
  shows "once_inv s'"
proof -
  have prep: "once_inv (handle (s1\<lparr>fresh := Suc (fresh s1), reg_event := y\<rparr>))"
    if "sys E CreateEventfd s = (x, s1)" for x s1 y
    using that by (intro once_inv_cong [OF assms(2)]) (auto simp: handle_def sys_def Let_def)
  from assms(1) show ?thesis
  proof (cases rule: new_custom_event_cases)
    case no_eventfd
    then show ?thesis using assms(2) once.sys_keeps by auto
  next
    case (failed efd s1 e s3)
    then show ?thesis using prep by (auto intro!: drop_inner_once intro: register_fd_raw_once)
  next
    case (ok efd s1 a s3)
    then have "once_inv (drop_inner E s3)"
      using prep by (auto intro!: drop_inner_once intro: register_fd_raw_once)
    then show ?thesis
      using ok(4) drop_inner_quiet [of _ E s3]
      by (intro once_inv_cong [of "drop_inner E s3" s']) simp_all
  qed
qed

lemma add_interest_once:
  assumes "add_interest E fr ev t s = (r, s')" and "once_inv s"
  shows "once_inv s'"
proof -
  define h where "h = fr_inner fr"
  define s2 where "s2 = (register (fresh s) t (s\<lparr>fresh := fresh s + 1, fired := (fired s)(fresh s := False)\<rparr>))
    \<lparr>interests := (interests s)(h := interests s h @ [(ev, fresh s)])\<rparr>"
  note D = once_invD [OF assms(2)]
  have fresh: "\<not> fired s (fresh s)" "fresh s \<notin> waiting s h'" for h'
    using D(2,4) by blast+
  have w: "waiting s2 h' = (if h' = h then insert (fresh s) (waiting s h) else waiting s h')" for h'
    by (auto simp: s2_def waiting_def)
  have s2: "fresh s2 = Suc (fresh s)" "fired s2 = fired s"
    "notifications j (trace s2) = notifications j (trace s)" for j
    using fresh(1) by (simp_all add: s2_def register_def emit_def fun_upd_idem)
  have "once_inv s2"
  proof (rule once_invI)
    show "distinct (map snd (interests s2 h'))" for h'
      using D(1) fresh(2) [of h] by (auto simp: s2_def waiting_def)
    show "j < fresh s2 \<and> \<not> fired s2 j" if "j \<in> waiting s2 h'" for h' j
      using that D(2) [of j h'] D(2) [of j h] fresh by (auto simp: s2 w split: if_splits)
    show "h1 = h2" if "j \<in> waiting s2 h1" "j \<in> waiting s2 h2" for h1 h2 j
      using that D(3) [of j h1 h2] fresh(2) by (auto simp: w split: if_splits)
    show "j < fresh s2" if "fired s2 j" for j using that D(4) [of j] by (simp add: s2)
    show "notifications j (trace s2) = (if fired s2 j then 1 else 0)" for j
      using D(5) by (simp add: s2)
  qed
  moreover have "s' = s2 \<or> (\<exists>m md r'. modify E (fr_registration fr) m md s2 = (r', s'))"
    using assms(1) by (auto simp: add_interest_def Let_def s2_def h_def register_def emit_def
        split: if_splits prod.splits sum.splits)
  ultimately show ?thesis by (auto elim: modify_once)
qed

lemma once_inv_emit: "once_inv s \<Longrightarrow> (\<And>j. k \<noteq> TaskNotify j) \<Longrightarrow> once_inv (emit k s)"
  by (simp add: emit_def once_inv_call)

lemma socket_call_notify: "socket_call k \<Longrightarrow> k \<noteq> TaskNotify j"
  by (cases k) auto

lemma step_once: "epoll_step E p q \<Longrightarrow> once_inv (snd p) \<Longrightarrow> once_inv (snd q)"
proof (induction rule: epoll_step.induct)
  case (Handle n s)
  then show ?case by (auto intro: once_inv_cong simp: handle_def)
next
  case (PollInterest i t s r4 s' n)
  then show ?case
    by (auto simp: FutureInterest_poll_def register_def intro: once_inv_emit split: if_splits)
next
  case (PostCustomEvent n tg d s r5 s')
  then show ?case
    by (intro once_inv_cong [OF PostCustomEvent(3)])
      (auto simp: post_custom_event_def sys_def Let_def emit_def split: if_splits option.splits sum.splits)
next
  case (InterruptNew s i s' n)
  then show ?case by (auto simp: Interrupt_new_def intro: once_inv_cong)
next
  case (InterruptCall i s r7 s' n)
  then show ?case
    by (auto simp: interrupt_def sys_def Let_def split: if_splits sum.splits intro: once_inv_call)
next
  case (SocketCall k n s ok)
  then show ?case using socket_call_notify by (auto intro: once_inv_call)
qed (auto intro: drop_inner_once register_fd_raw_once FuturesRegistration_new_once new_custom_event_once
    reg_clone_once Registration_drop_once modify_once add_interest_once once_inv_call
    once.turn_keeps once.turn_interruptible_keeps once_inv_emit simp: register_def)

lemma reachable_once: "epoll_reachable E p \<Longrightarrow> once_inv (snd p)"
proof (induction rule: epoll_reachable.induct)
  case (Init s)
  then show ?case
    by (auto simp: Epoll_new_def once_inv_def waiting_def split: sum.splits)
next
  case (Step p q)
  then show ?case using step_once by blast
qed

subsection \<open>A registration with waiting interests is armed\<close>

text \<open>
  As long as no \<open>EPOLL_CTL_MOD\<close> has failed, the kernel watches each registration for everything its
  interests wait for; \<open>P\<close> are the registrations whose event is still to be handled.
\<close>

fun failed_mod :: "call \<times> bool \<Rightarrow> bool" where
  "failed_mod (EpollCtl _ EPOLL_CTL_MOD _ _, ok) = (\<not> ok)"
| "failed_mod _ = False"

definition no_failed_mod :: "trace \<Rightarrow> bool" where
  "no_failed_mod tr \<longleftrightarrow> (\<forall>c \<in> set tr. \<not> failed_mod c)"

lemma no_failed_mod_append [simp]:
  "no_failed_mod (tr @ tr') \<longleftrightarrow> no_failed_mod tr \<and> no_failed_mod tr'"
  by (auto simp: no_failed_mod_def)

lemma no_failed_mod_Cons [simp]: "no_failed_mod (c # tr) \<longleftrightarrow> \<not> failed_mod c \<and> no_failed_mod tr"
  by (simp add: no_failed_mod_def)

lemma no_failed_mod_Nil [simp]: "no_failed_mod []"
  by (simp add: no_failed_mod_def)

lemma asked_append: "asked a (tr @ tr') = fold (asked_step a) tr' (asked a tr)"
  by (simp add: asked_def)

definition listens :: "epoll \<Rightarrow> addr \<Rightarrow> addr \<Rightarrow> bool" where
  "listens s a h \<longleftrightarrow> (\<exists>c. heap s a = Some c \<and> 0 < strong c \<and> reg_handler c = FuturesHandler h)"

definition arm_mask :: "env \<Rightarrow> epoll \<Rightarrow> addr \<Rightarrow> u32" where
  "arm_mask E s h = mask_of (interests s h) OR (EDGE E OR ONE_SHOT E)"

definition arm_inv :: "env \<Rightarrow> addr set \<Rightarrow> epoll \<Rightarrow> bool" where
  "arm_inv E P s \<longleftrightarrow> reg_inv s \<and>
     (\<forall>a h. listens s a h \<longrightarrow> h < a) \<and>
     (\<forall>a a' h. listens s a h \<longrightarrow> listens s a' h \<longrightarrow> a = a') \<and>
     (no_failed_mod (trace s) \<longrightarrow>
        (\<forall>a h. listens s a h \<longrightarrow> a \<notin> P \<longrightarrow> mask_of (interests s h) \<noteq> 0 \<longrightarrow>
           asked a (trace s) = Some (arm_mask E s h)))"

lemma arm_invI:
  assumes "reg_inv s" and "\<And>a h. listens s a h \<Longrightarrow> h < a"
    and "\<And>a a' h. listens s a h \<Longrightarrow> listens s a' h \<Longrightarrow> a = a'"
    and "\<And>a h. no_failed_mod (trace s) \<Longrightarrow> listens s a h \<Longrightarrow> a \<notin> P \<Longrightarrow> mask_of (interests s h) \<noteq> 0 \<Longrightarrow>
      asked a (trace s) = Some (arm_mask E s h)"
  shows "arm_inv E P s"
  using assms unfolding arm_inv_def by blast

lemma arm_invD:
  assumes "arm_inv E P s"
  shows "reg_inv s" and "listens s a h \<Longrightarrow> h < a"
    and "listens s a h \<Longrightarrow> listens s a' h \<Longrightarrow> a = a'"
    and "no_failed_mod (trace s) \<Longrightarrow> listens s a h \<Longrightarrow> a \<notin> P \<Longrightarrow> mask_of (interests s h) \<noteq> 0 \<Longrightarrow>
      asked a (trace s) = Some (arm_mask E s h)"
  using assms unfolding arm_inv_def by blast+

text \<open>A change that arms and disarms nothing and takes on no listener.\<close>

lemma arm_inv_sub:
  assumes "arm_inv E P s" and "reg_inv s'"
    and "\<And>a h. listens s' a h \<Longrightarrow> listens s a h"
    and "\<And>a h. listens s' a h \<Longrightarrow> interests s' h = interests s h"
    and "no_failed_mod (trace s') \<Longrightarrow> no_failed_mod (trace s)"
    and "\<And>a h. listens s' a h \<Longrightarrow> asked a (trace s') = asked a (trace s)"
  shows "arm_inv E P s'"
proof (rule arm_invI [OF assms(2)])
  note D = arm_invD [OF assms(1)]
  show "h < a" if "listens s' a h" for a h using that assms(3) D(2) by blast
  show "a = a'" if "listens s' a h" "listens s' a' h" for a a' h using that assms(3) D(3) by blast
  show "asked a (trace s') = Some (arm_mask E s' h)"
    if "no_failed_mod (trace s')" "listens s' a h" "a \<notin> P" "mask_of (interests s' h) \<noteq> 0" for a h
    using that assms(3-6) D(4) [of a h] by (simp add: arm_mask_def)
qed

lemma listens_live: "reg_inv s \<Longrightarrow> listens s a h \<Longrightarrow> a < fresh s"
  by (auto simp: listens_def reg_inv_def)

lemma asked_benign: "benign k \<Longrightarrow> asked_step a (k, ok) m = m \<and> \<not> failed_mod (k, ok)"
  by (cases k) auto

lemma arm_inv_benign:
  assumes "arm_inv E P s" and "benign k"
  shows "arm_inv E P (s\<lparr>trace := trace s @ [(k, ok)]\<rparr>)"
proof (rule arm_inv_sub [OF assms(1)])
  show "reg_inv (s\<lparr>trace := trace s @ [(k, ok)]\<rparr>)"
    using assms by (auto intro!: reg.quiet_call [OF arm_invD(1)] benign_quiet)
qed (use assms(2) in \<open>auto simp: listens_def dest: asked_benign\<close>)

lemma asked_notified: "asked a (tr @ notified js @ tr') = fold (asked_step a) tr' (asked a tr)"
proof -
  have "fold (asked_step a) (notified js) m = m" for m
    by (induction js) (simp_all add: notified_def)
  then show ?thesis by (simp add: asked_append)
qed

lemma no_failed_notified [simp]: "no_failed_mod (notified js)"
  by (induction js) (simp_all add: notified_def)

lemma Futures_handle_event_arm:
  assumes "Futures_handle_event E h a ev s = Val s'" and "arm_inv E P s" and "flags_ok E"
    and "listens s a h"
  shows "arm_inv E (P - {a}) s'"
  using assms(1)
proof (cases rule: Futures_handle_event_ValE)
  case (1 ys js rem)
  note D = arm_invD [OF assms(2)]
  obtain c where c: "heap s a = Some c" "epoll_data c = a"
    using assms(4) D(1) by (auto simp: listens_def reg_inv_def)
  have rem: "rem = (if ys = [] then None else Some (mask_of ys))"
    using fire_loop_mask [OF 1(8) assms(3)] by simp
  define tr where "tr = (if ys = [] then [] else [(EpollCtl (epfd s) EPOLL_CTL_MOD (reg_fd c)
    (Some (mask_of ys OR (EDGE E OR ONE_SHOT E), a)), True)])"
  have tr: "trace s' = trace s @ notified js @ tr"
    using 1(9) rem c by (auto simp: tr_def flags_okD [OF assms(3)])
  have lis: "listens s' b k \<longleftrightarrow> listens s b k" for b k
    using 1(6) by (simp add: listens_def)
  show ?thesis
  proof (rule arm_invI)
    show "reg_inv s'"
      using D(1) assms(1) by (blast intro: reg.Futures_handle_event_keeps)
    show "k < b" if "listens s' b k" for b k using that D(2) lis by blast
    show "b = b'" if "listens s' b k" "listens s' b' k" for b b' k using that D(3) lis by blast
    show "asked b (trace s') = Some (arm_mask E s' k)"
      if b: "no_failed_mod (trace s')" "listens s' b k" "b \<notin> P - {a}" "mask_of (interests s' k) \<noteq> 0" for b k
    proof (cases "b = a")
      case True
      then have "k = h" using b(2) lis assms(4) by (auto simp: listens_def)
      then show ?thesis
        using b(4) True 1(3) tr by (auto simp: tr_def asked_notified arm_mask_def)
    next
      case False
      then have "k \<noteq> h" using b(2) lis D(3) assms(4) by blast
      then have "asked b (trace s) = Some (arm_mask E s k)"
        using b False tr lis 1(3) by (intro D(4)) auto
      moreover have "asked b (trace s') = asked b (trace s)"
        using False by (simp add: tr asked_notified tr_def)
      ultimately show ?thesis using \<open>k \<noteq> h\<close> 1(3) by (simp add: arm_mask_def)
    qed
  qed
qed

lemma modify_arm:
  assumes "modify E a m md s = (r, s')" and "arm_inv E P s" and "\<And>h. \<not> listens s a h"
  shows "arm_inv E P s'"
proof (rule arm_inv_sub [OF assms(2)])
  have frame: "heap s' = heap s" "interests s' = interests s"
    using modify_only_trace [OF assms(1)] modify_notifications [OF assms(1)] by simp_all
  show "reg_inv s'" using modify_reg_inv [OF arm_invD(1) [OF assms(2)] assms(1)] .
  show "listens s b h" "interests s' h = interests s h" if "listens s' b h" for b h
    using that frame by (simp_all add: listens_def)
  show "no_failed_mod (trace s)" if "no_failed_mod (trace s')"
    using that assms(1) by (auto simp: modify_def sys_def Let_def split: option.splits sum.splits)
  show "asked b (trace s') = asked b (trace s)" if "listens s' b h" for b h
  proof -
    have "b \<noteq> a" using that assms(3) [of h] frame by (auto simp: listens_def)
    then show ?thesis
      using assms(1) arm_invD(1) [OF assms(2)]
      by (auto simp: modify_def sys_def Let_def reg_inv_def split: option.splits sum.splits)
  qed
qed

lemma arm_inv_upd [simp]:
  "arm_inv E P (s\<lparr>thread_id := z\<rparr>) = arm_inv E P s"
  "arm_inv E P (s\<lparr>sigusr2_installed := b\<rparr>) = arm_inv E P s"
  by (simp_all add: arm_inv_def listens_def arm_mask_def)

lemma arm_inv_cell:
  assumes "arm_inv E P s" and "reg_inv s'" and "interests s' = interests s" and "trace s' = trace s"
    and "\<And>a h. listens s' a h \<Longrightarrow> listens s a h"
  shows "arm_inv E P s'"
  using assms by (intro arm_inv_sub [OF assms(1,2)]) simp_all

lemma reg_clone_arm:
  assumes "arm_inv E P s" and "heap s a = Some c" and "0 < strong c"
  shows "arm_inv E P (reg_clone a s)"
proof (rule arm_inv_cell [OF assms(1)])
  show "reg_inv (reg_clone a s)" using reg_clone_reg_inv [OF arm_invD(1) [OF assms(1)]] .
qed (use assms(2,3) in \<open>auto simp: reg_clone_def set_cell_def listens_def split: if_splits\<close>)

lemma Registration_drop_arm:
  assumes "arm_inv E P s"
  shows "arm_inv E P (Registration_drop E a s)"
proof (rule arm_inv_sub [OF assms])
  show "reg_inv (Registration_drop E a s)"
    using Registration_drop_reg_inv [OF arm_invD(1) [OF assms]] .
  show "listens s b h" if "listens (Registration_drop E a s) b h" for b h
    using that by (auto simp: listens_def Registration_drop_def Let_def sys_def set_cell_def drop_inner_def
        split: option.splits sum.splits if_splits)
  show "asked b (trace (Registration_drop E a s)) = asked b (trace s)" for b
    by (auto simp: Registration_drop_def Let_def sys_def set_cell_def drop_inner_def asked_append
        split: option.splits sum.splits)
  show "no_failed_mod (trace s)" if "no_failed_mod (trace (Registration_drop E a s))"
    using that by (auto simp: Registration_drop_def Let_def sys_def set_cell_def drop_inner_def
        split: option.splits sum.splits if_splits)
qed (simp add: Registration_drop_quiet)

lemma arm_inv_returned:
  assumes "arm_inv E P s"
  shows "arm_inv E (insert a P) (s\<lparr>trace := trace s @ [(EventReturned ev a, True)]\<rparr>)"
proof (rule arm_invI)
  note D = arm_invD [OF assms]
  let ?s = "s\<lparr>trace := trace s @ [(EventReturned ev a, True)]\<rparr>"
  have lis: "listens ?s b h = listens s b h" for b h by (simp add: listens_def)
  show "reg_inv ?s" using D(1) by (intro reg.quiet_call) simp_all
  show "h < b" if "listens ?s b h" for b h using that D(2) [of b h] by (simp add: lis)
  show "b = b'" if "listens ?s b h" "listens ?s b' h" for b b' h using that D(3) [of b h b'] by (simp add: lis)
  show "asked b (trace ?s) = Some (arm_mask E ?s h)"
    if "no_failed_mod (trace ?s)" "listens ?s b h" "b \<notin> insert a P" "mask_of (interests ?s h) \<noteq> 0" for b h
    using that D(4) [of b h] by (simp add: lis arm_mask_def)
qed

lemma arm_inv_mono: "arm_inv E P s \<Longrightarrow> P \<subseteq> Q \<Longrightarrow> arm_inv E Q s"
  unfolding arm_inv_def by blast

lemma arm_inv_handled:
  assumes "arm_inv E P s" and "\<And>h. \<not> listens s a h"
  shows "arm_inv E (P - {a}) s"
  using assms unfolding arm_inv_def by blast

interpretation arm: dispatch_invariant E "\<lambda>P s. flags_ok E \<longrightarrow> arm_inv E P s" for E
proof
  fix P s a and c :: reg_cell and h ev s'
  assume "flags_ok E \<longrightarrow> arm_inv E P s" "heap s a = Some c" "0 < strong c"
    "reg_handler c = FuturesHandler h" "Futures_handle_event E h a ev s = Val s'"
  then show "flags_ok E \<longrightarrow> arm_inv E (P - {a}) s'"
    by (auto intro: Futures_handle_event_arm simp: listens_def)
next
  fix P s a and c :: reg_cell and m md r s'
  assume "flags_ok E \<longrightarrow> arm_inv E P s" "heap s a = Some c" "\<And>h. reg_handler c \<noteq> FuturesHandler h"
    "modify E a m md s = (r, s')"
  then show "flags_ok E \<longrightarrow> arm_inv E P s'"
    by (auto intro: modify_arm simp: listens_def)
next
  fix P s a
  assume "flags_ok E \<longrightarrow> arm_inv E P s"
    "\<And>(c :: reg_cell) h. heap s a = Some c \<Longrightarrow> 0 < strong c \<Longrightarrow> reg_handler c \<noteq> FuturesHandler h"
  then show "flags_ok E \<longrightarrow> arm_inv E (P - {a}) s"
    by (auto intro!: arm_inv_handled simp: listens_def)
qed (auto intro: arm_inv_benign arm_inv_benign [OF _ plain_benign] arm_inv_returned arm_inv_mono reg_clone_arm Registration_drop_arm)

text \<open>The other operations.\<close>

lemma drop_inner_arm:
  assumes "arm_inv E P s"
  shows "arm_inv E P (drop_inner E s)"
proof (rule arm_inv_sub [OF assms])
  show "reg_inv (drop_inner E s)" using drop_inner_reg_inv [OF arm_invD(1) [OF assms]] .
  show "no_failed_mod (trace s)" if "no_failed_mod (trace (drop_inner E s))"
    using that by (auto simp: drop_inner_def Let_def sys_def split: if_splits)
  show "asked a (trace (drop_inner E s)) = asked a (trace s)" for a
    by (simp add: drop_inner_def Let_def sys_def)
  show "listens s a h" if "listens (drop_inner E s) a h" for a h
    using that drop_inner_shape [of s E] by (simp add: listens_def)
qed (simp add: drop_inner_quiet)

lemma register_fd_raw_arm:
  assumes "register_fd_raw E fd m md hdl s = (r, s')" and "arm_inv E {} s"
    and "\<And>h. hdl = FuturesHandler h \<Longrightarrow> h < fresh s \<and> interests s h = [] \<and> (\<forall>a. \<not> listens s a h)"
  shows "arm_inv E {} s'"
proof (rule arm_invI)
  note D = arm_invD [OF assms(2)]
  note T = register_fd_raw_tables [OF assms(1)]
  have lis: "listens s b h \<or> b = fresh s \<and> hdl = FuturesHandler h" if "listens s' b h" for b h
    using that T by (auto simp: listens_def split: sum.splits if_splits)
  have other: "b < fresh s" if "listens s b h" for b h
    using that listens_live [OF D(1)] by blast
  have same: "interests s' = interests s" "no_failed_mod (trace s') = no_failed_mod (trace s)"
    "b \<noteq> fresh s \<Longrightarrow> asked b (trace s') = asked b (trace s)" for b
    using assms(1) by (auto simp: register_fd_raw_def Let_def sys_def split: sum.splits)
  show "reg_inv s'" using register_fd_raw_reg_inv [OF D(1) assms(1)] .
  show "h < b" if "listens s' b h" for b h
    using lis [OF that] D(2) assms(3) by blast
  show "b = b'" if "listens s' b h" "listens s' b' h" for b b' h
    using lis [OF that(1)] lis [OF that(2)] D(3) assms(3) by blast
  show "asked b (trace s') = Some (arm_mask E s' h)"
    if "no_failed_mod (trace s')" "listens s' b h" "b \<notin> {}" "mask_of (interests s' h) \<noteq> 0" for b h
  proof -
    have "listens s b h" using lis [OF that(2)] that(4) assms(3) same by auto
    then show ?thesis using that same D(4) [of b h] other [of b h] by (simp add: arm_mask_def)
  qed
qed

lemma arm_inv_fresh:
  assumes "arm_inv E {} s" and "heap s' = heap s" and "trace s' = trace s"
    and "fresh s \<le> fresh s'" and "\<And>h a. listens s a h \<Longrightarrow> interests s' h = interests s h"
  shows "arm_inv E {} s'"
proof (rule arm_inv_sub [OF assms(1)])
  show "reg_inv s'" using arm_invD(1) [OF assms(1)] assms(2-4) by (auto intro: reg_inv_cong)
qed (use assms in \<open>auto simp: listens_def\<close>)

lemma FuturesRegistration_new_arm:
  assumes "FuturesRegistration_new E fd s = (r, s')" and "arm_inv E {} s"
  shows "arm_inv E {} s'"
proof -
  define s1 where "s1 = s\<lparr>fresh := Suc (fresh s), interests := (interests s)(fresh s := [])\<rparr>"
  obtain r1 where new: "register_fd_raw E fd (bf_empty E) (bf_union E (EDGE E) (ONE_SHOT E))
      (FuturesHandler (fresh s)) s1 = (r1, s')"
    using assms(1) by (auto simp: FuturesRegistration_new_def s1_def Let_def split: prod.splits sum.splits)
  have old: "h < fresh s" if "listens s a h" for a h
    using that arm_invD(2) [OF assms(2)] listens_live [OF arm_invD(1) [OF assms(2)]] by (meson less_trans)
  then have "arm_inv E {} s1"
    by (intro arm_inv_fresh [OF assms(2)]) (auto simp: s1_def)
  moreover have "\<not> listens s1 a (fresh s)" for a
    using old [of a "fresh s"] by (auto simp: s1_def listens_def)
  ultimately show ?thesis
    by (intro register_fd_raw_arm [OF new]) (auto simp: s1_def)
qed

lemma new_custom_event_arm:
  assumes "new_custom_event E s = (r, s')" and "arm_inv E {} s"
  shows "arm_inv E {} s'"
proof -
  have prep: "arm_inv E {} (handle (s1\<lparr>fresh := Suc (fresh s1), reg_event := y\<rparr>))"
    if "sys E CreateEventfd s = (x, s1)" for x s1 y
  proof -
    have "arm_inv E {} s1"
      using that arm_inv_benign [OF assms(2), of CreateEventfd] by (auto simp: sys_def Let_def)
    then show ?thesis by (rule arm_inv_fresh) (simp_all add: handle_def)
  qed
  from assms(1) show ?thesis
  proof (cases rule: new_custom_event_cases)
    case no_eventfd
    then show ?thesis
      using arm_inv_benign [OF assms(2), of CreateEventfd] by (auto simp: sys_def Let_def)
  next
    case (failed efd s1 e s3)
    have "arm_inv E {} s3"
      using failed prep by (intro register_fd_raw_arm [OF failed(3)]) auto
    then show ?thesis using failed(4) by (simp add: drop_inner_arm)
  next
    case (ok efd s1 a s3)
    have "arm_inv E {} s3"
      using ok prep by (intro register_fd_raw_arm [OF ok(3)]) auto
    then have "arm_inv E {} (drop_inner E s3)" by (rule drop_inner_arm)
    then show ?thesis
      using ok(4) drop_inner_quiet [of _ E s3] by (elim arm_inv_fresh) simp_all
  qed
qed

lemma fold_mask_of: "fold (\<lambda>(m, _) k. k OR m) xs 0 = mask_of xs"
  by (simp add: mask_of_def case_prod_beta')

lemma add_interest_shape:
  assumes "add_interest E fr ev t s = (r, s')" and "flags_ok E"
  defines "h \<equiv> fr_inner fr"
  defines "s2 \<equiv> (register (fresh s) t (s\<lparr>fresh := fresh s + 1, fired := (fired s)(fresh s := False)\<rparr>))
    \<lparr>interests := (interests s)(h := interests s h @ [(ev, fresh s)])\<rparr>"
  shows "mask_of (interests s h) AND ev = ev \<and> s' = s2 \<and> r = Inr (fresh s) \<or>
    mask_of (interests s h) AND ev \<noteq> ev \<and> (\<exists>x. modify E (fr_registration fr)
      (mask_of (interests s h) OR ev) (EDGE E OR ONE_SHOT E) s2 = (x, s') \<and>
      r = (case x of Inl e \<Rightarrow> Inl e | Inr _ \<Rightarrow> Inr (fresh s)))"
  using assms(1) unfolding s2_def h_def
  by (auto simp: add_interest_def Let_def register_def emit_def fold_mask_of
      flags_okD [OF assms(2)] split: if_splits prod.splits sum.splits)

lemma add_interest_arm:
  assumes "add_interest E fr ev t s = (r, s')" and "arm_inv E {} s" and "flags_ok E"
    and "listens s (fr_registration fr) (fr_inner fr)"
  shows "arm_inv E {} s'"
proof -
  define a where "a = fr_registration fr"
  define h where "h = fr_inner fr"
  define s2 where "s2 = (register (fresh s) t (s\<lparr>fresh := fresh s + 1, fired := (fired s)(fresh s := False)\<rparr>))
    \<lparr>interests := (interests s)(h := interests s h @ [(ev, fresh s)])\<rparr>"
  note D = arm_invD [OF assms(2)]
  have s2: "heap s2 = heap s" "trace s2 = trace s @ [(TaskRegister (fresh s) t, True)]"
    "mask_of (interests s2 h) = mask_of (interests s h) OR ev"
    "k \<noteq> h \<Longrightarrow> interests s2 k = interests s k" "epfd s2 = epfd s" for k
    by (simp_all add: s2_def register_def emit_def)
  have lis2: "listens s2 b k = listens s b k" for b k by (simp add: listens_def s2(1))
  have reg2: "reg_inv s2"
    using D(1) by (rule reg_inv_cong [rotated 3]) (simp_all add: s2, simp add: s2_def register_def emit_def)
  have only: "k \<noteq> h" if "listens s b k" "b \<noteq> a" for b k
    using that D(3) assms(4) unfolding a_def h_def by blast
  have old: "asked b (trace s2) = Some (arm_mask E s2 k)"
    if "no_failed_mod (trace s)" "listens s b k" "b \<noteq> a" "mask_of (interests s2 k) \<noteq> 0" for b k
    using that D(4) [of b k] only [of b k] s2 by (simp add: arm_mask_def)
  from add_interest_shape [OF assms(1,3)] consider
    (contained) "mask_of (interests s h) AND ev = ev" "s' = s2"
  | (armed) x where "modify E a (mask_of (interests s h) OR ev) (EDGE E OR ONE_SHOT E) s2 = (x, s')"
    unfolding s2_def h_def a_def by blast
  then show ?thesis
  proof cases
    case contained
    then have m: "mask_of (interests s2 h) = mask_of (interests s h)"
      by (simp add: s2 bit_eq_iff bit_simps) (metis bit_and_iff)
    show ?thesis
      unfolding contained(2)
    proof (rule arm_invI [OF reg2])
      show "k < b" if "listens s2 b k" for b k using that D(2) by (simp add: lis2)
      show "b = b'" if "listens s2 b k" "listens s2 b' k" for b b' k using that D(3) [of b k b'] by (simp add: lis2)
      show "asked b (trace s2) = Some (arm_mask E s2 k)"
        if "no_failed_mod (trace s2)" "listens s2 b k" "b \<notin> {}" "mask_of (interests s2 k) \<noteq> 0" for b k
        using that D(4) [of b k] m s2 by (cases "k = h") (auto simp: arm_mask_def lis2)
    qed
  next
    case armed
    obtain c where c: "heap s a = Some c" "epoll_data c = a"
      using assms(4) D(1) by (auto simp: listens_def reg_inv_def a_def)
    note F = modify_only_trace [OF armed] modify_notifications [OF armed]
    have lis: "listens s' b k = listens s b k" for b k using F by (simp add: listens_def s2(1))
    have tr: "trace s' = trace s2 @ [(EpollCtl (epfd s) EPOLL_CTL_MOD (reg_fd c)
        (Some ((mask_of (interests s h) OR ev) OR (EDGE E OR ONE_SHOT E), a)), is_ok x)]"
      using armed c by (auto simp: modify_def sys_def Let_def s2(1,5) split: sum.splits)
    show ?thesis
    proof (rule arm_invI)
      show "reg_inv s'" using modify_reg_inv [OF reg2 armed] .
      show "k < b" if "listens s' b k" for b k using that D(2) by (simp add: lis)
      show "b = b'" if "listens s' b k" "listens s' b' k" for b b' k using that D(3) [of b k b'] by (simp add: lis)
      show "asked b (trace s') = Some (arm_mask E s' k)"
        if that: "no_failed_mod (trace s')" "listens s' b k" "b \<notin> {}" "mask_of (interests s' k) \<noteq> 0" for b k
      proof (cases "b = a")
        case True
        then have "k = h"
          using that(2) [unfolded lis] assms(4) by (auto simp: listens_def a_def h_def)
        then show ?thesis
          using True that(1) F s2(3) by (simp add: tr arm_mask_def no_failed_mod_def)
      next
        case False
        then show ?thesis
          using that old [of b k] F tr s2 by (auto simp: arm_mask_def lis asked_append)
      qed
    qed
  qed
qed

lemma arm_inv_quiet:
  assumes "arm_inv E {} s" and "benign k"
  shows "arm_inv E {} (emit k s)" and "sys E k s = (r, s') \<Longrightarrow> arm_inv E {} s'"
  using arm_inv_benign [OF assms] by (auto simp: emit_def sys_def Let_def)

lemma socket_call_benign: "socket_call k \<Longrightarrow> benign k"
  by (cases k) auto

lemma step_arm:
  assumes "flags_ok E"
  shows "epoll_step E p q \<Longrightarrow> arm_inv E {} (snd p) \<Longrightarrow> arm_inv E {} (snd q)"
proof (induction rule: epoll_step.induct)
  case (Handle n s)
  then show ?case by (auto intro: arm_inv_fresh simp: handle_def)
next
  case (DropRegistration s a n)
  then show ?case by (simp add: Registration_drop_arm)
next
  case (CloneRegistration s a n)
  then show ?case by (auto dest!: usable_ops intro: reg_clone_arm)
next
  case (Modify s a m md r2 s' n)
  have "\<not> listens s a h" for h using Modify(1) by (auto simp: listens_def usable_def)
  then show ?case using modify_arm [OF Modify(2)] Modify(3) by simp
next
  case (AddInterest s fr ev t r3 s' n)
  then show ?case
    using add_interest_arm [OF AddInterest(2) _ assms]
    by (auto simp: listens_def usable_def split: option.splits)
next
  case (PollInterest i t s r4 s' n)
  then show ?case
    by (auto simp: FutureInterest_poll_def register_def intro: arm_inv_quiet(1) split: if_splits)
next
  case (RegisterInterest n s i t)
  then show ?case by (auto simp: register_def intro: arm_inv_quiet(1))
next
  case (CloseDescriptor fd s n ok)
  then show ?case
    using close_reg_inv [OF arm_invD(1)]
    by (auto intro!: arm_inv_sub [of E "{}" s] simp: listens_def)
next
  case (SocketCall k n s ok)
  then show ?case using socket_call_benign by (auto intro: arm_inv_benign)
next
  case (PostCustomEvent n tg d s r5 s')
  then have "arm_inv E {} (emit (SegPush (tag_ptr tg) d) s)" by (simp add: arm_inv_quiet(1))
  then show ?case
    using PostCustomEvent(2) PostCustomEvent(3)
    by (auto simp: post_custom_event_def split: if_splits option.splits sum.splits prod.splits
        elim: arm_inv_quiet(2) [rotated 2])
next
  case (InterruptNew s i s' n)
  then show ?case by (auto simp: Interrupt_new_def intro: arm_inv_fresh)
next
  case (InterruptCall i s r7 s' n)
  then show ?case
    by (auto simp: interrupt_def split: if_splits sum.splits prod.splits
        elim: arm_inv_quiet(2) [rotated 2])
next
  case (Turn n chk self w s r6 s')
  then show ?case using arm.turn_keeps [of E chk self w s r6 s'] assms by simp
next
  case (TurnInterruptible n chk self w i s r6 s')
  then show ?case using arm.turn_interruptible_keeps [of E chk self w i s r6 s'] assms by simp
next
  case (RegisterFd n fd m md u s r s')
  then show ?case using register_fd_raw_arm [OF RegisterFd(2)] by simp
qed (auto intro: drop_inner_arm FuturesRegistration_new_arm new_custom_event_arm)

lemma reachable_arm: "epoll_reachable E p \<Longrightarrow> flags_ok E \<Longrightarrow> arm_inv E {} (snd p)"
proof (induction rule: epoll_reachable.induct)
  case (Init s)
  then show ?case
    using Epoll_new_reg_inv [OF Init(1)]
    by (auto simp: Epoll_new_def listens_def split: sum.splits intro!: arm_invI)
next
  case (Step p q)
  then show ?case using step_arm by blast
qed

end
