(* ===== verification/EpollSafety.thy ===== *)
theory EpollSafety
  imports EpollSteps
begin

text \<open>
  Memory safety and resource accounting of the epoll instance: what holds in every state the
  operations of \<open>src/src/epoll/mod.rs\<close> reach, and the schedule of two threads where it fails.
\<close>

subsection \<open>What the kernel returns\<close>

text \<open>
  \<open>epoll_wait(2)\<close>: an event carries the data word its descriptor is registered with, and there are
  at most \<open>maxevents\<close> of them.
\<close>

definition kernel_events_ok :: "env \<Rightarrow> bool" where
  "kernel_events_ok E \<longleftrightarrow>
     (\<forall>tr efd n t es.
        os_events E tr (EpollWait efd n t) = Inr es \<or> os_events E tr (EpollPwait efd n t) = Inr es \<longrightarrow>
        snd ` set es \<subseteq> ran (kernel_table tr) \<and> length es \<le> n)"

text \<open>A kernel on which descriptor 4 is always readable.\<close>

definition ready_events :: "trace \<Rightarrow> call \<Rightarrow> io_error + (u32 \<times> addr) list" where
  "ready_events tr c = Inr (case c of
       EpollWait _ n _ \<Rightarrow> (case kernel_table tr 4 of None \<Rightarrow> [] | Some a \<Rightarrow> take n [(1, a)])
     | EpollPwait _ n _ \<Rightarrow> (case kernel_table tr 4 of None \<Rightarrow> [] | Some a \<Rightarrow> take n [(1, a)])
     | _ \<Rightarrow> [])"

definition linux_ready :: env where
  "linux_ready = linux\<lparr>os_events := ready_events\<rparr>"

lemma flags_ok_linux_ready [simp]: "flags_ok linux_ready"
  by (simp add: linux_ready_def)

lemma seg_queue_ok_linux_ready [simp]: "seg_queue_ok linux_ready"
  using seg_queue_ok_linux by (simp add: linux_ready_def seg_queue_ok_def)

lemma kernel_events_ok_linux_ready [simp]: "kernel_events_ok linux_ready"
  by (auto simp: kernel_events_ok_def linux_ready_def ready_events_def ran_def take_Cons'
      split: option.splits)

lemma kernel_events_okD:
  assumes "kernel_events_ok E"
  shows "os_events E tr (EpollWait efd n t) = Inr es \<Longrightarrow>
      snd ` set es \<subseteq> ran (kernel_table tr) \<and> length es \<le> n"
    and "os_events E tr (EpollPwait efd n t) = Inr es \<Longrightarrow>
      snd ` set es \<subseteq> ran (kernel_table tr) \<and> length es \<le> n"
  using assms by (simp_all add: kernel_events_ok_def)

lemma wait_step_events:
  assumes "wait_step E self i t s = (WaitEvents es, s1)" and "kernel_events_ok E"
  shows "snd ` set es \<subseteq> ran (kernel_table (trace s)) \<and> length es \<le> EVENT_BUFFER_SIZE \<and>
    heap s1 = heap s"
proof (cases i)
  case None
  then have "os_events E (trace s) (EpollWait (epfd s) EVENT_BUFFER_SIZE t) = Inr es" "heap s1 = heap s"
    using assms(1) by (auto simp: wait_step_def sys_events_def Let_def
        split: sum.splits list.splits if_splits)
  then show ?thesis using kernel_events_okD(1) [OF assms(2)] by blast
next
  case (Some j)
  then obtain s0 where inst: "install_sigusr2 E s = Some s0"
    using assms(1) by (auto simp: wait_step_def split: option.splits)
  then have s0: "kernel_table (trace s0) = kernel_table (trace s)" "heap s0 = heap s"
    by (auto simp: install_sigusr2_def sys_def Let_def split: if_splits sum.splits)
  have "os_events E (trace s0) (EpollPwait (epfd s0) EVENT_BUFFER_SIZE t) = Inr es" "heap s1 = heap s0"
    using assms(1) Some inst by (auto simp: wait_step_def sys_events_def Let_def
        split: sum.splits list.splits if_splits)
  then show ?thesis using kernel_events_okD(2) [OF assms(2)] s0 by metis
qed

subsection \<open>Dispatch uses no freed memory\<close>

lemma Futures_handle_event_not_UB: "Futures_handle_event E h a ev s \<noteq> UB"
  by (auto simp: Futures_handle_event_def Let_def split: prod.splits option.splits sum.splits)

lemma rearm_event_not_UB: "rearm_event E a s \<noteq> UB"
  by (auto simp: rearm_event_def split: prod.splits sum.splits)

lemma Custom_handle_event_not_UB:
  assumes "reg_event s rh = Some p" and "events s p = Some ce"
  shows "Custom_handle_event E rh a s \<noteq> Some UB"
  using assms
  by (auto simp: Custom_handle_event_def rearm_event_not_UB split: prod.splits option.splits
      if_splits)

lemma handle_event_not_UB:
  assumes "heap s a = Some c" and "ce_inv s"
  shows "handle_event E a ev s \<noteq> Some UB"
proof (cases "reg_handler c")
  case (CustomEventHandler rh)
  then obtain p ce where "reg_event s rh = Some p" "events s p = Some ce"
    using assms unfolding ce_inv_def by blast
  then show ?thesis
    using assms(1) CustomEventHandler by (simp add: handle_event_def Custom_handle_event_not_UB)
qed (use assms(1) in \<open>simp_all add: handle_event_def Futures_handle_event_not_UB\<close>)

lemma dispatch_one_not_UB:
  assumes "snd e \<in> dom (heap s)" and "ce_inv s"
  shows "dispatch_one E e s \<noteq> Some UB"
proof -
  obtain c where c: "heap s (snd e) = Some c" using assms(1) by blast
  show ?thesis
  proof (cases "strong c = 0")
    case True
    then show ?thesis using c by (simp add: dispatch_one_def weak_upgrade_def)
  next
    case False
    have "heap (reg_clone (snd e) s) (snd e) = Some (c\<lparr>strong := strong c + 1\<rparr>)"
      using c by (simp add: reg_clone_def set_cell_def)
    moreover have "ce_inv (reg_clone (snd e) s)"
      using ce.clone_keeps [OF assms(2) c] False by simp
    ultimately have "handle_event E (snd e) ev (reg_clone (snd e) s) \<noteq> Some UB" for ev
      by (rule handle_event_not_UB)
    then show ?thesis
      using c False by (simp add: dispatch_one_def weak_upgrade_def and_then_not_UB)
  qed
qed

lemma dispatch_not_UB:
  "snd ` set es \<subseteq> dom (heap s) \<Longrightarrow> ce_inv s \<Longrightarrow> dispatch E es s \<noteq> Some UB"
proof (induction es arbitrary: s)
  case (Cons e es)
  have "dispatch E es s1 \<noteq> Some UB" if one: "dispatch_one E e s = Some (Val s1)" for s1
    using Cons.IH [of s1] Cons.prems dispatch_one_frame [OF one] ce.loop.dispatch_one_keeps [OF one]
    by auto
  moreover have "dispatch_one E e s \<noteq> Some UB"
    using Cons.prems by (simp add: dispatch_one_not_UB)
  ultimately show ?case by auto
qed simp

lemma dispatch_events_not_UB:
  "snd ` set es \<subseteq> dom (heap s) \<Longrightarrow> ce_inv s \<Longrightarrow> dispatch_events E es s \<noteq> Some UB"
  by (auto simp: dispatch_events_def dest: dispatch_not_UB split: if_splits)

lemma ran_table_dom: "reg_inv s \<Longrightarrow> ran (kernel_table (trace s)) \<subseteq> dom (heap s)"
  by (force simp: reg_inv_def ran_def)

lemma poll_loop_not_UB:
  assumes "kernel_events_ok E" and "reg_inv s" and "ce_inv s"
  shows "poll_loop E self i t s \<noteq> Some UB"
proof
  assume ub: "poll_loop E self i t s = Some UB"
  have "E = E \<longrightarrow> reg_inv s \<and> ce_inv s \<longrightarrow> (UB :: ((io_error + nat) \<times> epoll) rust) \<noteq> UB"
  proof (rule poll_loop.raw_induct [where
        P = "\<lambda>E' self i t s x. E' = E \<longrightarrow> reg_inv s \<and> ce_inv s \<longrightarrow> x \<noteq> UB", OF _ ub], clarify)
    fix f :: "env \<Rightarrow> usize \<Rightarrow> addr option \<Rightarrow> i32 \<Rightarrow> epoll \<Rightarrow> ((io_error + nat) \<times> epoll) rust option"
    fix self i t s
    assume IH: "\<And>E' self i t s x. f E' self i t s = Some x \<Longrightarrow>
        E' = E \<longrightarrow> reg_inv s \<and> ce_inv s \<longrightarrow> x \<noteq> UB"
      and step: "(case wait_step E self i t s of
          (WaitPanic, _) \<Rightarrow> Some Panic
        | (WaitReturn r, s1) \<Rightarrow> Some (Val (r, s1))
        | (WaitRetry, s1) \<Rightarrow> f E self i t s1
        | (WaitEvents es, s1) \<Rightarrow> dispatch_events E es s1) = Some UB"
      and inv: "reg_inv s" "ce_inv s"
    obtain w s1 where w: "wait_step E self i t s = (w, s1)"
      by (cases "wait_step E self i t s")
    have inv1: "reg_inv s1" "ce_inv s1"
      using reg.loop.wait_step_keeps [OF w inv(1)] ce.loop.wait_step_keeps [OF w inv(2)] by simp_all
    show False
    proof (cases w)
      case (WaitEvents es)
      then have "snd ` set es \<subseteq> dom (heap s1)"
        using wait_step_events [OF w [unfolded WaitEvents] assms(1)] ran_table_dom [OF inv(1)] by auto
      then show False using step w WaitEvents inv1 dispatch_events_not_UB by auto
    qed (use step w inv1 in \<open>auto dest: IH\<close>)
  qed
  with assms show False by simp
qed

lemma timeout_ms_not_UB: "timeout_ms chk w \<noteq> UB"
  by (auto simp: timeout_ms_def mul_u32_def add_u32_def split: option.splits)

lemma poll_not_UB:
  "kernel_events_ok E \<Longrightarrow> reg_inv s \<Longrightarrow> ce_inv s \<Longrightarrow> poll E chk self w i s \<noteq> Some UB"
  by (auto simp: poll_def timeout_ms_not_UB poll_loop_not_UB)


subsection \<open>A concrete instance\<close>

text \<open>An instance with one custom event, on the kernel where its eventfd 4 is readable.\<close>

definition demo :: epoll where
  "demo = snd (new_custom_event linux_ready (projr (Epoll_new linux_ready [])))"

lemma demo_result:
  "fst (new_custom_event linux_ready (projr (Epoll_new linux_ready []))) =
     Inr \<lparr>tag_ptr = 3, tag_epoll_fd = 3\<rparr>"
  by code_simp

lemma demo_new: "epoll_reachable linux_ready (1, projr (Epoll_new linux_ready []))"
  by (rule epoll_reachable.Init) (simp add: Epoll_new_def linux_ready_def linux_def)

lemma demo_reachable: "epoll_reachable linux_ready (1, demo)"
  by (rule epoll_reachable.Step [OF demo_new], rule epoll_step.NewCustomEvent)
    (auto simp: demo_def prod_eq_iff)

lemma demo_table: "kernel_table (trace demo) 4 = Some 2"
  by code_simp

lemma demo_cell: "heap demo 2 = Some \<lparr>strong = 1, weak = 1, reg_fd = 4, epoll_data = 2,
  reg_handler = CustomEventHandler 1\<rparr>"
  by code_simp


subsection \<open>The properties\<close>

text \<open>
  In every reachable state, each data word the kernel's interest table holds is the address of
  an allocated registration of that very descriptor, kept allocated by its one weak count: the weak
  pointer \<open>register_fd_raw\<close> hands to \<open>epoll_ctl\<close> never dangles while it is registered.
\<close>

theorem kernel_words_live:
  assumes "epoll_reachable E (n, s)" and "kernel_table (trace s) fd = Some a"
  shows "\<exists>c. heap s a = Some c \<and> reg_fd c = fd \<and> epoll_data c = a \<and> weak c = 1"
  using reachable_inv [OF assms(1)] assms(2) unfolding reg_inv_def by fastforce

theorem kernel_words_live_witness:
  "\<exists>c. heap demo 2 = Some c \<and> reg_fd c = 4 \<and> epoll_data c = 2 \<and> weak c = 1"
  by (rule kernel_words_live [OF demo_reachable demo_table])

text \<open>
  C13. The reference count of the instance is exact in every reachable state: one for each \<open>Epoll\<close> or
  \<open>Handle\<close> the client holds, one for each registration not dropped, and one that is never given back
  for each \<open>EPOLL_CTL_ADD\<close> that failed (\<open>mem::forget\<close> of the \<open>_Registration\<close> forgets its \<open>queue\<close>).
  The descriptor is closed only when all three are zero.
\<close>

theorem references_exact:
  assumes "epoll_reachable E (n, s)"
  shows "finite (live s) \<and> inner_refs s = n + card (live s) + failed_adds (trace s) \<and>
    (closed s \<longrightarrow> n = 0 \<and> live s = {} \<and> failed_adds (trace s) = 0)"
  using reachable_inv [OF assms] by (auto simp: acct_def)

theorem references_exact_witness:
  "inner_refs demo = 1 + card (live demo) + failed_adds (trace demo) \<and> 0 < inner_refs demo"
  using references_exact [OF demo_reachable] by simp

text \<open>
  The tag \<open>new_custom_event\<close> returns stays valid: after any sequence of operations, posting to it
  neither panics nor touches freed memory.
\<close>

theorem custom_tag_stays_valid:
  assumes "epoll_reachable E (n, s)" and "0 < n"
    and "new_custom_event E s = (Inr tag, s1)" and "(epoll_step E)\<^sup>*\<^sup>* (n, s1) (m, s2)"
  shows "\<exists>r s3. post_custom_event E tag d s2 = Val (r, s3)"
proof -
  have s1: "epoll_reachable E (n, s1)"
    using assms(1-3) by (blast intro: epoll_reachable.Step epoll_step.NewCustomEvent)
  have "issued (tag_epoll_fd tag) {tag_ptr tag} s1"
    using new_custom_event_spec [OF assms(3)] reachable_inv [OF assms(1)]
      reachable_ce_live [OF assms(1)] by (auto simp: issued_def)
  then have "issued (tag_epoll_fd tag) {tag_ptr tag} s2"
    using steps_issued [OF assms(4) s1] by simp
  then show ?thesis
    by (auto simp: issued_def post_custom_event_def split: prod.splits sum.splits)
qed

theorem custom_tag_stays_valid_witness:
  "\<exists>r s3. post_custom_event linux_ready \<lparr>tag_ptr = 3, tag_epoll_fd = 3\<rparr> 42 (handle demo) = Val (r, s3)"
proof (rule custom_tag_stays_valid [OF demo_new])
  show "new_custom_event linux_ready (projr (Epoll_new linux_ready [])) =
      (Inr \<lparr>tag_ptr = 3, tag_epoll_fd = 3\<rparr>, demo)"
    by (simp add: prod_eq_iff demo_result demo_def)
  show "(epoll_step linux_ready)\<^sup>*\<^sup>* (1, demo) (Suc 1, handle demo)"
    by (rule r_into_rtranclp, rule epoll_step.Handle) simp
qed simp

text \<open>
  An instance with a custom event is never closed, even when the client has dropped every
  \<open>Epoll\<close>, \<open>Handle\<close> and registration: the boxed event owns a registration that owns the instance that
  owns the box.
\<close>

theorem custom_event_never_closed:
  assumes "epoll_reachable E (n, s)" and "events s p = Some ce"
  shows "\<not> closed s \<and> 0 < inner_refs s"
proof -
  obtain c where "heap s (ce_registration ce) = Some c" "0 < strong c"
    using reachable_ce_live [OF assms(1)] assms(2) by (auto simp: ce_live_def)
  then have "ce_registration ce \<in> live s" by (auto simp: live_def)
  then show ?thesis
    using reachable_inv [OF assms(1)] by (auto simp: acct_def card_gt_0_iff)
qed

theorem custom_event_never_closed_witness:
  "\<not> closed (drop_inner linux_ready demo) \<and> 0 < inner_refs (drop_inner linux_ready demo)"
proof -
  have "epoll_reachable linux_ready (0, drop_inner linux_ready demo)"
    using demo_reachable epoll_step.DropHandle [of linux_ready 0 demo]
    by (auto intro: epoll_reachable.Step)
  moreover have "events (drop_inner linux_ready demo) 3 =
      Some \<lparr>ce_event_fd = 4, ce_registration = 2\<rparr>"
    by code_simp
  ultimately show ?thesis by (rule custom_event_never_closed)
qed




definition demo_futures :: epoll where
  "demo_futures = snd (FuturesRegistration_new linux_ready 4 (projr (Epoll_new linux_ready [])))"

lemma demo_futures_reachable: "epoll_reachable linux_ready (1, demo_futures)"
  by (rule epoll_reachable.Step [OF demo_new], rule epoll_step.NewFutures)
    (auto simp: demo_futures_def prod_eq_iff)

lemma demo_futures_wait:
  "fst (wait_step linux_ready 7 None (- 1) demo_futures) = WaitEvents [(1, 2)]"
  by code_simp

lemma demo_futures_cell: "heap demo_futures 2 = Some \<lparr>strong = 1, weak = 1, reg_fd = 4,
  epoll_data = 2, reg_handler = FuturesHandler 1\<rparr>"
  by code_simp


end
