(* ===== verification/EventRuns.thy ===== *)
theory EventRuns
  imports InterestRuns EpollSafety
begin

text \<open>
  Custom events in every state the operations of an epoll instance reach (\<open>src/src/epoll/mod.rs\<close>): each
  posted word is handed to the handler once and in order, and a turn ends.
\<close>

subsection \<open>Posted words\<close>

definition fifo_inv :: "addr \<Rightarrow> epoll \<Rightarrow> bool" where
  "fifo_inv p s \<longleftrightarrow> posted p (trace s) = handled p (trace s) @ seg_contents p (trace s)"

fun seg_free :: "call \<Rightarrow> bool" where
  "seg_free (SegPush _ _) = False"
| "seg_free (SegTryPop _) = False"
| "seg_free (HandlerCall _ _ _) = False"
| "seg_free _ = True"

lemma plain_seg_free: "plain k \<Longrightarrow> seg_free k"
  by (cases k) auto

lemma socket_call_seg_free: "socket_call k \<Longrightarrow> seg_free k"
  by (cases k) auto

lemma seg_free_step: "seg_free (fst c) \<Longrightarrow> seg_step p c xs = xs"
  by (cases "(p, c, xs)" rule: seg_step.cases) auto

lemma seg_free_words: "seg_free (fst c) \<Longrightarrow> posted p (c # tr) = posted p tr \<and> handled p (c # tr) = handled p tr"
  by (cases c; cases "fst c") (auto simp: posted_def handled_def)

lemma seg_free_trace:
  "\<forall>c \<in> set tr. seg_free (fst c) \<Longrightarrow>
   fold (seg_step p) tr xs = xs \<and> posted p tr = [] \<and> handled p tr = []"
proof (induction tr)
  case (Cons c tr)
  then show ?case using seg_free_step [of c] seg_free_words [of c] by simp
qed (simp add: posted_def handled_def)

text \<open>Operations that do not touch the queues.\<close>

lemma fifo_inv_free:
  assumes "fifo_inv p s" and "trace s' = trace s @ tr" and "\<forall>c \<in> set tr. seg_free (fst c)"
  shows "fifo_inv p s'"
  using assms seg_free_trace [OF assms(3)] by (simp add: fifo_inv_def seg_contents_append)

lemma fifo_inv_same: "fifo_inv p s \<Longrightarrow> trace s' = trace s \<Longrightarrow> fifo_inv p s'"
  by (simp add: fifo_inv_def)

text \<open>What an operation appends to the trace, when that is not the queues' business.\<close>

definition frees :: "epoll \<Rightarrow> epoll \<Rightarrow> bool" where
  "frees s s' \<longleftrightarrow> (\<exists>tr. trace s' = trace s @ tr \<and> (\<forall>c \<in> set tr. seg_free (fst c)))"

lemma freesI: "trace s' = trace s @ tr \<Longrightarrow> (\<forall>c \<in> set tr. seg_free (fst c)) \<Longrightarrow> frees s s'"
  by (auto simp: frees_def)

lemma frees_trans: "frees s t \<Longrightarrow> frees t u \<Longrightarrow> frees s u"
  by (force simp: frees_def)

lemma frees_fifo: "frees s s' \<Longrightarrow> fifo_inv p s \<Longrightarrow> fifo_inv p s'"
  by (auto simp: frees_def intro: fifo_inv_free)

lemma frees_same: "trace s' = trace s \<Longrightarrow> frees s s'"
  by (rule freesI [of _ _ "[]"]) simp_all

lemma frees_snoc: "trace s' = trace s @ [c] \<Longrightarrow> seg_free (fst c) \<Longrightarrow> frees s s'"
  by (rule freesI [of _ _ "[c]"]) simp_all

lemma sys_frees: "sys E k s = (r, s') \<Longrightarrow> seg_free k \<Longrightarrow> frees s s'"
  by (auto simp: sys_def Let_def intro: frees_snoc)

lemma modify_frees: "modify E a m md s = (r, s') \<Longrightarrow> frees s s'"
  by (auto simp: modify_def sys_def Let_def intro: frees_same frees_snoc split: option.splits sum.splits)

lemma drop_inner_frees: "frees s (drop_inner E s)"
  by (auto simp: drop_inner_def sys_def Let_def intro: frees_same frees_snoc)

lemma register_fd_raw_frees: "register_fd_raw E fd m md h s = (r, s') \<Longrightarrow> frees s s'"
  by (auto simp: register_fd_raw_def sys_def Let_def intro: frees_snoc split: sum.splits)

lemma Registration_drop_frees: "frees s (Registration_drop E a s)"
proof (cases "heap s a")
  case None
  then show ?thesis by (simp add: Registration_drop_def frees_same)
next
  case (Some c)
  have del: "frees s (set_cell a c' s1)" if "sys E (EpollCtl (epfd s) EPOLL_CTL_DEL (reg_fd c) None) s = (r, s1)"
    for c' r s1
    using that by (auto simp: sys_def Let_def intro: frees_snoc)
  show ?thesis
    using Some by (auto simp: Registration_drop_def Let_def intro: frees_same frees_trans [OF del drop_inner_frees]
        split: prod.splits sum.splits)
qed

lemma Futures_handle_event_frees:
  assumes "Futures_handle_event E h a ev s = Val s'"
  shows "frees s s'"
  using assms
proof (cases rule: Futures_handle_event_ValE)
  case (1 ys js rem)
  have "\<forall>c \<in> set (notified js). seg_free (fst c)" by (auto simp: notified_def)
  with 1(9) show ?thesis by (fastforce simp: frees_def split: option.splits)
qed

lemma FuturesRegistration_new_frees: "FuturesRegistration_new E fd s = (r, s') \<Longrightarrow> frees s s'"
  by (auto simp: FuturesRegistration_new_def Let_def frees_def dest!: register_fd_raw_frees
      split: prod.splits sum.splits)

lemma add_interest_frees: "add_interest E fr ev t s = (r, s') \<Longrightarrow> frees s s'"
  by (auto simp: add_interest_def Let_def frees_def register_def emit_def dest!: modify_frees
      split: if_splits prod.splits sum.splits)

lemma new_custom_event_frees:
  assumes "new_custom_event E s = (r, s')"
  shows "frees s s'"
  using assms
proof (cases rule: new_custom_event_cases)
  case no_eventfd
  then show ?thesis by (auto dest: sys_frees)
next
  case (failed efd s1 e s3)
  have "frees s s1" "frees s1 s3" "frees s3 s'"
    using failed sys_frees register_fd_raw_frees [OF failed(3)] drop_inner_frees
    by (auto simp: frees_def handle_def)
  then show ?thesis by (blast intro: frees_trans)
next
  case (ok efd s1 a s3)
  have "frees s s1" "frees s1 s3" "frees s3 s'"
    using ok sys_frees register_fd_raw_frees [OF ok(3)] drop_inner_frees [of s3 E]
    by (auto simp: frees_def handle_def)
  then show ?thesis by (blast intro: frees_trans)
qed

text \<open>The handler of custom events empties the queue of its event and hands out what was in it.\<close>

lemma fold_drain_other: "q \<noteq> p \<Longrightarrow> fold (seg_step p) (drain_trace q tag ds) xs = xs"
  by (induction ds) simp_all

lemma drain_fifo:
  assumes "drain E q tag s = Some s'" and "fifo_inv p s" and "seg_queue_ok E"
  shows "fifo_inv p s'"
proof -
  have "trace s' = trace s @ drain_trace q tag (seg_contents q (trace s))"
    using drain_total [OF assms(3) refl, of q tag s] assms(1) by simp
  then show ?thesis
    using assms(2) seg_contents_drain [of p "trace s" tag]
    by (cases "q = p") (simp_all add: fifo_inv_def seg_contents_append fold_drain_other)
qed

lemma Custom_handle_event_fifo:
  assumes "Custom_handle_event E rh a s = Some (Val s')" and "fifo_inv p s" and "seg_queue_ok E"
  shows "fifo_inv p s'"
proof -
  obtain q tag r s1 s2 and ce :: custom_event where c: "sys E (ReadEventfd (ce_event_fd ce)) s = (r, s1)"
    "drain E q tag s1 = Some s2 \<or> s2 = s1" "rearm_event E a s2 = Val s'"
    using assms(1) by (rule Custom_handle_event_ValE)
  have "fifo_inv p s1" using sys_frees [OF c(1)] assms(2) by (simp add: frees_fifo)
  then have "fifo_inv p s2" using c(2) drain_fifo assms(3) by blast
  moreover have "frees s2 s'"
    using c(3) by (auto simp: rearm_event_def split: prod.splits sum.splits dest: modify_frees)
  ultimately show ?thesis by (simp add: frees_fifo)
qed

interpretation fifo: loop_invariant E "\<lambda>_ s. seg_queue_ok E \<longrightarrow> fifo_inv p s" for E p
proof
  fix s k ok
  assume "seg_queue_ok E \<longrightarrow> fifo_inv p s" "plain k"
  then show "seg_queue_ok E \<longrightarrow> fifo_inv p (s\<lparr>trace := trace s @ [(k, ok)]\<rparr>)"
    using plain_seg_free by (auto intro: fifo_inv_free)
next
  fix s a ev
  assume "seg_queue_ok E \<longrightarrow> fifo_inv p s"
  then show "seg_queue_ok E \<longrightarrow> fifo_inv p (s\<lparr>trace := trace s @ [(EventReturned ev a, True)]\<rparr>)"
    by (auto intro: fifo_inv_free)
next
  fix s a c
  assume "seg_queue_ok E \<longrightarrow> fifo_inv p s"
  then show "seg_queue_ok E \<longrightarrow> fifo_inv p (reg_clone a s)"
    by (auto intro: fifo_inv_same simp: reg_clone_def set_cell_def split: option.splits)
qed (auto intro: frees_fifo [OF Registration_drop_frees] frees_fifo [OF Futures_handle_event_frees]
    Custom_handle_event_fifo elim: fifo_inv_same)

lemma step_fifo:
  assumes "seg_queue_ok E"
  shows "epoll_step E x y \<Longrightarrow> fifo_inv p (snd x) \<Longrightarrow> fifo_inv p (snd y)"
proof (induction rule: epoll_step.induct)
  case (PostCustomEvent n tg d s r5 s')
  then show ?case
    by (auto simp: post_custom_event_def sys_def Let_def emit_def fifo_inv_def posted_def handled_def
        split: if_splits option.splits sum.splits) (auto simp: seg_contents_append)
next
  case (Turn n chk self w s r6 s')
  then show ?case using fifo.turn_keeps [of E chk self w s r6 s'] assms by simp
next
  case (TurnInterruptible n chk self w i s r6 s')
  then show ?case using fifo.turn_interruptible_keeps [of E chk self w i s r6 s'] assms by simp
next
  case (PollInterest i t s r4 s' n)
  then show ?case
    by (auto simp: FutureInterest_poll_def register_def emit_def split: if_splits
        intro: fifo_inv_free [where s = s and tr = "[(TaskRegister i t, True)]"])
next
  case (InterruptCall i s r7 s' n)
  then show ?case
    by (auto simp: interrupt_def split: if_splits sum.splits prod.splits
        dest!: sys_frees elim: frees_fifo)
next
  case (SocketCall k n s ok)
  then show ?case
    using socket_call_seg_free by (auto intro: fifo_inv_free [where s = s and tr = "[(k, ok)]"])
next
  case (CloneRegistration s a n)
  then show ?case
    by (auto intro: fifo_inv_same simp: reg_clone_def set_cell_def split: option.splits)
next
  case (RegisterFd n fd m md u s r s')
  then show ?case using frees_fifo [OF register_fd_raw_frees] by simp
next
  case (NewFutures n fd s r s')
  then show ?case using frees_fifo [OF FuturesRegistration_new_frees] by simp
next
  case (NewCustomEvent n s tag s')
  then show ?case using frees_fifo [OF new_custom_event_frees] by simp
next
  case (Modify s a m md r2 s' n)
  then show ?case using frees_fifo [OF modify_frees] by simp
next
  case (AddInterest s fr ev t r3 s' n)
  then show ?case using frees_fifo [OF add_interest_frees] by simp
next
  case (RegisterInterest n s i t)
  then show ?case
    by (auto simp: register_def emit_def
        intro: fifo_inv_free [where s = s and tr = "[(TaskRegister i t, True)]"])
next
  case (CloseDescriptor fd s n ok)
  then show ?case by (auto intro: fifo_inv_free [where s = s and tr = "[(CloseFd fd, ok)]"])
next
  case (DropHandle n s)
  then show ?case using frees_fifo [OF drop_inner_frees] by simp
next
  case (DropRegistration s a n)
  then show ?case using frees_fifo [OF Registration_drop_frees] by simp
qed (auto simp: handle_def Interrupt_new_def fifo_inv_def)

lemma reachable_fifo: "epoll_reachable E x \<Longrightarrow> seg_queue_ok E \<Longrightarrow> fifo_inv p (snd x)"
proof (induction rule: epoll_reachable.induct)
  case (Init s)
  then have "trace s = [(EpollCreate1, True)]" by (auto simp: Epoll_new_def split: sum.splits)
  then show ?case by (simp add: fifo_inv_def posted_def handled_def seg_contents_def)
next
  case (Step x y)
  then show ?case using step_fifo by blast
qed

subsection \<open>A turn ends\<close>

lemma and_then_total:
  "\<exists>y. r = Some y \<Longrightarrow> (\<And>x. r = Some (Val x) \<Longrightarrow> \<exists>y. f x = Some y) \<Longrightarrow> \<exists>y. and_then r f = Some y"
  by (cases "(r, f)" rule: and_then.cases) auto

lemma Custom_handle_event_total: "seg_queue_ok E \<Longrightarrow> \<exists>y. Custom_handle_event E rh a s = Some y"
  by (auto simp: Custom_handle_event_def drain_total [OF _ refl] split: option.splits prod.splits
      intro!: and_then_total)

lemma handle_event_total: "seg_queue_ok E \<Longrightarrow> \<exists>y. handle_event E a ev s = Some y"
  by (auto simp: handle_event_def Custom_handle_event_total split: option.splits handler.splits)

lemma dispatch_one_total: "seg_queue_ok E \<Longrightarrow> \<exists>y. dispatch_one E e s = Some y"
  by (auto simp: dispatch_one_def handle_event_total split: option.splits intro!: and_then_total)

lemma dispatch_total: "seg_queue_ok E \<Longrightarrow> \<exists>y. dispatch E es s = Some y"
  by (induction es arbitrary: s) (auto simp: dispatch_one_total intro!: and_then_total)

lemma dispatch_events_total: "seg_queue_ok E \<Longrightarrow> \<exists>y. dispatch_events E es s = Some y"
  by (auto simp: dispatch_events_def dispatch_total intro!: and_then_total)

lemma wait_step_interruptible: "wait_step E self (Some i) t s \<noteq> (WaitRetry, s')"
  by (auto simp: wait_step_def Let_def split: option.splits prod.splits sum.splits list.splits if_splits)

lemma wait_step_retry:
  "wait_step E self None t s = (WaitRetry, s') \<Longrightarrow>
   (\<exists>e. os_events E (trace s) (EpollWait (epfd s) EVENT_BUFFER_SIZE t) = Inl e \<and> kind e = Interrupted) \<and>
   trace s' = trace s @ [(EpollWait (epfd s) EVENT_BUFFER_SIZE t, False)] \<and> epfd s' = epfd s"
  by (auto simp: wait_step_def sys_events_def Let_def split: sum.splits list.splits if_splits)

text \<open>Signals stop at some point: from then on \<open>epoll_wait\<close> does not fail with \<open>EINTR\<close>.\<close>

definition signals_stop :: "env \<Rightarrow> nat \<Rightarrow> bool" where
  "signals_stop E N \<longleftrightarrow> (\<forall>tr efd m t e. N \<le> length tr \<longrightarrow>
     os_events E tr (EpollWait efd m t) = Inl e \<longrightarrow> kind e \<noteq> Interrupted)"

lemma poll_loop_total:
  assumes "seg_queue_ok E" and "signals_stop E N"
  shows "\<exists>y. poll_loop E self i t s = Some y"
proof (induction "N - length (trace s)" arbitrary: s rule: less_induct)
  case less
  obtain w s' where w: "wait_step E self i t s = (w, s')" by (cases "wait_step E self i t s")
  show ?case
  proof (cases w)
    case WaitRetry
    then have i: "i = None" using w wait_step_interruptible by (cases i) auto
    note retry = wait_step_retry [OF w [unfolded i WaitRetry]]
    then have "length (trace s) < N"
      using assms(2) by (meson linorder_not_less signals_stop_def)
    with retry have "N - length (trace s') < N - length (trace s)" by simp
    then show ?thesis using less w WaitRetry by (subst poll_loop.simps) simp
  next
    case (WaitEvents es)
    then show ?thesis
      using w dispatch_events_total [OF assms(1)] by (subst poll_loop.simps) simp
  qed (use w in \<open>subst poll_loop.simps, simp\<close>)+
qed

end
