(* ===== verification/Futures.thy ===== *)
theory Futures
  imports Environment
begin

text \<open>
  The contract of \<open>Future::poll\<close> that the futures of both backends keep (\<open>src/src/epoll/net.rs\<close>,
  \<open>src/src/iocp/net.rs\<close>): a future that is not ready has registered the task that polled it, and a future
  that has answered is done and panics when it is polled again.
\<close>

text \<open>
  \<open>waits_on\<close> is what a pending state waits on, an interest or an overlapped task; \<open>registers j t s s'\<close> says
  that \<open>j\<close> was told of \<open>t\<close> between \<open>s\<close> and \<open>s'\<close>.
\<close>

locale completing_future =
  fixes poll_once :: "task \<Rightarrow> 'st \<Rightarrow> 's \<Rightarrow> ('a io_poll \<times> 'st \<times> 's) rust"
    and waits_on :: "'st \<Rightarrow> addr option"
    and registers :: "addr \<Rightarrow> task \<Rightarrow> 's \<Rightarrow> 's \<Rightarrow> bool"
    and finished :: 'st
  assumes finished_panics: "poll_once t finished n = Panic"
    and completes: "poll_once t st n = Val (r, st', n') \<Longrightarrow> r \<noteq> Inr NotReady \<Longrightarrow> st' = finished"
    and pending_registers: "poll_once t st n = Val (Inr NotReady, st', n') \<Longrightarrow>
      st' \<noteq> finished \<and> (\<exists>j. waits_on st' = Some j \<and> registers j t n n')"

text \<open>Polling again and again, each time by some task and in some state of the rest.\<close>

fun poll_seq ::
  "(task \<Rightarrow> 'st \<Rightarrow> 's \<Rightarrow> ('a io_poll \<times> 'st \<times> 's) rust) \<Rightarrow> (task \<times> 's) list \<Rightarrow> 'st \<Rightarrow>
     ('a io_poll list \<times> 'st) rust" where
  "poll_seq poll_once [] st = Val ([], st)"
| "poll_seq poll_once ((t, n) # xs) st =
     (case poll_once t st n of
        Val (r, st', _) \<Rightarrow>
          (case poll_seq poll_once xs st' of Val (rs, st'') \<Rightarrow> Val (r # rs, st'') | Panic \<Rightarrow> Panic | UB \<Rightarrow> UB)
      | Panic \<Rightarrow> Panic
      | UB \<Rightarrow> UB)"

definition completes_last :: "'a io_poll list \<Rightarrow> bool" where
  "completes_last rs \<longleftrightarrow> (\<forall>i. Suc i < length rs \<longrightarrow> rs ! i = Inr NotReady)"

text \<open>
  Every poll up to the last answer is answered, all but the last with \<open>NotReady\<close>, and a sequence of polls panics
  exactly when it goes on after an answer that was not \<open>NotReady\<close>.
\<close>

definition completes_once ::
  "(task \<Rightarrow> 'st \<Rightarrow> 's \<Rightarrow> ('a io_poll \<times> 'st \<times> 's) rust) \<Rightarrow> (task \<times> 's) list \<Rightarrow> 'st \<Rightarrow> bool" where
  "completes_once poll_once xs st \<longleftrightarrow>
     poll_seq poll_once xs st \<noteq> UB \<and>
     (\<forall>rs st'. poll_seq poll_once xs st = Val (rs, st') \<longrightarrow> length rs = length xs \<and> completes_last rs) \<and>
     (poll_seq poll_once xs st = Panic \<longleftrightarrow>
        (\<exists>k < length xs. \<exists>rs st'. poll_seq poll_once (take k xs) st = Val (rs, st') \<and>
           rs \<noteq> [] \<and> last rs \<noteq> Inr NotReady))"

context completing_future begin

lemma poll_seq_finished: "poll_seq poll_once xs finished = Val (rs, st) \<Longrightarrow> rs = [] \<and> st = finished"
  by (cases xs) (auto simp: finished_panics)

lemma poll_seq_completes_last: "poll_seq poll_once xs st = Val (rs, st') \<Longrightarrow> completes_last rs"
proof (induction xs arbitrary: st rs)
  case (Cons x xs)
  obtain t n where x: "x = (t, n)" by (cases x)
  then obtain r st1 n' rs1 where step: "poll_once t st n = Val (r, st1, n')"
    and rest: "poll_seq poll_once xs st1 = Val (rs1, st')" and rs: "rs = r # rs1"
    using Cons.prems by (auto split: rust.splits)
  have "completes_last rs1" using Cons.IH [OF rest] .
  moreover have "rs1 \<noteq> [] \<Longrightarrow> r = Inr NotReady"
    using completes [OF step] rest poll_seq_finished by blast
  ultimately show ?case
    by (auto simp: completes_last_def rs nth_Cons split: nat.splits)
qed (simp add: completes_last_def)

lemma poll_seq_length: "poll_seq poll_once xs st = Val (rs, st') \<Longrightarrow> length rs = length xs"
  by (induction xs arbitrary: st rs) (auto split: rust.splits)

lemma poll_seq_waits:
  "poll_seq poll_once xs st = Val (rs, st') \<Longrightarrow> rs \<noteq> [] \<Longrightarrow>
   (if last rs = Inr NotReady then waits_on st' \<noteq> None else st' = finished)"
proof (induction xs arbitrary: st rs)
  case (Cons x xs)
  obtain t n where x: "x = (t, n)" by (cases x)
  then obtain r st1 n' rs1 where step: "poll_once t st n = Val (r, st1, n')"
    and rest: "poll_seq poll_once xs st1 = Val (rs1, st')" and rs: "rs = r # rs1"
    using Cons.prems by (auto split: rust.splits)
  show ?case
  proof (cases rs1)
    case Nil
    then have "xs = []" using rest by (cases xs) (auto split: rust.splits)
    then have "st1 = st'" using rest by simp
    then show ?thesis
      using completes [OF step] pending_registers [of t st n st1 n'] step rs Nil by auto
  next
    case (Cons y ys)
    then show ?thesis using Cons.IH [OF rest] rs by simp
  qed
qed simp

end

end
