(* ===== verification/EpollNet.thy ===== *)
theory EpollNet
  imports EpollSteps Futures
begin

text \<open>
  Sockets over the epoll backend (\<open>src/src/epoll/net.rs\<close>): listeners, streams and datagram sockets, and
  the futures that accept, connect, read, write, receive and send.

  A socket is an \<open>Arc\<close> of the standard library's socket and its \<open>FuturesRegistration\<close>; \<open>socks\<close> holds
  these allocations with their counts, so that the drop of the last one is visible: its fields are
  dropped in the order of their declaration, the descriptor before the registration.  A future takes
  its state out when it is polled, leaving the state that panics.
\<close>

subsection \<open>Sockets\<close>

record sock =
  refs :: nat
  std_fd :: fd
  sock_reg :: futures_registration
  sock_handle :: bool

record net =
  queue :: epoll
  socks :: "nat \<rightharpoonup> sock"
  next_sock :: nat

definition on_queue :: "(epoll \<Rightarrow> 'a \<times> epoll) \<Rightarrow> net \<Rightarrow> 'a \<times> net" where
  "on_queue f n = (let (x, q) = f (queue n) in (x, n\<lparr>queue := q\<rparr>))"

definition upd_queue :: "(epoll \<Rightarrow> epoll) \<Rightarrow> net \<Rightarrow> net" where
  "upd_queue f n = n\<lparr>queue := f (queue n)\<rparr>"

definition close_fd :: "env \<Rightarrow> fd \<Rightarrow> epoll \<Rightarrow> epoll" where
  "close_fd E fd q = snd (sys E (CloseFd fd) q)"

definition sock_fd :: "net \<Rightarrow> nat \<Rightarrow> fd" where
  "sock_fd n k = (case socks n k of Some x \<Rightarrow> std_fd x | None \<Rightarrow> - 1)"

definition sock_clone :: "nat \<Rightarrow> net \<Rightarrow> net" where
  "sock_clone k n = n\<lparr>socks := (socks n)(k := map_option (\<lambda>x. x\<lparr>refs := refs x + 1\<rparr>) (socks n k))\<rparr>"

definition sock_drop :: "env \<Rightarrow> nat \<Rightarrow> net \<Rightarrow> net" where
  "sock_drop E k n =
     (case socks n k of
        None \<Rightarrow> n
      | Some x \<Rightarrow>
          if refs x \<noteq> 1 then n\<lparr>socks := (socks n)(k \<mapsto> x\<lparr>refs := refs x - 1\<rparr>)\<rparr>
          else let q1 = close_fd E (std_fd x) (queue n);
                   q2 = Registration_drop E (fr_registration (sock_reg x)) q1;
                   q3 = (if sock_handle x then drop_inner E q2 else q2)
               in n\<lparr>queue := q3, socks := (socks n)(k := None)\<rparr>)"

text \<open>
  The three constructors: the descriptor is registered first, then made non-blocking.  On an error the
  registration is dropped before the socket, which the function owns.
\<close>

definition sock_new :: "env \<Rightarrow> bool \<Rightarrow> fd \<Rightarrow> net \<Rightarrow> (io_error + nat) \<times> net" where
  "sock_new E with_handle fd n =
     (case FuturesRegistration_new E fd (queue n) of
        (Inl e, q) \<Rightarrow> (Inl e, n\<lparr>queue := close_fd E fd q\<rparr>)
      | (Inr fr, q) \<Rightarrow>
          (case sys E (SetNonblocking fd) q of
             (Inl e, q1) \<Rightarrow>
               (Inl e, n\<lparr>queue := close_fd E fd (Registration_drop E (fr_registration fr) q1)\<rparr>)
           | (Inr _, q1) \<Rightarrow>
               (Inr (next_sock n), n\<lparr>queue := (if with_handle then handle q1 else q1),
                  socks := (socks n)(next_sock n \<mapsto> \<lparr>refs = 1, std_fd = fd, sock_reg = fr,
                    sock_handle = with_handle\<rparr>),
                  next_sock := next_sock n + 1\<rparr>)))"

definition TcpListener_from_listener :: "env \<Rightarrow> fd \<Rightarrow> net \<Rightarrow> (io_error + nat) \<times> net" where
  "TcpListener_from_listener E fd n = sock_new E True fd n"

definition TcpStream_from_stream :: "env \<Rightarrow> fd \<Rightarrow> net \<Rightarrow> (io_error + nat) \<times> net" where
  "TcpStream_from_stream E fd n = sock_new E False fd n"

definition UdpSocket_from_socket :: "env \<Rightarrow> fd \<Rightarrow> net \<Rightarrow> (io_error + nat) \<times> net" where
  "UdpSocket_from_socket E fd n = sock_new E False fd n"

text \<open>
  The two default methods of \<open>src/src/net.rs\<close>: the standard library makes a bound socket, which is then given
  to the constructor.
\<close>

definition TcpListener_bind :: "env \<Rightarrow> sockaddr \<Rightarrow> net \<Rightarrow> (io_error + nat) \<times> net" where
  "TcpListener_bind E a n =
     (case on_queue (sys E (BindTcp a)) n of
        (Inl e, n1) \<Rightarrow> (Inl e, n1)
      | (Inr fd, n1) \<Rightarrow> TcpListener_from_listener E fd n1)"

definition UdpSocket_bind :: "env \<Rightarrow> sockaddr \<Rightarrow> net \<Rightarrow> (io_error + nat) \<times> net" where
  "UdpSocket_bind E a n =
     (case on_queue (sys E (BindUdp a)) n of
        (Inl e, n1) \<Rightarrow> (Inl e, n1)
      | (Inr fd, n1) \<Rightarrow> UdpSocket_from_socket E fd n1)"

subsection \<open>What the polls share\<close>

text \<open>\<open>if let Some(Async::NotReady) = interest.as_ref().map(|x| x.poll())\<close>.\<close>

definition interest_ready :: "addr option \<Rightarrow> task \<Rightarrow> net \<Rightarrow> bool \<times> net" where
  "interest_ready i t n =
     (case i of
        None \<Rightarrow> (True, n)
      | Some j \<Rightarrow> on_queue (\<lambda>q. case FutureInterest_poll j t q of
            (NotReady, q1) \<Rightarrow> (False, q1) | (Ready _, q1) \<Rightarrow> (True, q1)) n)"

text \<open>
  What a poll does when the socket would block.  The future holds its socket: the case of a missing one
  is not taken.
\<close>

definition wait_for :: "env \<Rightarrow> nat \<Rightarrow> u32 \<Rightarrow> addr option \<Rightarrow> task \<Rightarrow> net \<Rightarrow> (io_error + addr) \<times> net" where
  "wait_for E k ev i t n =
     (case i of
        Some j \<Rightarrow> (Inr j, upd_queue (register j t) n)
      | None \<Rightarrow> (case socks n k of
            None \<Rightarrow> (Inl \<lparr>kind = OtherKind, raw_os_error = None\<rparr>, n)
          | Some x \<Rightarrow> on_queue (add_interest E (sock_reg x) ev t) n))"

definition sys_data :: "env \<Rightarrow> call \<Rightarrow> epoll \<Rightarrow> (io_error + u8 list) \<times> epoll" where
  "sys_data E c q = (let r = os_data E (trace q) c in (r, q\<lparr>trace := trace q @ [(c, is_ok r)]\<rparr>))"

text \<open>The end of a poll on the three ways out of the system call.\<close>

definition again ::
  "env \<Rightarrow> nat \<Rightarrow> u32 \<Rightarrow> addr option \<Rightarrow> task \<Rightarrow> (addr \<Rightarrow> 'st) \<Rightarrow> 'st \<Rightarrow> net \<Rightarrow> 'a io_poll \<times> 'st \<times> net" where
  "again E k ev i t pending none n =
     (case wait_for E k ev i t n of
        (Inl e, n1) \<Rightarrow> (Inl e, none, sock_drop E k n1)
      | (Inr j, n1) \<Rightarrow> (Inr NotReady, pending j, n1))"

subsection \<open>Accepting and connecting\<close>

datatype accept = AcceptPending nat "addr option" | AcceptNone

definition TcpListener_accept :: "nat \<Rightarrow> net \<Rightarrow> accept \<times> net" where
  "TcpListener_accept l n = (AcceptPending l None, sock_clone l n)"

definition Accept_poll ::
  "env \<Rightarrow> task \<Rightarrow> accept \<Rightarrow> net \<Rightarrow> ((nat \<times> sockaddr) io_poll \<times> accept \<times> net) rust" where
  "Accept_poll E t st n =
     (case st of
        AcceptNone \<Rightarrow> Panic
      | AcceptPending l i \<Rightarrow> Val
          (case interest_ready i t n of
             (False, n1) \<Rightarrow> (Inr NotReady, AcceptPending l i, n1)
           | (True, n1) \<Rightarrow>
               let c = Accept4 (sock_fd n1 l); peer = snd (os_peer E (trace (queue n1)) c) in
               (case on_queue (sys E c) n1 of
                  (Inr fd, n2) \<Rightarrow>
                    (case TcpStream_from_stream E fd n2 of
                       (Inl e, n3) \<Rightarrow> (Inl e, AcceptNone, sock_drop E l n3)
                     | (Inr k, n3) \<Rightarrow> (Inr (Ready (k, peer)), AcceptNone, sock_drop E l n3))
                | (Inl e, n2) \<Rightarrow>
                    if kind e = WouldBlock
                    then again E l (READ E) i t (\<lambda>j. AcceptPending l (Some j)) AcceptNone n2
                    else (Inl e, AcceptNone, sock_drop E l n2))))"

datatype connect = ConnectPending nat sockaddr "addr option" | ConnectError io_error | ConnectNone

definition TcpStream_connect_with :: "env \<Rightarrow> fd \<Rightarrow> sockaddr \<Rightarrow> net \<Rightarrow> connect \<times> net" where
  "TcpStream_connect_with E fd a n =
     (case TcpStream_from_stream E fd n of
        (Inr k, n1) \<Rightarrow> (ConnectPending k a None, n1)
      | (Inl e, n1) \<Rightarrow> (ConnectError e, n1))"

text \<open>\<open>net2\<close> makes the descriptor, of the family of the address.\<close>

definition TcpStream_connect :: "env \<Rightarrow> sockaddr \<Rightarrow> net \<Rightarrow> connect \<times> net" where
  "TcpStream_connect E a n =
     (case on_queue (sys E (NewTcpSocket a)) n of
        (Inr fd, n1) \<Rightarrow> TcpStream_connect_with E fd a n1
      | (Inl e, n1) \<Rightarrow> (ConnectError e, n1))"

definition Connect_poll :: "env \<Rightarrow> task \<Rightarrow> connect \<Rightarrow> net \<Rightarrow> (nat io_poll \<times> connect \<times> net) rust" where
  "Connect_poll E t st n =
     (case st of
        ConnectNone \<Rightarrow> Panic
      | ConnectError e \<Rightarrow> Val (Inl e, ConnectNone, n)
      | ConnectPending k a i \<Rightarrow> Val
          (case interest_ready i t n of
             (False, n1) \<Rightarrow> (Inr NotReady, ConnectPending k a i, n1)
           | (True, n1) \<Rightarrow>
               (case on_queue (sys E (ConnectTo (sock_fd n1 k) a)) n1 of
                  (Inr _, n2) \<Rightarrow> (Inr (Ready k), ConnectNone, n2)
                | (Inl e, n2) \<Rightarrow>
                    if kind e = WouldBlock \<or> raw_os_error e = Some (einprogress E)
                    then again E k (WRITE E) i t (\<lambda>j. ConnectPending k a (Some j)) ConnectNone n2
                    else (Inl e, ConnectNone, sock_drop E k n2))))"

subsection \<open>Reading and writing\<close>

text \<open>
  A \<open>BytesMut\<close>: the memory from its pointer to its capacity, and its length.  \<open>recv\<close> writes at the
  start of the memory, and may write up to the capacity.
\<close>

record bytes_mut =
  mem :: "u8 list"
  blen :: nat

definition capacity :: "bytes_mut \<Rightarrow> nat" where
  "capacity b = length (mem b)"

definition bytes :: "bytes_mut \<Rightarrow> u8 list" where
  "bytes b = take (blen b) (mem b)"

definition receive :: "u8 list \<Rightarrow> bytes_mut \<Rightarrow> bytes_mut" where
  "receive ds b = b\<lparr>mem := ds @ drop (length ds) (mem b),
     blen := (if length ds > blen b then length ds else blen b)\<rparr>"

datatype tcp_read = ReadPending nat bytes_mut "addr option" | ReadNone

definition TcpRead_poll ::
  "env \<Rightarrow> task \<Rightarrow> tcp_read \<Rightarrow> net \<Rightarrow> ((nat \<times> bytes_mut \<times> nat) io_poll \<times> tcp_read \<times> net) rust" where
  "TcpRead_poll E t st n =
     (case st of
        ReadNone \<Rightarrow> Panic
      | ReadPending k b i \<Rightarrow> Val
          (case interest_ready i t n of
             (False, n1) \<Rightarrow> (Inr NotReady, ReadPending k b i, n1)
           | (True, n1) \<Rightarrow>
               (case on_queue (sys_data E (Recv (sock_fd n1 k) (capacity b))) n1 of
                  (Inr ds, n2) \<Rightarrow> (Inr (Ready (k, receive ds b, length ds)), ReadNone, n2)
                | (Inl e, n2) \<Rightarrow>
                    if kind e = WouldBlock
                    then again E k (READ E) i t (\<lambda>j. ReadPending k b (Some j)) ReadNone n2
                    else (Inl e, ReadNone, sock_drop E k n2))))"

text \<open>\<open>AsyncRead::read\<close> and \<open>AsyncWrite::write\<close> move the handle into the future.\<close>

definition TcpStream_read :: "nat \<Rightarrow> bytes_mut \<Rightarrow> tcp_read" where
  "TcpStream_read k b = ReadPending k b None"

datatype tcp_write = WritePending nat "u8 list" "addr option" | WriteNone

definition TcpStream_write :: "nat \<Rightarrow> u8 list \<Rightarrow> tcp_write" where
  "TcpStream_write k bs = WritePending k bs None"

definition TcpWrite_poll ::
  "env \<Rightarrow> task \<Rightarrow> tcp_write \<Rightarrow> net \<Rightarrow> ((nat \<times> u8 list \<times> nat) io_poll \<times> tcp_write \<times> net) rust" where
  "TcpWrite_poll E t st n =
     (case st of
        WriteNone \<Rightarrow> Panic
      | WritePending k bs i \<Rightarrow> Val
          (case interest_ready i t n of
             (False, n1) \<Rightarrow> (Inr NotReady, WritePending k bs i, n1)
           | (True, n1) \<Rightarrow>
               (case on_queue (sys E (Send (sock_fd n1 k) bs)) n1 of
                  (Inr c, n2) \<Rightarrow> (Inr (Ready (k, bs, nat c)), WriteNone, n2)
                | (Inl e, n2) \<Rightarrow>
                    if kind e = WouldBlock
                    then again E k (WRITE E) i t (\<lambda>j. WritePending k bs (Some j)) WriteNone n2
                    else (Inl e, WriteNone, sock_drop E k n2))))"

subsection \<open>Datagrams\<close>

datatype recv_from = RecvFromPending nat bytes_mut "addr option" | RecvFromNone

definition UdpSocket_recv_from :: "nat \<Rightarrow> bytes_mut \<Rightarrow> recv_from" where
  "UdpSocket_recv_from k b = RecvFromPending k b None"

definition UdpSocket_connect :: "env \<Rightarrow> nat \<Rightarrow> sockaddr \<Rightarrow> net \<Rightarrow> (io_error + int) \<times> net" where
  "UdpSocket_connect E k a n = on_queue (sys E (ConnectTo (sock_fd n k) a)) n"

definition RecvFrom_poll ::
  "env \<Rightarrow> task \<Rightarrow> recv_from \<Rightarrow> net \<Rightarrow>
     ((nat \<times> bytes_mut \<times> nat \<times> sockaddr) io_poll \<times> recv_from \<times> net) rust" where
  "RecvFrom_poll E t st n =
     (case st of
        RecvFromNone \<Rightarrow> Panic
      | RecvFromPending k b i \<Rightarrow> Val
          (case interest_ready i t n of
             (False, n1) \<Rightarrow> (Inr NotReady, RecvFromPending k b i, n1)
           | (True, n1) \<Rightarrow>
               let c = RecvFromSock (sock_fd n1 k) (capacity b);
                   peer = snd (os_peer E (trace (queue n1)) c) in
               (case on_queue (sys_data E c) n1 of
                  (Inr ds, n2) \<Rightarrow> (Inr (Ready (k, receive ds b, length ds, peer)), RecvFromNone, n2)
                | (Inl e, n2) \<Rightarrow>
                    if kind e = WouldBlock
                    then again E k (READ E) i t (\<lambda>j. RecvFromPending k b (Some j)) RecvFromNone n2
                    else (Inl e, RecvFromNone, sock_drop E k n2))))"

datatype send_to = SendToPending nat "u8 list" sockaddr "addr option" | SendToNone

definition write_zero :: io_error where
  "write_zero = \<lparr>kind = WriteZero, raw_os_error = None\<rparr>"

definition UdpSocket_send_to :: "nat \<Rightarrow> u8 list \<Rightarrow> sockaddr \<Rightarrow> send_to" where
  "UdpSocket_send_to k bs a = SendToPending k bs a None"

definition SendTo_poll ::
  "env \<Rightarrow> task \<Rightarrow> send_to \<Rightarrow> net \<Rightarrow> ((nat \<times> u8 list) io_poll \<times> send_to \<times> net) rust" where
  "SendTo_poll E t st n =
     (case st of
        SendToNone \<Rightarrow> Panic
      | SendToPending k bs a i \<Rightarrow> Val
          (case interest_ready i t n of
             (False, n1) \<Rightarrow> (Inr NotReady, SendToPending k bs a i, n1)
           | (True, n1) \<Rightarrow>
               (case on_queue (sys E (SendToSock (sock_fd n1 k) bs a)) n1 of
                  (Inr c, n2) \<Rightarrow>
                    if c \<noteq> int (length bs) then (Inl write_zero, SendToNone, sock_drop E k n2)
                    else (Inr (Ready (k, bs)), SendToNone, n2)
                | (Inl e, n2) \<Rightarrow>
                    if kind e = WouldBlock
                    then again E k (WRITE E) i t (\<lambda>j. SendToPending k bs a (Some j)) SendToNone n2
                    else (Inl e, SendToNone, sock_drop E k n2))))"


subsection \<open>What the log shows\<close>

definition logged :: "call \<Rightarrow> net \<Rightarrow> net \<Rightarrow> bool" where
  "logged c n n' \<longleftrightarrow> (\<exists>xs ys. trace (queue n') = trace (queue n) @ xs @ (c, True) # ys)"

definition grows :: "net \<Rightarrow> net \<Rightarrow> bool" where
  "grows n n' \<longleftrightarrow> (\<exists>xs. trace (queue n') = trace (queue n) @ xs)"

lemma loggedI: "trace (queue n') = trace (queue n) @ xs @ (c, True) # ys \<Longrightarrow> logged c n n'"
  by (auto simp: logged_def)

lemma grows_logged:
  assumes "grows n n'" and "logged c n' n''"
  shows "logged c n n''"
proof -
  obtain zs xs ys where "trace (queue n') = trace (queue n) @ zs"
    "trace (queue n'') = trace (queue n') @ xs @ (c, True) # ys"
    using assms by (auto simp: grows_def logged_def)
  then have "trace (queue n'') = trace (queue n) @ (zs @ xs) @ (c, True) # ys" by simp
  then show ?thesis by (rule loggedI)
qed

lemma on_queue_sys: "on_queue (sys E c) n = (r, n') \<Longrightarrow> grows n n' \<and> socks n' = socks n"
  by (auto simp: on_queue_def sys_def grows_def Let_def)

lemma on_queue_sys_data: "on_queue (sys_data E c) n = (r, n') \<Longrightarrow> grows n n' \<and> socks n' = socks n"
  by (auto simp: on_queue_def sys_data_def grows_def Let_def)

lemma interest_ready_cases:
  assumes "interest_ready i t n = (b, n')"
  obtains (no_interest) "i = None" "b" "n' = n"
  | (fired) j where "i = Some j" "b" "fired (queue n) j" "n' = n"
  | (waiting) j where "i = Some j" "\<not> b" "\<not> fired (queue n) j" "n' = upd_queue (register j t) n"
proof -
  have upd: "n\<lparr>queue := queue n\<rparr> = n" by simp
  show ?thesis
    using assms that
    by (auto simp: interest_ready_def on_queue_def upd_queue_def FutureInterest_poll_def upd
        split: option.splits if_splits)
qed

lemma register_logged: "logged (TaskRegister j t) n (upd_queue (register j t) n)"
  by (auto simp: logged_def upd_queue_def register_def)

lemma add_interest_logged:
  "add_interest E fr ev t q = (Inr j, q') \<Longrightarrow> \<exists>ys. trace q' = trace q @ (TaskRegister j t, True) # ys"
  by (auto simp: add_interest_def Let_def register_def emit_def modify_def sys_def
      split: if_splits prod.splits sum.splits option.splits)

lemma wait_for_logged:
  assumes "wait_for E k ev i t n = (Inr j, n')"
  shows "logged (TaskRegister j t) n n'"
proof (cases i)
  case None
  then obtain x :: sock where x: "on_queue (add_interest E (sock_reg x) ev t) n = (Inr j, n')"
    using assms by (auto simp: wait_for_def split: option.splits)
  obtain r q where q: "add_interest E (sock_reg x) ev t (queue n) = (r, q)"
    by (cases "add_interest E (sock_reg x) ev t (queue n)")
  with x have "add_interest E (sock_reg x) ev t (queue n) = (Inr j, q)" "n' = n\<lparr>queue := q\<rparr>"
    by (auto simp: on_queue_def)
  moreover from this obtain ys where "trace q = trace (queue n) @ [] @ (TaskRegister j t, True) # ys"
    using add_interest_logged by fastforce
  ultimately show ?thesis by (intro loggedI [where xs = "[]"]) simp
next
  case (Some j')
  then show ?thesis using assms register_logged by (auto simp: wait_for_def)
qed

lemma again_cases:
  assumes "again E k ev i t pending none n = (r, st, n')"
  obtains (waits) j where "r = Inr NotReady" "st = pending j" "logged (TaskRegister j t) n n'"
  | (fails) e where "r = Inl e" "st = none"
  using assms that wait_for_logged
  by (fastforce simp: again_def split: prod.splits sum.splits)

subsection \<open>The contract of the futures\<close>

text \<open>The futures over epoll do not panic before they are done.\<close>

locale one_shot_future =
  completing_future poll_once waits_on "\<lambda>j t n n'. logged (TaskRegister j t) n n'" finished
  for poll_once :: "task \<Rightarrow> 'st \<Rightarrow> net \<Rightarrow> ('a io_poll \<times> 'st \<times> net) rust"
    and waits_on :: "'st \<Rightarrow> addr option"
    and finished :: 'st +
  assumes total: "st \<noteq> finished \<Longrightarrow> poll_once t st n \<noteq> Panic \<and> poll_once t st n \<noteq> UB"

context one_shot_future begin

lemma poll_seq_completes_once: "st \<noteq> finished \<Longrightarrow> completes_once poll_once xs st"
proof (induction xs arbitrary: st)
  case Nil
  then show ?case by (simp add: completes_once_def completes_last_def)
next
  case (Cons x xs)
  obtain t n where x: "x = (t, n)" by (cases x)
  obtain r st1 n1 where step: "poll_once t st n = Val (r, st1, n1)"
    using total [OF Cons.prems, of t n] by (cases "poll_once t st n") auto
  let ?more = "\<lambda>ys st. \<exists>k < length ys. \<exists>rs st'. poll_seq poll_once (take k ys) st = Val (rs, st') \<and>
    rs \<noteq> [] \<and> last rs \<noteq> Inr NotReady"
  have vals: "length rs = length (x # xs) \<and> completes_last rs"
    if "poll_seq poll_once (x # xs) st = Val (rs, st')" for rs st'
    using poll_seq_length [OF that] poll_seq_completes_last [OF that] by simp
  show ?case
  proof (cases "r = Inr NotReady")
    case True
    then have "completes_once poll_once xs st1"
      using Cons.IH pending_registers [of t st n st1 n1] step by blast
    moreover have "?more (x # xs) st \<longleftrightarrow> ?more xs st1"
    proof
      assume "?more (x # xs) st"
      then obtain k rs st' where k: "k < Suc (length xs)" "poll_seq poll_once (take k (x # xs)) st = Val (rs, st')"
        "rs \<noteq> []" "last rs \<noteq> Inr NotReady" by auto
      then obtain j where "k = Suc j" by (cases k) auto
      with k x step True obtain rs1 where "poll_seq poll_once (take j xs) st1 = Val (rs1, st')" "rs = r # rs1"
        by (auto split: rust.splits)
      moreover from this have "rs1 \<noteq> []" "last rs1 \<noteq> Inr NotReady" using k(4) True by (auto split: if_splits)
      ultimately show "?more xs st1" using k(1) \<open>k = Suc j\<close> by (intro exI [of _ j]) auto
    next
      assume "?more xs st1"
      then obtain k rs st' where "k < length xs" "poll_seq poll_once (take k xs) st1 = Val (rs, st')"
        "rs \<noteq> []" "last rs \<noteq> Inr NotReady" by blast
      with x step show "?more (x # xs) st"
        by (intro exI [of _ "Suc k"] conjI exI [of _ "r # rs"] exI [of _ st']) simp_all
    qed
    ultimately show ?thesis
      using x step vals by (auto simp: completes_once_def split: rust.splits)
  next
    case False
    then have fin: "st1 = finished" using completes [OF step] by blast
    show ?thesis
    proof (cases xs)
      case Nil
      then show ?thesis using x step vals by (auto simp: completes_once_def)
    next
      case (Cons y ys)
      then have "poll_seq poll_once (x # xs) st = Panic"
        using x step fin by (cases y) (simp add: finished_panics)
      moreover have "?more (x # xs) st"
        using x step False Cons by (intro exI [of _ 1] conjI exI [of _ "[r]"] exI [of _ st1]) simp_all
      ultimately show ?thesis by (simp add: completes_once_def)
    qed
  qed
qed

end

text \<open>The interest a pending state waits on.\<close>

fun accept_interest :: "accept \<Rightarrow> addr option" where
  "accept_interest (AcceptPending l i) = i"
| "accept_interest AcceptNone = None"

fun connect_interest :: "connect \<Rightarrow> addr option" where
  "connect_interest (ConnectPending k a i) = i"
| "connect_interest _ = None"

fun read_interest :: "tcp_read \<Rightarrow> addr option" where
  "read_interest (ReadPending k b i) = i"
| "read_interest ReadNone = None"

fun write_interest :: "tcp_write \<Rightarrow> addr option" where
  "write_interest (WritePending k bs i) = i"
| "write_interest WriteNone = None"

fun recv_from_interest :: "recv_from \<Rightarrow> addr option" where
  "recv_from_interest (RecvFromPending k b i) = i"
| "recv_from_interest RecvFromNone = None"

fun send_to_interest :: "send_to \<Rightarrow> addr option" where
  "send_to_interest (SendToPending k bs a i) = i"
| "send_to_interest SendToNone = None"

lemma waiting_registers:
  "interest_ready i t n = (False, n') \<Longrightarrow> \<exists>j. i = Some j \<and> logged (TaskRegister j t) n n'"
  by (erule interest_ready_cases) (auto simp: register_logged)

lemma ready_same: "interest_ready i t n = (True, n') \<Longrightarrow> n' = n"
  by (erule interest_ready_cases) auto

lemma again_registers:
  "again E k ev i t pending none n2 = (Inr NotReady, st, n') \<Longrightarrow> grows n n2 \<Longrightarrow>
   \<exists>j. st = pending j \<and> logged (TaskRegister j t) n n'"
  by (erule again_cases) (auto intro: grows_logged)

lemma again_completes: "again E k ev i t pending none n = (r, st, n') \<Longrightarrow> r \<noteq> Inr NotReady \<Longrightarrow> st = none"
  by (erule again_cases) auto

interpretation accept: one_shot_future "Accept_poll E" accept_interest AcceptNone for E
proof
  show "Accept_poll E t st n \<noteq> Panic \<and> Accept_poll E t st n \<noteq> UB" if "st \<noteq> AcceptNone" for t st n
    using that by (cases st) (auto simp: Accept_poll_def)
  show "st' = AcceptNone" if "Accept_poll E t st n = Val (r, st', n')" "r \<noteq> Inr NotReady" for t st n r st' n'
    using that by (auto simp: Accept_poll_def Let_def dest: again_completes
        split: accept.splits prod.splits bool.splits sum.splits if_splits)
  show "st' \<noteq> AcceptNone \<and> (\<exists>j. accept_interest st' = Some j \<and> logged (TaskRegister j t) n n')"
    if "Accept_poll E t st n = Val (Inr NotReady, st', n')" for t st n st' n'
    using that by (auto simp: Accept_poll_def Let_def dest!: waiting_registers ready_same on_queue_sys
        split: accept.splits prod.splits bool.splits sum.splits if_splits dest: again_registers)
qed (simp add: Accept_poll_def)

interpretation connect: one_shot_future "Connect_poll E" connect_interest ConnectNone for E
proof
  show "Connect_poll E t st n \<noteq> Panic \<and> Connect_poll E t st n \<noteq> UB" if "st \<noteq> ConnectNone" for t st n
    using that by (cases st) (auto simp: Connect_poll_def)
  show "st' = ConnectNone" if "Connect_poll E t st n = Val (r, st', n')" "r \<noteq> Inr NotReady" for t st n r st' n'
    using that by (auto simp: Connect_poll_def Let_def dest: again_completes
        split: connect.splits prod.splits bool.splits sum.splits if_splits)
  show "st' \<noteq> ConnectNone \<and> (\<exists>j. connect_interest st' = Some j \<and> logged (TaskRegister j t) n n')"
    if "Connect_poll E t st n = Val (Inr NotReady, st', n')" for t st n st' n'
    using that by (auto simp: Connect_poll_def Let_def dest!: waiting_registers ready_same on_queue_sys
        split: connect.splits prod.splits bool.splits sum.splits if_splits dest: again_registers)
qed (simp add: Connect_poll_def)

interpretation tcp_read: one_shot_future "TcpRead_poll E" read_interest ReadNone for E
proof
  show "TcpRead_poll E t st n \<noteq> Panic \<and> TcpRead_poll E t st n \<noteq> UB" if "st \<noteq> ReadNone" for t st n
    using that by (cases st) (auto simp: TcpRead_poll_def)
  show "st' = ReadNone" if "TcpRead_poll E t st n = Val (r, st', n')" "r \<noteq> Inr NotReady" for t st n r st' n'
    using that by (auto simp: TcpRead_poll_def Let_def dest: again_completes
        split: tcp_read.splits prod.splits bool.splits sum.splits if_splits)
  show "st' \<noteq> ReadNone \<and> (\<exists>j. read_interest st' = Some j \<and> logged (TaskRegister j t) n n')"
    if "TcpRead_poll E t st n = Val (Inr NotReady, st', n')" for t st n st' n'
    using that by (auto simp: TcpRead_poll_def Let_def dest!: waiting_registers ready_same on_queue_sys_data
        split: tcp_read.splits prod.splits bool.splits sum.splits if_splits dest: again_registers)
qed (simp add: TcpRead_poll_def)

interpretation tcp_write: one_shot_future "TcpWrite_poll E" write_interest WriteNone for E
proof
  show "TcpWrite_poll E t st n \<noteq> Panic \<and> TcpWrite_poll E t st n \<noteq> UB" if "st \<noteq> WriteNone" for t st n
    using that by (cases st) (auto simp: TcpWrite_poll_def)
  show "st' = WriteNone" if "TcpWrite_poll E t st n = Val (r, st', n')" "r \<noteq> Inr NotReady" for t st n r st' n'
    using that by (auto simp: TcpWrite_poll_def Let_def dest: again_completes
        split: tcp_write.splits prod.splits bool.splits sum.splits if_splits)
  show "st' \<noteq> WriteNone \<and> (\<exists>j. write_interest st' = Some j \<and> logged (TaskRegister j t) n n')"
    if "TcpWrite_poll E t st n = Val (Inr NotReady, st', n')" for t st n st' n'
    using that by (auto simp: TcpWrite_poll_def Let_def dest!: waiting_registers ready_same on_queue_sys
        split: tcp_write.splits prod.splits bool.splits sum.splits if_splits dest: again_registers)
qed (simp add: TcpWrite_poll_def)

interpretation recv_from: one_shot_future "RecvFrom_poll E" recv_from_interest RecvFromNone for E
proof
  show "RecvFrom_poll E t st n \<noteq> Panic \<and> RecvFrom_poll E t st n \<noteq> UB" if "st \<noteq> RecvFromNone" for t st n
    using that by (cases st) (auto simp: RecvFrom_poll_def)
  show "st' = RecvFromNone" if "RecvFrom_poll E t st n = Val (r, st', n')" "r \<noteq> Inr NotReady" for t st n r st' n'
    using that by (auto simp: RecvFrom_poll_def Let_def dest: again_completes
        split: recv_from.splits prod.splits bool.splits sum.splits if_splits)
  show "st' \<noteq> RecvFromNone \<and> (\<exists>j. recv_from_interest st' = Some j \<and> logged (TaskRegister j t) n n')"
    if "RecvFrom_poll E t st n = Val (Inr NotReady, st', n')" for t st n st' n'
    using that by (auto simp: RecvFrom_poll_def Let_def dest!: waiting_registers ready_same on_queue_sys_data
        split: recv_from.splits prod.splits bool.splits sum.splits if_splits dest: again_registers)
qed (simp add: RecvFrom_poll_def)

interpretation send_to: one_shot_future "SendTo_poll E" send_to_interest SendToNone for E
proof
  show "SendTo_poll E t st n \<noteq> Panic \<and> SendTo_poll E t st n \<noteq> UB" if "st \<noteq> SendToNone" for t st n
    using that by (cases st) (auto simp: SendTo_poll_def)
  show "st' = SendToNone" if "SendTo_poll E t st n = Val (r, st', n')" "r \<noteq> Inr NotReady" for t st n r st' n'
    using that by (auto simp: SendTo_poll_def Let_def dest: again_completes
        split: send_to.splits prod.splits bool.splits sum.splits if_splits)
  show "st' \<noteq> SendToNone \<and> (\<exists>j. send_to_interest st' = Some j \<and> logged (TaskRegister j t) n n')"
    if "SendTo_poll E t st n = Val (Inr NotReady, st', n')" for t st n st' n'
    using that by (auto simp: SendTo_poll_def Let_def dest!: waiting_registers ready_same on_queue_sys
        split: send_to.splits prod.splits bool.splits sum.splits if_splits dest: again_registers)
qed (simp add: SendTo_poll_def)


subsection \<open>A connected stream\<close>

text \<open>
  A stream on descriptor 5, on a kernel where \<open>send\<close> would block at first; later its interest has been
  fired.
\<close>

definition would_block :: io_error where
  "would_block = \<lparr>kind = WouldBlock, raw_os_error = Some 11\<rparr>"

definition linux_busy :: env where
  "linux_busy = linux\<lparr>os_int := (\<lambda>tr c. if length tr < 10 \<and> c = Send 5 [1, 2] then Inl would_block
     else Inr (linux_int c)),
     os_data := (\<lambda>tr c. if length tr < 10 then Inl would_block else Inr [104, 105])\<rparr>"

definition demo_net :: net where
  "demo_net = snd (TcpStream_from_stream linux_busy 5
     \<lparr>queue = projr (Epoll_new linux_busy []), socks = Map.empty, next_sock = 0\<rparr>)"

definition demo_net_later :: net where
  "demo_net_later = demo_net\<lparr>queue := (queue demo_net)\<lparr>trace := replicate 10 (EpollCreate1, True),
     fired := (\<lambda>_. True)\<rparr>\<rparr>"

lemmas demo_net_defs = demo_net_def demo_net_later_def linux_busy_def linux_def TcpStream_from_stream_def
  sock_new_def Epoll_new_def FuturesRegistration_new_def register_fd_raw_def sys_def

subsection \<open>The properties\<close>

text \<open>
  C14. Each of the six socket futures completes once: polled in any states of the sockets by any tasks, it
  answers every poll up to its last answer, each but the last with \<open>NotReady\<close>, and panics exactly when it
  is polled again after that.  (\<open>AcceptNone\<close> and its like are the states of a future that has been taken.)
\<close>

theorem futures_complete_once:
  "(a \<noteq> AcceptNone \<longrightarrow> completes_once (Accept_poll E) xs a) \<and>
   (c \<noteq> ConnectNone \<longrightarrow> completes_once (Connect_poll E) xs c) \<and>
   (r \<noteq> ReadNone \<longrightarrow> completes_once (TcpRead_poll E) xs r) \<and>
   (w \<noteq> WriteNone \<longrightarrow> completes_once (TcpWrite_poll E) xs w) \<and>
   (v \<noteq> RecvFromNone \<longrightarrow> completes_once (RecvFrom_poll E) xs v) \<and>
   (s \<noteq> SendToNone \<longrightarrow> completes_once (SendTo_poll E) xs s)"
  by (simp add: accept.poll_seq_completes_once connect.poll_seq_completes_once
      tcp_read.poll_seq_completes_once tcp_write.poll_seq_completes_once
      recv_from.poll_seq_completes_once send_to.poll_seq_completes_once)

text \<open>A write that blocks, is ready, and is polled once more.\<close>

theorem futures_complete_once_witness:
  "poll_seq (TcpWrite_poll linux_busy) [(7, demo_net), (7, demo_net_later), (7, demo_net_later)]
     (WritePending 0 [1, 2] None) = Panic \<and>
   (\<exists>k < Suc (Suc (Suc 0)). \<exists>rs st. poll_seq (TcpWrite_poll linux_busy)
      (take k [(7, demo_net), (7, demo_net_later), (7, demo_net_later)]) (WritePending 0 [1, 2] None) = Val (rs, st) \<and>
      rs \<noteq> [] \<and> last rs \<noteq> Inr NotReady)"
proof -
  let ?xs = "[(7, demo_net), (7, demo_net_later), (7, demo_net_later)]"
  have "poll_seq (TcpWrite_poll linux_busy) ?xs (WritePending 0 [1, 2] None) = Panic"
    by (simp add: TcpWrite_poll_def interest_ready_def on_queue_def sock_fd_def demo_net_defs Let_def
        again_def wait_for_def add_interest_def register_def emit_def modify_def FutureInterest_poll_def
        would_block_def)
  moreover have "completes_once (TcpWrite_poll linux_busy) ?xs (WritePending 0 [1, 2] None)"
    using futures_complete_once [of AcceptNone linux_busy ?xs ConnectNone ReadNone "WritePending 0 [1, 2] None"
        RecvFromNone SendToNone] by blast
  ultimately show ?thesis unfolding completes_once_def by simp
qed

lemma bytes_receive:
  assumes "length ds \<le> capacity b" and "blen b \<le> capacity b"
  shows "bytes (receive ds b) = ds @ drop (length ds) (bytes b) \<and>
    blen (receive ds b) = max (blen b) (length ds) \<and> capacity (receive ds b) = capacity b"
  using assms by (auto simp: receive_def bytes_def capacity_def drop_take max_def)


lemma waiting_not_ready: "interest_ready i t n = (False, n') \<Longrightarrow> i \<noteq> None"
  by (erule interest_ready_cases) auto

text \<open>\<open>recv\<close> delivers at most as many bytes as it was given room for.\<close>

definition recv_fits :: "env \<Rightarrow> bool" where
  "recv_fits E \<longleftrightarrow>
     (\<forall>tr fd c ds. os_data E tr (Recv fd c) = Inr ds \<longrightarrow> length ds \<le> c)"

text \<open>
  C27. A \<open>TcpRead\<close> that is ready hands back the stream, and exactly what \<open>recv\<close> delivered: the received
  bytes at the start of the buffer, the bytes behind them as they were, the length grown to the count
  and never shrunk, the capacity unchanged.
\<close>

theorem tcp_read_delivers:
  assumes "recv_fits E" and "blen b \<le> capacity b"
    and "TcpRead_poll E t (ReadPending k b i) n = Val (Inr (Ready (k', b', c)), st, n')"
  shows "\<exists>ds. os_data E (trace (queue n)) (Recv (sock_fd n k) (capacity b)) = Inr ds \<and>
    k' = k \<and> c = length ds \<and> bytes b' = ds @ drop c (bytes b) \<and>
    blen b' = max (blen b) c \<and> capacity b' = capacity b"
proof -
  have ready: "interest_ready i t n = (True, n)"
    using assms(3) ready_same by (cases "interest_ready i t n") (auto simp: TcpRead_poll_def split: bool.splits)
  have "\<exists>ds. os_data E (trace (queue n)) (Recv (sock_fd n k) (capacity b)) = Inr ds \<and>
      k' = k \<and> b' = receive ds b \<and> c = length ds"
  proof (cases "os_data E (trace (queue n)) (Recv (sock_fd n k) (capacity b))")
    case (Inl e)
    have "again E k (READ E) i t (\<lambda>j. ReadPending k b (Some j)) ReadNone n2 \<noteq> (Inr (Ready y), s, m)"
      for n2 s m and y :: "nat \<times> bytes_mut \<times> nat"
      by (auto elim!: again_cases)
    then show ?thesis
      using assms(3) ready Inl
      by (auto simp: TcpRead_poll_def on_queue_def sys_data_def Let_def split: if_splits)
  next
    case (Inr ds)
    then show ?thesis
      using assms(3) ready
      by (auto simp: TcpRead_poll_def on_queue_def sys_data_def Let_def)
  qed
  then obtain ds where ds: "os_data E (trace (queue n)) (Recv (sock_fd n k) (capacity b)) = Inr ds"
    "k' = k" "b' = receive ds b" "c = length ds" by blast
  then have "length ds \<le> capacity b" using assms(1) by (auto simp: recv_fits_def)
  then show ?thesis using bytes_receive [OF _ assms(2)] ds by blast
qed

definition linux_hi :: env where
  "linux_hi = linux\<lparr>os_data := (\<lambda>_ c. case c of Recv _ m \<Rightarrow> Inr (take m [104, 105]) | _ \<Rightarrow> Inr [])\<rparr>"

theorem tcp_read_delivers_witness:
  "\<exists>b' st n'. TcpRead_poll linux_hi 7 (ReadPending 0 \<lparr>mem = [1, 2, 3, 4], blen = 3\<rparr> (Some 4)) demo_net_later =
       Val (Inr (Ready (0, b', 2)), st, n') \<and> bytes b' = [104, 105, 3]"
proof -
  let ?b = "\<lparr>mem = [1, 2, 3, 4], blen = 3\<rparr> :: bytes_mut"
  have fits: "recv_fits linux_hi" by (simp add: recv_fits_def linux_hi_def)
  obtain b' st n' where poll: "TcpRead_poll linux_hi 7 (ReadPending 0 ?b (Some 4)) demo_net_later =
      Val (Inr (Ready (0, b', 2)), st, n')"
    by (simp add: TcpRead_poll_def interest_ready_def on_queue_def sys_data_def linux_hi_def
        demo_net_defs Let_def FutureInterest_poll_def capacity_def)
  have "bytes b' = [104, 105, 3]"
    using tcp_read_delivers [OF fits _ poll]
    by (auto simp: linux_hi_def capacity_def bytes_def)
  with poll show ?thesis by blast
qed

text \<open>
  A \<open>SendTo\<close> is ready only when the socket took the whole datagram, and gives back the buffer it was
  given; a datagram sent in part is the error \<open>WriteZero\<close> and ends the future.
\<close>

theorem send_to_whole_datagram:
  assumes "interest_ready i t n = (True, n)"
    and "os_int E (trace (queue n)) (SendToSock (sock_fd n k) bs a) = Inr c"
  shows "\<exists>n'. SendTo_poll E t (SendToPending k bs a i) n =
    Val (if c = int (length bs) then Inr (Ready (k, bs)) else Inl write_zero, SendToNone, n')"
  using assms by (auto simp: SendTo_poll_def on_queue_def sys_def Let_def)

theorem send_to_whole_datagram_witness:
  "\<exists>n'. SendTo_poll linux 7 (SendToPending 0 [1, 2] 9 None) demo_net =
    Val (Inr (Ready (0, [1, 2])), SendToNone, n')"
  using send_to_whole_datagram [of None 7 demo_net linux 0 "[1, 2]" 9 2]
  by (auto simp: interest_ready_def linux_def)

end
