(* ===== verification/NetSafety.thy ===== *)
theory NetSafety
  imports EpollNet EpollSafety
begin

text \<open>
  Programs that use sockets over an epoll instance (\<open>src/src/epoll/net.rs\<close> over \<open>src/src/epoll/mod.rs\<close>): a
  step relation for the operations of the sockets, and the proof that whatever they do to the instance is
  a sequence of operations of its interface, so that what \<open>EpollSafety\<close> shows of the instance holds for
  these programs.  The last sections are about registrations that are leaked.
\<close>

subsection \<open>What the sockets own\<close>

definition holders :: "net \<Rightarrow> nat" where
  "holders n = card {k. \<exists>x. socks n k = Some x \<and> sock_handle x}"

definition owns :: "epoll \<Rightarrow> sock \<Rightarrow> bool" where
  "owns q x \<longleftrightarrow> 0 < refs x \<and> std_fd x \<noteq> epfd q \<and>
     usable q (fr_registration (sock_reg x)) (\<lambda>h. h = FuturesHandler (fr_inner (sock_reg x)))"

definition net_inv :: "net \<Rightarrow> bool" where
  "net_inv n \<longleftrightarrow> reg_inv (queue n) \<and> finite (dom (socks n)) \<and>
     (\<forall>k x. socks n k = Some x \<longrightarrow> k < next_sock n \<and> owns (queue n) x) \<and>
     (\<forall>k x k' x'. socks n k = Some x \<longrightarrow> socks n k' = Some x' \<longrightarrow>
        fr_registration (sock_reg x) = fr_registration (sock_reg x') \<longrightarrow> k = k')"

definition net_run :: "env \<Rightarrow> nat \<Rightarrow> net \<Rightarrow> net \<Rightarrow> bool" where
  "net_run E c n n' \<longleftrightarrow> net_inv n' \<and>
     (epoll_step E)\<^sup>*\<^sup>* (c + holders n, queue n) (c + holders n', queue n')"

lemma net_run_trans [trans]: "net_run E c n n' \<Longrightarrow> net_run E c n' n'' \<Longrightarrow> net_run E c n n''"
  by (auto simp: net_run_def intro: rtranclp_trans)

lemma net_run_refl: "net_inv n \<Longrightarrow> net_run E c n n"
  by (simp add: net_run_def)

lemma owns_sub:
  "owns q x \<Longrightarrow> epfd q' = epfd q \<Longrightarrow> (\<And>a p. usable q a p \<Longrightarrow> usable q' a p) \<Longrightarrow> owns q' x"
  by (simp add: owns_def)

lemma owns_usable: "owns q x \<Longrightarrow> usable q (fr_registration (sock_reg x)) (\<lambda>_. True)"
  by (auto simp: owns_def usable_def split: option.splits)

text \<open>A change of the instance alone.\<close>

lemma net_run_owned:
  assumes "net_inv n" and "epoll_step E (c + holders n, queue n) (c + holders n, q)"
    and "\<And>k x. socks n k = Some x \<Longrightarrow> owns q x"
  shows "net_run E c n (n\<lparr>queue := q\<rparr>)"
proof -
  have "reg_inv q"
    using step_reg_inv [OF assms(2)] assms(1) by (simp add: net_inv_def)
  then have "net_inv (n\<lparr>queue := q\<rparr>)"
    using assms(1,3) by (auto simp: net_inv_def)
  with assms(2) show ?thesis by (auto simp: net_run_def holders_def)
qed

lemma net_run_queue:
  assumes "net_inv n" and "epoll_step E (c + holders n, queue n) (c + holders n, q)"
    and "epfd q = epfd (queue n)" and "\<And>a p. usable (queue n) a p \<Longrightarrow> usable q a p"
  shows "net_run E c n (n\<lparr>queue := q\<rparr>)"
proof (rule net_run_owned [OF assms(1,2)])
  show "owns q x" if "socks n k = Some x" for k x
  proof -
    have "owns (queue n) x" using assms(1) that by (simp add: net_inv_def)
    then show ?thesis using assms(3,4) by (rule owns_sub)
  qed
qed

lemma usable_trace [simp]: "usable (q\<lparr>trace := t\<rparr>) a p = usable q a p"
  by (simp add: usable_def)

lemma run_call:
  "socket_call k \<Longrightarrow> net_inv n \<Longrightarrow> net_run E c n (n\<lparr>queue := snd (sys E k (queue n))\<rparr>)"
  by (auto simp: sys_def Let_def intro!: net_run_queue epoll_step.SocketCall)

lemma run_sys:
  "on_queue (sys E k) n = (r, n') \<Longrightarrow> socket_call k \<Longrightarrow> net_inv n \<Longrightarrow> net_run E c n n'"
  by (auto simp: on_queue_def sys_def Let_def intro!: net_run_queue epoll_step.SocketCall)

lemma run_sys_data:
  "on_queue (sys_data E k) n = (r, n') \<Longrightarrow> socket_call k \<Longrightarrow> net_inv n \<Longrightarrow> net_run E c n n'"
  by (auto simp: on_queue_def sys_data_def Let_def intro!: net_run_queue epoll_step.SocketCall)

lemma run_register: "net_inv n \<Longrightarrow> net_run E c n (upd_queue (register j t) n)"
  by (auto simp: upd_queue_def register_def emit_def
      intro!: net_run_queue epoll_step.RegisterInterest [of E _ _ j t, unfolded register_def emit_def])

lemma run_interest_ready: "interest_ready i t n = (b, n') \<Longrightarrow> net_inv n \<Longrightarrow> net_run E c n n'"
  by (erule interest_ready_cases) (auto intro: net_run_refl run_register)

lemma add_interest_frame:
  "add_interest E fr ev t q = (r, q') \<Longrightarrow> heap q' = heap q \<and> epfd q' = epfd q"
  by (auto simp: add_interest_def Let_def register_def emit_def
      split: if_splits prod.splits sum.splits dest!: modify_only_trace)

lemma run_wait_for:
  assumes "wait_for E k ev i t n = (r, n')" and "net_inv n"
  shows "net_run E c n n'"
proof (cases i)
  case (Some j)
  then show ?thesis using assms by (auto simp: wait_for_def intro: run_register)
next
  case None
  show ?thesis
  proof (cases "socks n k")
    case None
    then show ?thesis using assms \<open>i = None\<close> by (auto simp: wait_for_def intro: net_run_refl)
  next
    case (Some x)
    obtain r' q where q: "add_interest E (sock_reg x) ev t (queue n) = (r', q)"
      by (cases "add_interest E (sock_reg x) ev t (queue n)")
    have "usable (queue n) (fr_registration (sock_reg x))
        (\<lambda>h. h = FuturesHandler (fr_inner (sock_reg x)))"
      using assms(2) Some by (auto simp: net_inv_def owns_def)
    then have "net_run E c n (n\<lparr>queue := q\<rparr>)"
      using add_interest_frame [OF q] assms(2)
      by (intro net_run_queue epoll_step.AddInterest [OF _ q]) (auto simp: usable_def)
    then show ?thesis
      using assms(1) q Some None by (auto simp: wait_for_def on_queue_def)
  qed
qed

subsection \<open>Cloning, dropping and making sockets\<close>

lemma holders_upd:
  assumes "finite (dom S)"
  shows "card {k. \<exists>x. (S(l := v)) k = Some x \<and> sock_handle x} =
    card ({k. \<exists>x. S k = Some x \<and> sock_handle x} - {l}) +
    (case v of Some x \<Rightarrow> if sock_handle x then 1 else 0 | None \<Rightarrow> 0)"
proof -
  let ?H = "{k. \<exists>x. S k = Some x \<and> sock_handle x}"
  have fin: "finite ?H" by (rule finite_subset [OF _ assms]) auto
  have "{k. \<exists>x. (S(l := v)) k = Some x \<and> sock_handle x} =
      (case v of Some x \<Rightarrow> if sock_handle x then insert l (?H - {l}) else ?H - {l} | None \<Rightarrow> ?H - {l})"
    by (auto split: option.splits if_splits)
  then show ?thesis
    using fin by (cases v) (simp_all add: card_insert_disjoint del: insert_Diff_single)
qed

lemma holders_same:
  assumes "finite (dom (socks n))" and "socks n k = Some x" and "sock_handle x' = sock_handle x"
  shows "holders (n\<lparr>socks := (socks n)(k \<mapsto> x')\<rparr>) = holders n"
  using holders_upd [OF assms(1), of k "Some x'"] holders_upd [OF assms(1), of k "Some x"] assms(2,3)
  by (simp add: holders_def fun_upd_idem)

lemma run_refs:
  assumes "net_inv n" and "socks n k = Some x" and "0 < m"
  shows "net_run E c n (n\<lparr>socks := (socks n)(k \<mapsto> x\<lparr>refs := m\<rparr>)\<rparr>)"
proof -
  have "holders (n\<lparr>socks := (socks n)(k \<mapsto> x\<lparr>refs := m\<rparr>)\<rparr>) = holders n"
    using assms by (intro holders_same [of n k x]) (auto simp: net_inv_def)
  moreover have "net_inv (n\<lparr>socks := (socks n)(k \<mapsto> x\<lparr>refs := m\<rparr>)\<rparr>)"
    using assms by (fastforce simp: net_inv_def owns_def)
  ultimately show ?thesis by (simp add: net_run_def)
qed

lemma run_clone: "net_inv n \<Longrightarrow> socks n k = Some x \<Longrightarrow> net_run E c n (sock_clone k n)"
  using run_refs [of n k x "Suc (refs x)" E c] by (simp add: sock_clone_def)

lemma drop_inner_frame:
  "usable (drop_inner E q) a p = usable q a p" "epfd (drop_inner E q) = epfd q"
  using drop_inner_shape [of q E] by (simp_all add: usable_def same_tables_def)

lemma handle_frame: "usable (handle q) a p = usable q a p" "epfd (handle q) = epfd q"
  by (simp_all add: handle_def usable_def)

lemma Registration_drop_other:
  "b \<noteq> a \<Longrightarrow> usable (Registration_drop E a q) b p = usable q b p"
  by (simp add: usable_def Registration_drop_heap)

lemma close_fd_frame:
  "usable (close_fd E fd q) a p = usable q a p" "epfd (close_fd E fd q) = epfd q"
  by (simp_all add: close_fd_def sys_def Let_def)

lemma Registration_drop_epfd: "epfd (Registration_drop E a q) = epfd q"
  using Registration_drop_tables [of q E a] by (simp add: same_tables_def)

lemma close_fd_step:
  "fd \<noteq> epfd q \<Longrightarrow> epoll_step E (n, q) (n, close_fd E fd q)"
  by (simp add: close_fd_def sys_def Let_def epoll_step.CloseDescriptor)

lemma futures_not_custom: "usable q a (\<lambda>h. h = FuturesHandler i) \<Longrightarrow> usable q a (\<lambda>h. \<not> is_custom h)"
  by (auto simp: usable_def split: option.splits)

lemma drop_reg_step:
  "usable q a (\<lambda>h. h = FuturesHandler i) \<Longrightarrow> epoll_step E (n, q) (n, Registration_drop E a q)"
  by (rule epoll_step.DropRegistration) (rule futures_not_custom)

text \<open>The last handle of a socket: descriptor, registration, and for a listener its \<open>Handle\<close>.\<close>

lemma run_drop:
  assumes "net_inv n" and "socks n k = Some x"
  shows "net_run E c n (sock_drop E k n)"
proof (cases "refs x = 1")
  case False
  have "0 < refs x" using assms by (auto simp: net_inv_def owns_def)
  then have "net_run E c n (n\<lparr>socks := (socks n)(k \<mapsto> x\<lparr>refs := refs x - 1\<rparr>)\<rparr>)"
    using assms False by (intro run_refs) simp_all
  then show ?thesis using assms(2) False by (simp add: sock_drop_def)
next
  case True
  define a where "a = fr_registration (sock_reg x)"
  define q1 where "q1 = close_fd E (std_fd x) (queue n)"
  define q2 where "q2 = Registration_drop E a q1"
  define q3 where "q3 = (if sock_handle x then drop_inner E q2 else q2)"
  define n' where "n' = n\<lparr>queue := q3, socks := (socks n)(k := None)\<rparr>"
  have n': "sock_drop E k n = n'"
    using assms(2) True by (simp add: sock_drop_def Let_def n'_def q3_def q2_def q1_def a_def)
  have own: "owns (queue n) x" "finite (dom (socks n))" "reg_inv (queue n)"
    using assms by (auto simp: net_inv_def)
  have count: "holders n = holders n' + (if sock_handle x then 1 else 0)"
    using holders_upd [OF own(2), of k None] holders_upd [OF own(2), of k "Some x"] assms(2)
    by (simp add: holders_def n'_def fun_upd_idem)
  have s1: "epoll_step E (c + holders n, queue n) (c + holders n, q1)"
    unfolding q1_def using own(1) by (intro close_fd_step) (simp add: owns_def)
  have s2: "epoll_step E (c + holders n, q1) (c + holders n, q2)"
    using own(1) unfolding q2_def a_def q1_def
    by (intro drop_reg_step [where i = "fr_inner (sock_reg x)"]) (simp add: owns_def close_fd_frame)
  have s3: "(epoll_step E)\<^sup>*\<^sup>* (c + holders n, q2) (c + holders n', q3)"
    using epoll_step.DropHandle [of E "c + holders n'" q2] count by (auto simp: q3_def)
  have run: "(epoll_step E)\<^sup>*\<^sup>* (c + holders n, queue n) (c + holders n', q3)"
    using s1 s2 s3 by (meson converse_rtranclp_into_rtranclp)
  have "reg_inv q2" using s1 s2 own(3) by (auto dest!: step_reg_inv)
  then have "reg_inv q3" by (simp add: q3_def drop_inner_reg_inv)
  moreover have "owns q3 y" if y: "socks n l = Some y" "l \<noteq> k" for l y
  proof -
    have "fr_registration (sock_reg y) \<noteq> a"
      using assms y by (auto simp: net_inv_def a_def)
    moreover have "owns (queue n) y" using assms(1) y by (auto simp: net_inv_def)
    ultimately show ?thesis
      by (auto simp: owns_def q3_def q2_def q1_def drop_inner_frame Registration_drop_other
          close_fd_frame Registration_drop_epfd)
  qed
  ultimately have "net_inv n'"
    using assms(1) by (auto simp: net_inv_def n'_def)
  with run show ?thesis unfolding n' by (simp add: net_run_def n'_def)
qed

lemma FuturesRegistration_new_frame:
  assumes "FuturesRegistration_new E fd q = (r, q')" and "reg_inv q"
  shows "epfd q' = epfd q \<and> (\<forall>a p. usable q a p \<longrightarrow> usable q' a p) \<and>
    (\<forall>fr. r = Inr fr \<longrightarrow> \<not> usable q (fr_registration fr) (\<lambda>_. True) \<and>
       usable q' (fr_registration fr) (\<lambda>h. h = FuturesHandler (fr_inner fr)))"
proof -
  define q1 where "q1 = q\<lparr>fresh := Suc (fresh q), interests := (interests q)(fresh q := [])\<rparr>"
  obtain r1 where new: "register_fd_raw E fd (bf_empty E) (bf_union E (EDGE E) (ONE_SHOT E))
      (FuturesHandler (fresh q)) q1 = (r1, q')"
    and r: "r = (case r1 of Inl e \<Rightarrow> Inl e
      | Inr a \<Rightarrow> Inr \<lparr>fr_registration = a, fr_inner = fresh q\<rparr>)"
    using assms(1) by (auto simp: FuturesRegistration_new_def q1_def Let_def split: prod.splits sum.splits)
  have "reg_inv q1" using reg.set_fresh [OF assms(2)] by (simp add: q1_def)
  then have none: "heap q (Suc (fresh q)) = None"
    using reg_inv_fresh [of q1] by (simp add: q1_def)
  show ?thesis
    using register_fd_raw_tables [OF new] none
    by (auto simp: q1_def r usable_def split: sum.splits option.splits)
qed

lemma run_add:
  assumes "net_inv n" and "owns (queue n) x" and "0 < c + holders n \<or> \<not> sock_handle x"
    and "\<And>k y. socks n k = Some y \<Longrightarrow> fr_registration (sock_reg y) \<noteq> fr_registration (sock_reg x)"
  shows "net_run E c n (n\<lparr>queue := (if sock_handle x then handle (queue n) else queue n),
    socks := (socks n)(next_sock n \<mapsto> x), next_sock := next_sock n + 1\<rparr>)" (is "net_run E c n ?n")
proof -
  have new: "socks n (next_sock n) = None"
    using assms(1) by (cases "socks n (next_sock n)") (auto simp: net_inv_def)
  then have count: "holders ?n = holders n + (if sock_handle x then 1 else 0)"
    using holders_upd [of "socks n" "next_sock n" "Some x"] holders_upd [of "socks n" "next_sock n" None]
      assms(1) by (simp add: holders_def net_inv_def fun_upd_idem)
  have "net_inv ?n"
    using assms(1,2) assms(4) assms(4) [THEN not_sym]
    by (auto simp: net_inv_def owns_def handle_frame handle_reg_inv less_Suc_eq)
  moreover have "(epoll_step E)\<^sup>*\<^sup>* (c + holders n, queue n) (c + holders ?n, queue ?n)"
    using assms(3) count epoll_step.Handle [of "c + holders n" E "queue n"] by auto
  ultimately show ?thesis by (simp add: net_run_def)
qed

text \<open>Making a socket takes a descriptor that is not the instance's and a handle of the instance.\<close>

lemma run_new:
  assumes "sock_new E wh fd n = (r, n')" and "net_inv n" and "0 < c + holders n"
    and "fd \<noteq> epfd (queue n)"
  shows "net_run E c n n'"
proof -
  obtain r1 q where new: "FuturesRegistration_new E fd (queue n) = (r1, q)"
    by (cases "FuturesRegistration_new E fd (queue n)")
  have inv: "reg_inv (queue n)" using assms(2) by (simp add: net_inv_def)
  note frame = FuturesRegistration_new_frame [OF new inv]
  have run: "net_run E c n (n\<lparr>queue := q\<rparr>)"
    using assms(2,3) frame epoll_step.NewFutures [OF _ new] by (intro net_run_queue) auto
  have close: "net_run E c m (m\<lparr>queue := close_fd E fd (queue m)\<rparr>)"
    if "net_inv m" "epfd (queue m) = epfd (queue n)" for m
    using that assms(4) by (intro net_run_queue close_fd_step) (auto simp: close_fd_frame)
  show ?thesis
  proof (cases r1)
    case (Inl e)
    then have "n' = n\<lparr>queue := close_fd E fd q\<rparr>"
      using assms(1) new by (simp add: sock_new_def)
    moreover have "net_inv (n\<lparr>queue := q\<rparr>)" using run by (simp add: net_run_def)
    ultimately show ?thesis
      using net_run_trans [OF run close] frame by simp
  next
    case (Inr fr)
    define m where "m = n\<lparr>queue := snd (sys E (SetNonblocking fd) q)\<rparr>"
    have m: "epfd (queue m) = epfd (queue n)" "usable (queue m) a p = usable q a p"
      "holders m = holders n" "socks m = socks n" "next_sock m = next_sock n" for a p
      using frame by (simp_all add: m_def sys_def Let_def holders_def)
    have "net_run E c (n\<lparr>queue := q\<rparr>) m"
      using run run_call [of "SetNonblocking fd" "n\<lparr>queue := q\<rparr>" E c] by (simp add: m_def net_run_def)
    with run have run_m: "net_run E c n m" by (rule net_run_trans)
    then have inv_m: "net_inv m" by (simp add: net_run_def)
    have fresh_reg: "fr_registration (sock_reg x) \<noteq> fr_registration fr" if "socks n k = Some x" for k x
    proof
      assume "fr_registration (sock_reg x) = fr_registration fr"
      moreover have "owns (queue n) x" using assms(2) that by (simp add: net_inv_def)
      ultimately have "usable (queue n) (fr_registration fr) (\<lambda>_. True)" by (metis owns_usable)
      then show False using frame Inr by blast
    qed
    have reg: "usable (queue m) (fr_registration fr) (\<lambda>h. h = FuturesHandler (fr_inner fr))"
      using frame Inr m(2) by simp
    show ?thesis
    proof (cases "os_int E (trace q) (SetNonblocking fd)")
      case (Inl e)
      define m1 where "m1 = m\<lparr>queue := Registration_drop E (fr_registration fr) (queue m)\<rparr>"
      have "net_run E c m m1"
        unfolding m1_def
      proof (rule net_run_owned [OF inv_m])
        show "owns (Registration_drop E (fr_registration fr) (queue m)) x" if "socks m k = Some x" for k x
          using inv_m that fresh_reg m
          by (auto simp: net_inv_def owns_def Registration_drop_other Registration_drop_epfd)
      qed (rule drop_reg_step [OF reg])
      moreover have "net_run E c m1 (m1\<lparr>queue := close_fd E fd (queue m1)\<rparr>)"
        using calculation m(1) by (intro close) (auto simp: net_run_def m1_def Registration_drop_epfd)
      moreover have "n' = m1\<lparr>queue := close_fd E fd (queue m1)\<rparr>"
        using assms(1) new Inr Inl by (simp add: sock_new_def m1_def m_def sys_def Let_def)
      ultimately show ?thesis using run_m by (blast intro: net_run_trans)
    next
      case (Inr u)
      define x where "x = \<lparr>refs = 1, std_fd = fd, sock_reg = fr, sock_handle = wh\<rparr>"
      have "net_run E c m (m\<lparr>queue := (if sock_handle x then handle (queue m) else queue m),
          socks := (socks m)(next_sock m \<mapsto> x), next_sock := next_sock m + 1\<rparr>)"
        using inv_m reg assms(3,4) m fresh_reg by (intro run_add) (auto simp: x_def owns_def)
      moreover have "n' = m\<lparr>queue := (if sock_handle x then handle (queue m) else queue m),
          socks := (socks m)(next_sock m \<mapsto> x), next_sock := next_sock m + 1\<rparr>"
        using assms(1) new \<open>r1 = Inr fr\<close> Inr
        by (cases wh) (auto simp: sock_new_def m_def x_def sys_def Let_def)
      ultimately show ?thesis using run_m by (blast intro: net_run_trans)
    qed
  qed
qed

subsection \<open>The polls\<close>

lemma run_keeps_socks:
  "on_queue (sys E k) n = (r, n') \<Longrightarrow> socks n' = socks n"
  "on_queue (sys_data E k) n = (r', n') \<Longrightarrow> socks n' = socks n"
  by (auto simp: on_queue_def sys_def sys_data_def Let_def)

lemma interest_ready_socks: "interest_ready i t n = (b, n') \<Longrightarrow> socks n' = socks n"
  by (erule interest_ready_cases) (auto simp: upd_queue_def)

lemma wait_for_socks: "wait_for E k ev i t n = (r, n') \<Longrightarrow> socks n' = socks n"
  by (auto simp: wait_for_def upd_queue_def on_queue_def split: option.splits prod.splits)

lemma run_again:
  assumes "again E k ev i t pending none n = (r, st, n')" and "net_inv n" and "socks n k = Some x"
  shows "net_run E c n n'"
proof -
  obtain w m where w: "wait_for E k ev i t n = (w, m)" by (cases "wait_for E k ev i t n")
  have run: "net_run E c n m" "socks m k = Some x"
    using run_wait_for [OF w assms(2)] wait_for_socks [OF w] assms(3) by simp_all
  show ?thesis
  proof (cases w)
    case (Inl e)
    have "net_run E c m (sock_drop E k m)"
      using run by (intro run_drop) (simp_all add: net_run_def)
    then show ?thesis using assms(1) w Inl run by (auto simp: again_def intro: net_run_trans)
  next
    case (Inr j)
    then show ?thesis using assms(1) w run by (simp add: again_def)
  qed
qed

text \<open>
  The polls have one shape: wait for the interest, make the call, then hand out the result, wait or
  drop the socket.
\<close>

lemma run_poll:
  assumes "interest_ready i t n = (b, n1)" and "net_inv n" and "socks n k = Some x"
    and "\<not> b \<Longrightarrow> n' = n1"
    and "b \<Longrightarrow> net_inv n1 \<Longrightarrow> socks n1 k = Some x \<Longrightarrow> net_run E c n1 n'"
  shows "net_run E c n n'"
proof -
  have n1: "net_run E c n n1" "socks n1 k = Some x" "net_inv n1"
    using run_interest_ready [OF assms(1,2)] interest_ready_socks [OF assms(1)] assms(3)
    by (simp_all add: net_run_def)
  then have "net_run E c n1 n'"
    using assms(4,5) by (cases b) (auto intro: net_run_refl)
  with n1(1) show ?thesis by (rule net_run_trans)
qed

lemma call_then:
  assumes "net_run E c n1 n2" and "socks n2 = socks n1" and "socks n1 k = Some x"
  shows "net_run E c n1 (sock_drop E k n2)"
    and "again E k ev i t pending none n2 = (r, st, n') \<Longrightarrow> net_run E c n1 n'"
  using assms run_drop [of n2 k x E c] run_again [of E k ev i t pending none n2 r st n' x c]
  by (auto simp: net_run_def intro: rtranclp_trans)

lemma sys_then:
  assumes "on_queue (sys E call) n1 = (q, n2)" "socket_call call" "net_inv n1" "socks n1 k = Some x"
  shows "net_run E c n1 n2" and "net_run E c n1 (sock_drop E k n2)"
    and "again E k ev i t pending none n2 = (r, st, n') \<Longrightarrow> net_run E c n1 n'"
  using run_sys [OF assms(1-3)] run_keeps_socks(1) [OF assms(1)] assms(4) by (auto intro: call_then)

lemma sys_data_then:
  assumes "on_queue (sys_data E call) n1 = (q, n2)" "socket_call call" "net_inv n1" "socks n1 k = Some x"
  shows "net_run E c n1 n2" and "net_run E c n1 (sock_drop E k n2)"
    and "again E k ev i t pending none n2 = (r, st, n') \<Longrightarrow> net_run E c n1 n'"
  using run_sys_data [OF assms(1-3)] run_keeps_socks(2) [OF assms(1)] assms(4) by (auto intro: call_then)

lemma run_Connect_poll:
  assumes "Connect_poll E t (ConnectPending k a i) n = Val (r, st, n')" "net_inv n" "socks n k = Some x"
  shows "net_run E c n n'"
proof -
  obtain b n1 where i: "interest_ready i t n = (b, n1)" by (cases "interest_ready i t n")
  show ?thesis
    by (rule run_poll [OF i assms(2,3)])
      (use assms(1) i in \<open>auto simp: Connect_poll_def split: sum.splits if_splits bool.splits prod.splits
        intro: sys_then\<close>)
qed

lemma run_TcpRead_poll:
  assumes "TcpRead_poll E t (ReadPending k b i) n = Val (r, st, n')" "net_inv n" "socks n k = Some x"
  shows "net_run E c n n'"
proof -
  obtain rd n1 where i: "interest_ready i t n = (rd, n1)" by (cases "interest_ready i t n")
  show ?thesis
    by (rule run_poll [OF i assms(2,3)])
      (use assms(1) i in \<open>auto simp: TcpRead_poll_def split: sum.splits if_splits bool.splits prod.splits
        intro: sys_data_then\<close>)
qed

lemma run_TcpWrite_poll:
  assumes "TcpWrite_poll E t (WritePending k bs i) n = Val (r, st, n')" "net_inv n" "socks n k = Some x"
  shows "net_run E c n n'"
proof -
  obtain rd n1 where i: "interest_ready i t n = (rd, n1)" by (cases "interest_ready i t n")
  show ?thesis
    by (rule run_poll [OF i assms(2,3)])
      (use assms(1) i in \<open>auto simp: TcpWrite_poll_def split: sum.splits if_splits bool.splits prod.splits
        intro: sys_then\<close>)
qed

lemma run_RecvFrom_poll:
  assumes "RecvFrom_poll E t (RecvFromPending k b i) n = Val (r, st, n')" "net_inv n" "socks n k = Some x"
  shows "net_run E c n n'"
proof -
  obtain rd n1 where i: "interest_ready i t n = (rd, n1)" by (cases "interest_ready i t n")
  show ?thesis
    by (rule run_poll [OF i assms(2,3)])
      (use assms(1) i in \<open>auto simp: RecvFrom_poll_def Let_def split: sum.splits if_splits bool.splits
        prod.splits intro: sys_data_then\<close>)
qed

lemma run_SendTo_poll:
  assumes "SendTo_poll E t (SendToPending k bs a i) n = Val (r, st, n')" "net_inv n" "socks n k = Some x"
  shows "net_run E c n n'"
proof -
  obtain rd n1 where i: "interest_ready i t n = (rd, n1)" by (cases "interest_ready i t n")
  show ?thesis
    by (rule run_poll [OF i assms(2,3)])
      (use assms(1) i in \<open>auto simp: SendTo_poll_def split: sum.splits if_splits bool.splits prod.splits
        intro: sys_then\<close>)
qed

text \<open>
  \<open>Accept\<close> makes a socket through the \<open>Handle\<close> of its listener.  The kernel does not hand out the
  descriptor of the instance, which is open.
\<close>

lemma sock_new_socks:
  assumes "sock_new E wh fd n = (r, n')" and "socks n l = Some x" and "net_inv n"
  shows "socks n' l = Some x"
proof -
  have "l < next_sock n" using assms(2,3) by (auto simp: net_inv_def)
  then show ?thesis using assms(1,2) by (auto simp: sock_new_def split: prod.splits sum.splits)
qed

lemma holders_pos: "net_inv n \<Longrightarrow> socks n k = Some x \<Longrightarrow> sock_handle x \<Longrightarrow> 0 < holders n"
  unfolding holders_def
  by (subst card_gt_0_iff) (auto simp: net_inv_def intro: finite_subset [of _ "dom (socks n)"])

lemma run_Accept_poll:
  assumes "Accept_poll E t (AcceptPending l i) n = Val (r, st, n')" "net_inv n" "socks n l = Some x"
    and "sock_handle x"
    and "\<And>tr d. os_int E tr (Accept4 (std_fd x)) = Inr d \<Longrightarrow> d \<noteq> epfd (queue n)"
  shows "net_run E c n n'"
proof -
  obtain b n1 where i: "interest_ready i t n = (b, n1)" by (cases "interest_ready i t n")
  show ?thesis
  proof (rule run_poll [OF i assms(2,3)])
    show "n' = n1" if "\<not> b" using assms(1) i that by (auto simp: Accept_poll_def)
  next
    assume b: "b" and n1: "net_inv n1" "socks n1 l = Some x"
    obtain q n2 where q: "on_queue (sys E (Accept4 (sock_fd n1 l))) n1 = (q, n2)"
      by (cases "on_queue (sys E (Accept4 (sock_fd n1 l))) n1")
    note call = sys_then [OF q _ n1]
    have n2: "net_inv n2" "socks n2 l = Some x"
      using call(1) run_keeps_socks(1) [OF q] n1 by (simp_all add: net_run_def)
    have fd: "n1 = n" "sock_fd n1 l = std_fd x" "epfd (queue n2) = epfd (queue n1)"
      using i b ready_same n1(2) q
      by (auto simp: sock_fd_def on_queue_def sys_def Let_def split: option.splits)
    show "net_run E c n1 n'"
    proof (cases q)
      case (Inl e)
      then show ?thesis
        using assms(1) i b q call by (auto simp: Accept_poll_def Let_def split: if_splits)
    next
      case (Inr d)
      then have d: "d \<noteq> epfd (queue n2)"
        using q fd assms(5) by (auto simp: on_queue_def sys_def Let_def)
      obtain r3 n3 where new: "TcpStream_from_stream E d n2 = (r3, n3)"
        by (cases "TcpStream_from_stream E d n2")
      have "net_run E c n2 n3"
        using new d n2 holders_pos [OF n2 assms(4)]
        by (auto simp: TcpStream_from_stream_def intro: run_new)
      moreover have "socks n3 l = Some x"
        using new n2 sock_new_socks by (auto simp: TcpStream_from_stream_def)
      moreover have "n' = sock_drop E l n3"
        using assms(1) i b q Inr new by (auto simp: Accept_poll_def Let_def split: sum.splits)
      ultimately show ?thesis
        using call(1) run_drop [of n3 l x E c] by (auto simp: net_run_def intro: rtranclp_trans)
    qed
  qed
qed

subsection \<open>Programs\<close>

text \<open>
  \<open>c\<close> is the number of \<open>Epoll\<close>s and \<open>Handle\<close>s the program holds besides those of its listeners.
\<close>

text \<open>A descriptor the system makes is not that of the instance.\<close>

definition own_fd :: "env \<Rightarrow> call \<Rightarrow> net \<Rightarrow> bool" where
  "own_fd E k n \<longleftrightarrow> os_int E (trace (queue n)) k \<noteq> Inr (epfd (queue n))"

inductive net_step :: "env \<Rightarrow> nat \<times> net \<Rightarrow> nat \<times> net \<Rightarrow> bool" for E where
  NetHandle: "0 < c \<Longrightarrow> net_step E (c, n) (Suc c, upd_queue handle n)"
| NetDropHandle: "net_step E (Suc c, n) (c, upd_queue (drop_inner E) n)"
| NewListener: "0 < c \<Longrightarrow> fd \<noteq> epfd (queue n) \<Longrightarrow> TcpListener_from_listener E fd n = (r, n') \<Longrightarrow>
    net_step E (c, n) (c, n')"
| NewStream: "0 < c \<Longrightarrow> fd \<noteq> epfd (queue n) \<Longrightarrow> TcpStream_from_stream E fd n = (r, n') \<Longrightarrow>
    net_step E (c, n) (c, n')"
| NewConnect: "0 < c \<Longrightarrow> fd \<noteq> epfd (queue n) \<Longrightarrow> TcpStream_connect_with E fd a n = (co, n') \<Longrightarrow>
    net_step E (c, n) (c, n')"
| NewSocket: "0 < c \<Longrightarrow> fd \<noteq> epfd (queue n) \<Longrightarrow> UdpSocket_from_socket E fd n = (r, n') \<Longrightarrow>
    net_step E (c, n) (c, n')"
| BindListener: "0 < c \<Longrightarrow> own_fd E (BindTcp a) n \<Longrightarrow> TcpListener_bind E a n = (r, n') \<Longrightarrow>
    net_step E (c, n) (c, n')"
| BindSocket: "0 < c \<Longrightarrow> own_fd E (BindUdp a) n \<Longrightarrow> UdpSocket_bind E a n = (r, n') \<Longrightarrow>
    net_step E (c, n) (c, n')"
| ConnectTo: "0 < c \<Longrightarrow> own_fd E (NewTcpSocket a) n \<Longrightarrow> TcpStream_connect E a n = (co, n') \<Longrightarrow>
    net_step E (c, n) (c, n')"
| ConnectSocket: "socks n k = Some x \<Longrightarrow> UdpSocket_connect E k a n = (r8, n') \<Longrightarrow> net_step E (c, n) (c, n')"
| CloneSock: "socks n k = Some x \<Longrightarrow> net_step E (c, n) (c, sock_clone k n)"
| DropSock: "socks n k = Some x \<Longrightarrow> net_step E (c, n) (c, sock_drop E k n)"
| PollAccept: "socks n k = Some x \<Longrightarrow> sock_handle x \<Longrightarrow>
    (\<forall>tr d. os_int E tr (Accept4 (std_fd x)) = Inr d \<longrightarrow> d \<noteq> epfd (queue n)) \<Longrightarrow>
    Accept_poll E t (AcceptPending k i) n = Val (r1, st1, n') \<Longrightarrow> net_step E (c, n) (c, n')"
| PollConnect: "socks n k = Some x \<Longrightarrow>
    Connect_poll E t (ConnectPending k a i) n = Val (r2, st2, n') \<Longrightarrow> net_step E (c, n) (c, n')"
| PollRead: "socks n k = Some x \<Longrightarrow>
    TcpRead_poll E t (ReadPending k b i) n = Val (r3, st3, n') \<Longrightarrow> net_step E (c, n) (c, n')"
| PollWrite: "socks n k = Some x \<Longrightarrow>
    TcpWrite_poll E t (WritePending k bs i) n = Val (r4, st4, n') \<Longrightarrow> net_step E (c, n) (c, n')"
| PollRecvFrom: "socks n k = Some x \<Longrightarrow>
    RecvFrom_poll E t (RecvFromPending k b i) n = Val (r5, st5, n') \<Longrightarrow> net_step E (c, n) (c, n')"
| PollSendTo: "socks n k = Some x \<Longrightarrow>
    SendTo_poll E t (SendToPending k bs a i) n = Val (r6, st6, n') \<Longrightarrow> net_step E (c, n) (c, n')"
| NetTurn: "0 < c \<Longrightarrow> turn E chk self w (queue n) = Some (Val (r7, q)) \<Longrightarrow>
    net_step E (c, n) (c, n\<lparr>queue := q\<rparr>)"

inductive net_reachable :: "env \<Rightarrow> nat \<times> net \<Rightarrow> bool" for E where
  NetInit: "Epoll_new E [] = Inr q \<Longrightarrow>
    net_reachable E (1, \<lparr>queue = q, socks = Map.empty, next_sock = 0\<rparr>)"
| NetStep: "net_reachable E p \<Longrightarrow> net_step E p p' \<Longrightarrow> net_reachable E p'"

interpretation usable: turn_invariant E "\<lambda>s. usable s a p" for E a p
proof
  fix s b c
  assume "usable s a p" "heap s b = Some c" "0 < strong c"
  then show "usable (reg_clone b s) a p"
    by (auto simp: usable_def reg_clone_def set_cell_def)
next
  fix s b c
  assume "usable s a p" "heap s b = Some c" "1 < strong c"
  then show "usable (Registration_drop E b s) a p"
    by (auto simp: usable_def Registration_drop_not_last set_cell_def)
qed (auto simp: usable_def dest: modify_only_trace)

lemma run_turn:
  assumes "turn E chk self w (queue n) = Some (Val (r, q))" and "net_inv n" and "0 < c"
  shows "net_run E c n (n\<lparr>queue := q\<rparr>)"
proof (rule net_run_queue [OF assms(2)])
  show "epoll_step E (c + holders n, queue n) (c + holders n, q)"
    using assms(1,3) by (intro epoll_step.Turn) simp_all
  show "epfd q = epfd (queue n)"
    using iss.loop.turn_keeps [OF assms(1), of "epfd (queue n)" "{}"] by (simp add: issued_def)
qed (use usable.loop.turn_keeps [OF assms(1)] in blast)

text \<open>Making a descriptor, and a socket of it.\<close>

lemma run_make:
  assumes "on_queue (sys E k) n = (x, n1)" and "socket_call k" and "net_inv n" and "own_fd E k n"
  shows "net_run E c n n1 \<and> holders n1 = holders n \<and> (\<forall>fd. x = Inr fd \<longrightarrow> fd \<noteq> epfd (queue n1))"
  using assms run_sys [OF assms(1-3)] by (auto simp: on_queue_def sys_def Let_def holders_def own_fd_def)

lemma run_make_new:
  assumes "on_queue (sys E k) n = (Inr fd, n1)" and "socket_call k" and "net_inv n" and "own_fd E k n"
    and "0 < c" and "sock_new E wh fd n1 = (r, n')"
  shows "net_run E c n n'"
proof -
  have made: "net_run E c n n1" "fd \<noteq> epfd (queue n1)" using run_make [OF assms(1-4)] by auto
  then have "net_run E c n1 n'" using assms(5) by (intro run_new [OF assms(6)]) (simp_all add: net_run_def)
  with made(1) show ?thesis by (rule net_run_trans)
qed

lemma net_step_run:
  assumes "net_step E (c, n) (c', n')" and "net_inv n"
  shows "net_inv n' \<and> (epoll_step E)\<^sup>*\<^sup>* (c + holders n, queue n) (c' + holders n', queue n')"
proof -
  have run: "net_run E c n n' \<Longrightarrow> c' = c \<Longrightarrow> ?thesis" by (simp add: net_run_def)
  from assms show ?thesis
  proof (cases rule: net_step.cases)
    case NetHandle
    then show ?thesis
      using assms(2) epoll_step.Handle [of "c + holders n" E "queue n"]
      by (auto simp: net_inv_def upd_queue_def holders_def handle_reg_inv owns_def handle_frame)
  next
    case NetDropHandle
    then show ?thesis
      using assms(2) epoll_step.DropHandle [of E "c' + holders n" "queue n"]
      by (auto simp: net_inv_def upd_queue_def holders_def drop_inner_reg_inv owns_def drop_inner_frame)
  next
    case (NewConnect fd a co)
    then show ?thesis
      using assms(2) run run_new [of E False fd n _ n' c]
      by (auto simp: TcpStream_connect_with_def TcpStream_from_stream_def split: prod.splits sum.splits)
  next
    case (BindListener a r)
    then show ?thesis
      using assms(2) run_make [of E "BindTcp a" n] run_make_new [of E "BindTcp a" n]
      by (intro run) (auto simp: TcpListener_bind_def TcpListener_from_listener_def split: prod.splits sum.splits)
  next
    case (BindSocket a r)
    then show ?thesis
      using assms(2) run_make [of E "BindUdp a" n] run_make_new [of E "BindUdp a" n]
      by (intro run) (auto simp: UdpSocket_bind_def UdpSocket_from_socket_def split: prod.splits sum.splits)
  next
    case (ConnectTo a co)
    then show ?thesis
      using assms(2) run_make [of E "NewTcpSocket a" n] run_make_new [of E "NewTcpSocket a" n]
      by (intro run) (auto simp: TcpStream_connect_def TcpStream_connect_with_def TcpStream_from_stream_def
          split: prod.splits sum.splits)
  next
    case (ConnectSocket k x a r)
    then show ?thesis
      using assms(2) run_sys [of E "call.ConnectTo (sock_fd n k) a" n] by (intro run) (auto simp: UdpSocket_connect_def)
  qed (use assms(2) run in \<open>auto simp: TcpListener_from_listener_def TcpStream_from_stream_def
      UdpSocket_from_socket_def intro: run_new run_clone run_drop run_Accept_poll run_Connect_poll
      run_TcpRead_poll run_TcpWrite_poll run_RecvFrom_poll run_SendTo_poll run_turn\<close>)
qed

lemma net_reachable_epoll:
  "net_reachable E (c, n) \<Longrightarrow> epoll_reachable E (c + holders n, queue n) \<and> net_inv n"
proof (induction "(c, n)" arbitrary: c n rule: net_reachable.induct)
  case (NetInit q)
  then show ?case
    using epoll_reachable.Init [OF NetInit] Epoll_new_reg_inv [OF NetInit]
    by (simp add: net_inv_def holders_def)
next
  case (NetStep p c' n')
  obtain c n where p: "p = (c, n)" by (cases p)
  have "epoll_reachable E (c + holders n, queue n)" "net_inv n" using NetStep.hyps(2) p by auto
  then show ?case
    using net_step_run [of E c n c' n'] NetStep.hyps(3) p reachable_steps by blast
qed

lemma net_steps_run:
  assumes "(net_step E)\<^sup>*\<^sup>* (c, n) (c', n')" and "net_inv n"
  shows "net_inv n' \<and> (epoll_step E)\<^sup>*\<^sup>* (c + holders n, queue n) (c' + holders n', queue n')"
  using assms(1)
proof (induction "(c', n')" arbitrary: c' n' rule: rtranclp_induct)
  case base
  then show ?case using assms(2) by simp
next
  case (step y)
  obtain d m where y: "y = (d, m)" by (cases y)
  then have "net_inv m" "(epoll_step E)\<^sup>*\<^sup>* (c + holders n, queue n) (d + holders m, queue m)"
    using step(3) by auto
  then show ?case
    using net_step_run [of E d m c' n'] step(2) y by (auto intro: rtranclp_trans)
qed

subsection \<open>Allocations that are never freed\<close>

text \<open>An allocation without strong references whose weak reference the kernel was given and not asked back.\<close>

definition leaked :: "addr \<Rightarrow> reg_cell \<Rightarrow> epoll \<Rightarrow> bool" where
  "leaked a c s \<longleftrightarrow> heap s a = Some c \<and> strong c = 0 \<and> a < fresh s"

lemma leaked_cong: "leaked a c s \<Longrightarrow> heap s' a = heap s a \<Longrightarrow> fresh s \<le> fresh s' \<Longrightarrow> leaked a c s'"
  by (simp add: leaked_def)

lemma modify_leaked: "modify E b m md s = (r, s') \<Longrightarrow> leaked a c s \<Longrightarrow> leaked a c s'"
  by (drule modify_only_trace) (auto intro: leaked_cong)

interpretation leaked: turn_invariant E "leaked a c" for E a c
proof
  fix s b d
  assume "leaked a c s" "heap s b = Some d" "0 < strong d"
  then show "leaked a c (reg_clone b s)"
    by (auto simp: leaked_def reg_clone_def set_cell_def)
next
  fix s b d
  assume "leaked a c s" "heap s b = Some d" "1 < strong d"
  then show "leaked a c (Registration_drop E b s)"
    by (auto simp: leaked_def Registration_drop_not_last set_cell_def)
qed (auto intro: modify_leaked, auto simp: leaked_def)

lemma Registration_drop_leaked:
  assumes "usable s b p" and "leaked a c s"
  shows "leaked a c (Registration_drop E b s)"
proof -
  have "a \<noteq> b" using assms by (auto simp: leaked_def dest!: usable_ops)
  then show ?thesis
    using assms(2) Registration_drop_heap [of a b E s] Registration_drop_tables [of s E b]
    by (simp add: leaked_def same_tables_def)
qed

lemma drop_inner_leaked: "leaked a c s \<Longrightarrow> leaked a c (drop_inner E s)"
  using drop_inner_shape [of s E] by (auto simp: leaked_def same_tables_def)

lemma register_fd_raw_leaked:
  "register_fd_raw E fd m md h s = (r, s') \<Longrightarrow> leaked a c s \<Longrightarrow> leaked a c s'"
  by (drule register_fd_raw_tables) (auto simp: leaked_def split: sum.splits)

lemma FuturesRegistration_new_leaked:
  assumes "FuturesRegistration_new E fd s = (r, s')" and "leaked a c s"
  shows "leaked a c s'"
proof -
  define s1 where "s1 = s\<lparr>fresh := Suc (fresh s), interests := (interests s)(fresh s := [])\<rparr>"
  obtain r1 where new: "register_fd_raw E fd (bf_empty E) (bf_union E (EDGE E) (ONE_SHOT E))
      (FuturesHandler (fresh s)) s1 = (r1, s')"
    using assms(1) by (auto simp: FuturesRegistration_new_def s1_def Let_def split: prod.splits sum.splits)
  have "leaked a c s1" using assms(2) by (simp add: s1_def leaked_def)
  with new show ?thesis by (rule register_fd_raw_leaked)
qed

lemma new_custom_event_leaked:
  assumes "new_custom_event E s = (r, s')" and "leaked a c s"
  shows "leaked a c s'"
  using assms(1)
proof (cases rule: new_custom_event_cases)
  case no_eventfd
  then show ?thesis using assms(2) by (auto intro: leaked.quiet_sys_keeps)
next
  case (failed efd s1 e s3)
  have "leaked a c s1" using failed(1) assms(2) by (auto intro: leaked.quiet_sys_keeps)
  then have "leaked a c s3"
    by (intro register_fd_raw_leaked [OF failed(3)]) (simp add: leaked_def handle_def)
  then show ?thesis using failed(4) by (simp add: drop_inner_leaked)
next
  case (ok efd s1 b s3)
  have "leaked a c s1" using ok(1) assms(2) by (auto intro: leaked.quiet_sys_keeps)
  then have "leaked a c s3"
    by (intro register_fd_raw_leaked [OF ok(3)]) (simp add: leaked_def handle_def)
  then have "leaked a c (drop_inner E s3)" by (rule drop_inner_leaked)
  then show ?thesis using ok(4) drop_inner_shape [of s3 E] by (simp add: leaked_def same_tables_def)
qed

lemma step_leaked: "epoll_step E p q \<Longrightarrow> leaked a c (snd p) \<Longrightarrow> leaked a c (snd q)"
proof (induction rule: epoll_step.induct)
  case (Handle n s)
  then show ?case by (simp add: handle_def leaked_def)
next
  case (CloneRegistration s b n)
  then show ?case using leaked.clone_keeps [of a c s b] by (auto dest!: usable_ops)
qed (auto intro: drop_inner_leaked register_fd_raw_leaked FuturesRegistration_new_leaked
       new_custom_event_leaked Registration_drop_leaked modify_leaked leaked.add_interest_keeps
       leaked.FutureInterest_poll_keeps leaked.post_custom_event_keeps leaked.loop.turn_keeps
       leaked.loop.turn_interruptible_keeps leaked.Interrupt_new_keeps leaked.interrupt_keeps leaked.register_keeps
     simp: emit_def, simp_all add: leaked_def)

lemma steps_leaked: "(epoll_step E)\<^sup>*\<^sup>* p q \<Longrightarrow> leaked a c (snd p) \<Longrightarrow> leaked a c (snd q)"
  by (induction rule: rtranclp_induct) (auto intro: step_leaked)

subsection \<open>The properties\<close>

text \<open>
  C10. A program that uses sockets uses the epoll instance as its interface asks for: whatever sequence of
  socket operations, polls and turns it runs, the instance is in a state that the operations of the
  instance reach, its references are those of the program and one for each listener, and each socket
  that is not dropped owns a registration that is not dropped either, with its own interest vector.
\<close>

theorem sockets_use_instance:
  assumes "net_reachable E (c, n)"
  shows "epoll_reachable E (c + holders n, queue n) \<and>
    (\<forall>k x. socks n k = Some x \<longrightarrow> std_fd x \<noteq> epfd (queue n) \<and>
       usable (queue n) (fr_registration (sock_reg x)) (\<lambda>h. h = FuturesHandler (fr_inner (sock_reg x)))) \<and>
    inj_on (\<lambda>k. fr_registration (sock_reg (the (socks n k)))) (dom (socks n))"
proof -
  have "epoll_reachable E (c + holders n, queue n)" "net_inv n"
    using net_reachable_epoll [OF assms] by simp_all
  moreover from this(2) have "inj_on (\<lambda>k. fr_registration (sock_reg (the (socks n k)))) (dom (socks n))"
    by (intro inj_onI) (auto simp: net_inv_def)
  ultimately show ?thesis by (auto simp: net_inv_def owns_def)
qed

text \<open>A stream on descriptor 5, on a kernel that refuses \<open>EPOLL_CTL_DEL\<close> on a closed descriptor.\<close>

definition linux_ebadf :: env where
  "linux_ebadf = linux\<lparr>os_int := (\<lambda>tr c. case c of
     EpollCtl _ EPOLL_CTL_DEL fd _ \<Rightarrow>
       if kernel_table tr fd = None then Inl \<lparr>kind = OtherKind, raw_os_error = Some 9\<rparr> else Inr 0
   | _ \<Rightarrow> Inr (linux_int c))\<rparr>"

definition demo_sock :: net where
  "demo_sock = snd (TcpStream_from_stream linux_ebadf 5
     \<lparr>queue = projr (Epoll_new linux_ebadf []), socks = Map.empty, next_sock = 0\<rparr>)"

lemma demo_sock_reachable: "net_reachable linux_ebadf (1, demo_sock)"
proof (rule net_reachable.NetStep)
  show "net_reachable linux_ebadf
      (1, \<lparr>queue = projr (Epoll_new linux_ebadf []), socks = Map.empty, next_sock = 0\<rparr>)"
    by (rule net_reachable.NetInit) (simp add: Epoll_new_def linux_ebadf_def linux_def)
  show "net_step linux_ebadf
      (1, \<lparr>queue = projr (Epoll_new linux_ebadf []), socks = Map.empty, next_sock = 0\<rparr>) (1, demo_sock)"
    by (rule net_step.NewStream [of _ 5])
      (simp_all add: demo_sock_def Epoll_new_def linux_ebadf_def linux_def prod_eq_iff)
qed

lemma demo_sock_cell: "heap (queue demo_sock) 2 = Some \<lparr>strong = 1, weak = 1, reg_fd = 5, epoll_data = 2,
    reg_handler = FuturesHandler 1\<rparr>"
  by code_simp

lemma demo_sock_0: "socks demo_sock 0 = Some \<lparr>refs = 1, std_fd = 5,
    sock_reg = \<lparr>fr_registration = 2, fr_inner = 1\<rparr>, sock_handle = False\<rparr>"
  by code_simp

theorem sockets_use_instance_witness:
  "epoll_reachable linux_ebadf (1 + holders demo_sock, queue demo_sock) \<and> socks demo_sock 0 \<noteq> None"
  using sockets_use_instance [OF demo_sock_reachable] demo_sock_0 by simp

text \<open>
  Dropping the last handle of a socket closes its descriptor before it unregisters it, since \<open>std\<close>
  is declared before \<open>registration\<close>.  When \<open>EPOLL_CTL_DEL\<close> then fails, as \<open>epoll_ctl(2)\<close> does for a
  descriptor that is closed, the weak reference of the kernel is not dropped: whatever the program does
  afterwards, the allocation of the registration is never freed.
\<close>

theorem sock_drop_leaks_registration:
  assumes "net_reachable E (c, n)" and "socks n k = Some x" and "refs x = 1"
    and "fr_registration (sock_reg x) = a" and "heap (queue n) a = Some cl" and "strong cl = 1"
    and "\<And>ok. os_int E (trace (queue n) @ [(CloseFd (std_fd x), ok)])
           (EpollCtl (epfd (queue n)) EPOLL_CTL_DEL (reg_fd cl) None) = Inl e"
    and "(net_step E)\<^sup>*\<^sup>* (c, sock_drop E k n) (c', n')"
  shows "heap (queue n') a = Some (cl\<lparr>strong := 0\<rparr>) \<and> weak cl = 1"
proof -
  let ?q = "close_fd E (std_fd x) (queue n)"
  have net: "net_inv n" using net_reachable_epoll [OF assms(1)] by simp
  then have inv: "weak cl = 1" "a < fresh (queue n)"
    using assms(5) by (auto simp: net_inv_def reg_inv_def)
  have q: "heap ?q = heap (queue n)" "fresh ?q = fresh (queue n)" "epfd ?q = epfd (queue n)"
    "trace ?q = trace (queue n) @ [(CloseFd (std_fd x), is_ok (os_int E (trace (queue n)) (CloseFd (std_fd x))))]"
    by (simp_all add: close_fd_def sys_def Let_def)
  have "leaked a (cl\<lparr>strong := 0\<rparr>) (Registration_drop E a ?q)"
    using assms(5-7) inv q drop_inner_leaked
    by (auto simp: Registration_drop_def sys_def intro!: drop_inner_leaked)
      (auto simp: leaked_def set_cell_def)
  then have "leaked a (cl\<lparr>strong := 0\<rparr>) (queue (sock_drop E k n))"
    using assms(2-4) by (auto simp: sock_drop_def Let_def intro: drop_inner_leaked)
  moreover have "net_inv (sock_drop E k n)"
    using run_drop [OF net assms(2)] by (simp add: net_run_def)
  ultimately show ?thesis
    using steps_leaked net_steps_run [OF assms(8)] inv by (fastforce simp: leaked_def)
qed

theorem sock_drop_leaks_registration_witness:
  "\<exists>cl. heap (queue (sock_drop linux_ebadf 0 demo_sock)) 2 = Some cl \<and> strong cl = 0"
proof -
  have "os_int linux_ebadf (trace (queue demo_sock) @ [(CloseFd 5, ok)])
      (EpollCtl (epfd (queue demo_sock)) EPOLL_CTL_DEL 5 None) =
      Inl \<lparr>kind = OtherKind, raw_os_error = Some 9\<rparr>" for ok
    by (simp add: linux_ebadf_def)
  then show ?thesis
    using sock_drop_leaks_registration [OF demo_sock_reachable demo_sock_0 _ _ demo_sock_cell _ _ rtranclp.rtrancl_refl]
    by force
qed

end
