(* ===== verification/InterestSafety.thy ===== *)
theory InterestSafety
  imports EventRuns NetSafety
begin

text \<open>
  What the interests and custom events of an epoll instance promise (\<open>src/src/epoll/mod.rs\<close>), and where
  the futures of \<open>src/src/epoll/net.rs\<close> wait in vain.
\<close>

subsection \<open>What has fired stays fired\<close>

definition has_fired :: "addr \<Rightarrow> epoll \<Rightarrow> bool" where
  "has_fired j s \<longleftrightarrow> fired s j \<and> j < fresh s"

lemma has_fired_same:
  "has_fired j s \<Longrightarrow> fired s' = fired s \<Longrightarrow> fresh s \<le> fresh s' \<Longrightarrow> has_fired j s'"
  by (simp add: has_fired_def)

lemma modify_has_fired: "modify E a m md s = (r, s') \<Longrightarrow> has_fired j s \<Longrightarrow> has_fired j s'"
  by (drule modify_notifications) (auto simp: has_fired_def)

lemma Futures_handle_event_has_fired:
  assumes "Futures_handle_event E h a ev s = Val s'" and "has_fired j s"
  shows "has_fired j s'"
  using assms(1) by (cases rule: Futures_handle_event_ValE) (use assms(2) in \<open>auto simp: has_fired_def\<close>)

interpretation stays: dispatch_invariant E "\<lambda>_. has_fired j" for E j
proof
  fix s a and c :: reg_cell and h ev s'
  assume "has_fired j s" "Futures_handle_event E h a ev s = Val s'"
  then show "has_fired j s'" by (blast intro: Futures_handle_event_has_fired)
next
  fix s a and c :: reg_cell and m md r s'
  assume "has_fired j s" "modify E a m md s = (r, s')"
  then show "has_fired j s'" by (blast intro: modify_has_fired)
qed (auto simp: has_fired_def reg_clone_quiet Registration_drop_quiet)

lemma register_fd_raw_has_fired:
  "register_fd_raw E fd m md h s = (r, s') \<Longrightarrow> has_fired j s \<Longrightarrow> has_fired j s'"
  by (auto simp: register_fd_raw_def Let_def sys_def has_fired_def split: sum.splits)

lemma FuturesRegistration_new_has_fired:
  "FuturesRegistration_new E fd s = (r, s') \<Longrightarrow> has_fired j s \<Longrightarrow> has_fired j s'"
  by (auto simp: FuturesRegistration_new_def register_fd_raw_def Let_def sys_def has_fired_def
      split: sum.splits prod.splits)

lemma new_custom_event_has_fired:
  "new_custom_event E s = (r, s') \<Longrightarrow> has_fired j s \<Longrightarrow> has_fired j s'"
  by (auto simp: new_custom_event_def register_fd_raw_def drop_inner_def handle_def Let_def sys_def
      has_fired_def split: sum.splits prod.splits if_splits)

lemma add_interest_has_fired:
  "add_interest E fr ev t s = (r, s') \<Longrightarrow> has_fired j s \<Longrightarrow> has_fired j s'"
  by (auto simp: add_interest_def register_def emit_def modify_def sys_def Let_def has_fired_def
      split: sum.splits prod.splits if_splits option.splits)

lemma post_custom_event_has_fired:
  "post_custom_event E tag d s = Val (r, s') \<Longrightarrow> has_fired j s \<Longrightarrow> has_fired j s'"
  by (auto simp: post_custom_event_def sys_def emit_def Let_def has_fired_def
      split: sum.splits if_splits option.splits)

lemma step_has_fired: "epoll_step E p q \<Longrightarrow> has_fired j (snd p) \<Longrightarrow> has_fired j (snd q)"
proof (induction rule: epoll_step.induct)
  case (Turn n chk self w s r6 s')
  then show ?case using stays.turn_keeps [OF Turn(2)] by simp
next
  case (TurnInterruptible n chk self w i s r6 s')
  then show ?case using stays.turn_interruptible_keeps [OF TurnInterruptible(2)] by simp
next
  case (InterruptCall i s r7 s' n)
  then show ?case by (auto simp: interrupt_def sys_def Let_def has_fired_def split: if_splits sum.splits)
qed (auto dest: register_fd_raw_has_fired FuturesRegistration_new_has_fired new_custom_event_has_fired
    modify_has_fired add_interest_has_fired post_custom_event_has_fired
    simp: has_fired_def handle_def drop_inner_quiet reg_clone_quiet Registration_drop_quiet
      FutureInterest_poll_def register_def emit_def Interrupt_new_def split: if_splits)

lemma steps_has_fired: "(epoll_step E)\<^sup>*\<^sup>* p q \<Longrightarrow> has_fired j (snd p) \<Longrightarrow> has_fired j (snd q)"
  by (induction rule: rtranclp_induct) (auto intro: step_has_fired)

subsection \<open>Interests\<close>

text \<open>
  C11. Every interest is notified at most once, exactly when it has fired, and an interest that has fired
  is in no vector any more: no later event can notify it again.
\<close>

theorem interest_notified_once:
  assumes "epoll_reachable E (n, s)"
  shows "notifications j (trace s) = (if fired s j then 1 else 0) \<and>
    (fired s j \<longrightarrow> (\<forall>h. j \<notin> waiting s h)) \<and> distinct (map snd (interests s h))"
  using once_invD [OF reachable_once [OF assms], of j] once_invD(1) [OF reachable_once [OF assms], of h]
  by auto

text \<open>A registration on which two tasks wait, one to read and one to write.\<close>

definition demo_fr :: futures_registration where
  "demo_fr = \<lparr>fr_registration = 2, fr_inner = 1\<rparr>"

definition demo_read :: epoll where
  "demo_read = snd (add_interest linux_ready demo_fr 1 7 demo_futures)"

definition demo_both :: epoll where
  "demo_both = snd (add_interest linux_ready demo_fr 4 8 demo_read)"

lemma demo_usable:
  "usable demo_futures 2 (\<lambda>h. h = FuturesHandler 1)" "usable demo_read 2 (\<lambda>h. h = FuturesHandler 1)"
  by code_simp+

lemma demo_read_reachable: "epoll_reachable linux_ready (1, demo_read)"
  by (rule epoll_reachable.Step [OF demo_futures_reachable], rule epoll_step.AddInterest [of _ demo_fr])
    (simp_all add: demo_fr_def demo_usable demo_read_def prod_eq_iff del: One_nat_def)

lemma demo_both_reachable: "epoll_reachable linux_ready (1, demo_both)"
  by (rule epoll_reachable.Step [OF demo_read_reachable], rule epoll_step.AddInterest [of _ demo_fr])
    (simp_all add: demo_fr_def demo_usable demo_both_def prod_eq_iff del: One_nat_def)

lemma demo_both_state:
  "interests demo_both 1 = [(1, 3), (4, 4)]" "trace demo_both = [(EpollCreate1, True),
    (EpollCtl 3 EPOLL_CTL_ADD 4 (Some (0xC0000000, 2)), True), (TaskRegister 3 7, True),
    (EpollCtl 3 EPOLL_CTL_MOD 4 (Some (0xC0000001, 2)), True), (TaskRegister 4 8, True),
    (EpollCtl 3 EPOLL_CTL_MOD 4 (Some (0xC0000005, 2)), True)]"
  "heap demo_both 2 = Some \<lparr>strong = 1, weak = 1, reg_fd = 4, epoll_data = 2, reg_handler = FuturesHandler 1\<rparr>"
  by code_simp+

theorem interest_notified_once_witness:
  "notifications 3 (trace demo_both) = (if fired demo_both 3 then 1 else 0) \<and>
   distinct (map snd (interests demo_both 1))"
  using interest_notified_once [OF demo_both_reachable, of 3 1] by simp

text \<open>
  C2. No waiting interest is forgotten, unless an \<open>EPOLL_CTL_MOD\<close> fails or the descriptor is closed: as long as no
  \<open>EPOLL_CTL_MOD\<close> has failed and the kernel has the registration of a waiting interest in its table, it watches
  that registration, once, for the union of what its interests wait for.  An interest that waits for
  nothing (an empty mask) is the exception.
\<close>

theorem waiting_interests_armed:
  assumes "epoll_reachable E (n, s)" and "flags_ok E" and "no_failed_mod (trace s)"
    and "heap s a = Some c" and "0 < strong c" and "reg_handler c = FuturesHandler h"
    and "kernel_table (trace s) (reg_fd c) = Some a"
    and "(m, j) \<in> set (interests s h)" and "m \<noteq> 0"
  shows "armed a (trace s) = Some (mask_of (interests s h) OR (EDGE E OR ONE_SHOT E)) \<and>
    mask_of (interests s h) AND m = m"
proof -
  have sub: "bit m k \<Longrightarrow> bit (mask_of (interests s h)) k" for k
    using assms(8) by (auto simp: bit_mask_of)
  moreover obtain k where "bit m k" using assms(9) by (metis bit_0_eq bit_eq_iff bot_apply bot_bool_def)
  ultimately have "mask_of (interests s h) \<noteq> 0" by auto
  then have "asked a (trace s) = Some (arm_mask E s h)"
    using arm_invD(4) [OF reachable_arm [OF assms(1,2)], of a h] assms(3-6) by (simp add: listens_def)
  then have "armed a (trace s) = Some (arm_mask E s h)" using assms(7) by (auto simp: armed_def ran_def)
  then show ?thesis using sub by (simp add: arm_mask_def word_and_eq_right_iff)
qed

theorem waiting_interests_armed_witness:
  "armed 2 (trace demo_both) = Some (mask_of (interests demo_both 1) OR (EDGE linux_ready OR ONE_SHOT linux_ready))"
  using waiting_interests_armed [OF demo_both_reachable flags_ok_linux_ready _ demo_both_state(3), of 1 4 4]
  by (simp add: demo_both_state no_failed_mod_def kernel_table_def del: One_nat_def)

text \<open>
  C17. The loop of the handler, with its index and \<open>swap_remove\<close>, computes the partition of the vector: the
  interests the event hits leave it in some order, fired and notified, the others stay, and the
  registration is re-armed for their union when there are any; a failing \<open>EPOLL_CTL_MOD\<close> is a panic.
\<close>

theorem Futures_handle_event_partition:
  assumes "flags_ok E"
  shows "\<exists>ys js. mset ys = mset (filter (\<lambda>(m, _). \<not> hit E ev m) (interests s h)) \<and>
    mset js = mset (map snd (filter (\<lambda>(m, _). hit E ev m) (interests s h))) \<and>
    Futures_handle_event E h a ev s =
      (let s1 = s\<lparr>fired := (\<lambda>j. fired s j \<or> j \<in> set js), trace := trace s @ notified js,
                 interests := (interests s)(h := ys)\<rparr>
       in if ys = [] then Val s1
          else case modify E a (mask_of ys) (EDGE E OR ONE_SHOT E) s1 of
                 (Inl _, _) \<Rightarrow> Panic
               | (Inr _, s2) \<Rightarrow> Val s2)"
proof -
  obtain ys rem s1 where loop: "fire_loop E ev (interests s h) 0 None s = (ys, rem, s1)"
    by (cases "fire_loop E ev (interests s h) 0 None s")
  obtain js where js: "mset js = mset (map snd (fires E ev (interests s h)))"
    "s1 = s\<lparr>fired := (\<lambda>j. fired s j \<or> j \<in> set js), trace := trace s @ notified js\<rparr>"
    "mset ys = mset (keeps E ev (interests s h))"
    using fire_loop_spec [OF loop] by auto
  have rem: "rem = (if ys = [] then None else Some (mask_of ys))"
    using fire_loop_mask [OF loop assms] by simp
  have "Futures_handle_event E h a ev s =
      (let s1 = s\<lparr>fired := (\<lambda>j. fired s j \<or> j \<in> set js), trace := trace s @ notified js,
                 interests := (interests s)(h := ys)\<rparr>
       in if ys = [] then Val s1
          else case modify E a (mask_of ys) (EDGE E OR ONE_SHOT E) s1 of
                 (Inl _, _) \<Rightarrow> Panic
               | (Inr _, s2) \<Rightarrow> Val s2)"
    using loop rem by (simp add: Futures_handle_event_def js(2) flags_okD [OF assms] Let_def)
  with js show ?thesis unfolding keeps_def fires_def by blast
qed

theorem Futures_handle_event_partition_witness:
  "\<exists>s'. Futures_handle_event linux_ready 1 2 1 demo_both = Val s' \<and> set (interests s' 1) = {(4, 4)}"
proof -
  obtain ys js where split: "mset ys = mset (filter (\<lambda>(m, _). \<not> hit linux_ready 1 m) (interests demo_both 1))"
    and run: "Futures_handle_event linux_ready 1 2 1 demo_both =
      (let s1 = demo_both\<lparr>fired := (\<lambda>j. fired demo_both j \<or> j \<in> set js),
         trace := trace demo_both @ notified js, interests := (interests demo_both)(1 := ys)\<rparr>
       in if ys = [] then Val s1
          else case modify linux_ready 2 (mask_of ys) (EDGE linux_ready OR ONE_SHOT linux_ready) s1 of
                 (Inl _, _) \<Rightarrow> Panic
               | (Inr _, s2) \<Rightarrow> Val s2)"
    using Futures_handle_event_partition [OF flags_ok_linux_ready, of 1 demo_both 1 2] by blast
  have "mset ys = {#(4, 4)#}"
    using split by (simp add: demo_both_state hit_def flags_okD [OF flags_ok_linux_ready] flag_defs
        del: One_nat_def) (simp add: linux_ready_def linux_def)
  then have "ys = [(4, 4)]" by simp
  with run show ?thesis
    by (simp add: modify_def demo_both_state sys_def Let_def del: One_nat_def)
      (simp add: linux_ready_def linux_def)
qed

text \<open>
  An event is compared with an interest by \<open>interest_mask.contains(events)\<close>.  When the kernel reports
  several conditions at once, say readable and writable, and no interest alone waits for all of them,
  nobody is notified, all keep waiting, and the registration is re-armed as it was: the kernel reports
  the same event again.
\<close>

theorem combined_event_fires_nobody:
  assumes "flags_ok E" and "heap s a = Some c" and "epoll_data c = a" and "interests s h \<noteq> []"
    and "\<And>m j. (m, j) \<in> set (interests s h) \<Longrightarrow> m AND ev \<noteq> ev"
    and "ev AND (HUP E OR ERROR E) = 0"
    and "Futures_handle_event E h a ev s = Val s'"
  shows "fired s' = fired s \<and> (\<forall>j. notifications j (trace s') = notifications j (trace s)) \<and>
    mset (interests s' h) = mset (interests s h) \<and>
    armed a (trace s') = Some (mask_of (interests s h) OR (EDGE E OR ONE_SHOT E))"
proof -
  have none: "fires E ev (interests s h) = []" "keeps E ev (interests s h) = interests s h"
    using assms(5,6) by (auto simp: fires_def keeps_def hit_def flags_okD [OF assms(1)] filter_empty_conv
        filter_id_conv)
  from assms(7) show ?thesis
  proof (cases rule: Futures_handle_event_ValE)
    case (1 ys js rem)
    then have js: "js = []" and ys: "mset ys = mset (interests s h)" "ys \<noteq> []"
      using none assms(4) by auto
    have "rem = Some (mask_of ys)"
      using fire_loop_mask [OF 1(8) assms(1)] ys(2) by simp
    moreover have "mask_of ys = mask_of (interests s h)"
      using ys(1) by (intro mask_of_cong) (rule mset_eq_setD)
    ultimately show ?thesis
      using 1(3,4,9) js ys assms(2,3) by (auto simp: notified_def flags_okD [OF assms(1)])
  qed
qed

theorem combined_event_fires_nobody_witness:
  "\<exists>s'. Futures_handle_event linux_ready 1 2 5 demo_both = Val s' \<and> fired s' = fired demo_both \<and>
     mset (interests s' 1) = {#(1, 3), (4, 4)#} \<and> armed 2 (trace s') = armed 2 (trace demo_both)"
proof -
  have "case Futures_handle_event linux_ready 1 2 5 demo_both of Val _ \<Rightarrow> True | _ \<Rightarrow> False"
    by code_simp
  then obtain s' where run: "Futures_handle_event linux_ready 1 2 5 demo_both = Val s'"
    by (simp split: rust.splits)
  have "kernel_table (trace demo_both) 4 = Some 2" "asked 2 (trace demo_both) = Some 0xC0000005"
    by (simp_all add: demo_both_state asked_def kernel_table_def)
  then have "armed 2 (trace demo_both) = Some 0xC0000005" by (auto simp: armed_def ran_def)
  moreover have "mask_of (interests demo_both 1) OR (EDGE linux_ready OR ONE_SHOT linux_ready) = 0xC0000005"
    by (simp add: demo_both_state mask_of_def flag_defs linux_ready_def linux_def del: One_nat_def)
  moreover have single: "m AND 5 \<noteq> 5" if "(m, j) \<in> set (interests demo_both 1)" for m j
    using that by (auto simp: demo_both_state simp del: One_nat_def)
  moreover have "(5 :: u32) AND (HUP linux_ready OR ERROR linux_ready) = 0"
    by (simp add: flag_defs linux_ready_def linux_def)
  moreover have "interests demo_both 1 \<noteq> []" by (simp add: demo_both_state del: One_nat_def)
  ultimately show ?thesis
    using combined_event_fires_nobody [OF flags_ok_linux_ready demo_both_state(3) _ _ single _ run] run
    by (simp add: demo_both_state(1) del: One_nat_def)
qed

text \<open>
  C38. \<open>add_interest\<close> puts the interest into the vector before it arms the registration.  When
  \<open>EPOLL_CTL_MOD\<close> fails, the caller gets the error but the entry stays, and the next \<open>add_interest\<close> for
  the same condition takes the registration to be armed: it makes no system call and returns an interest
  that nothing watches for.
\<close>

theorem failed_arm_strands_next_interest:
  assumes "flags_ok E" and "add_interest E fr ev t s = (Inl e, s1)" and "add_interest E fr ev u s1 = (r, s2)"
  shows "r = Inr (fresh s1) \<and> trace s2 = trace s1 @ [(TaskRegister (fresh s1) u, True)] \<and>
    fresh s1 \<in> waiting s2 (fr_inner fr) \<and> (\<forall>a. armed a (trace s2) = armed a (trace s))"
proof -
  let ?h = "fr_inner fr"
  let ?s2 = "register (fresh s) t (s\<lparr>fresh := fresh s + 1, fired := (fired s)(fresh s := False)\<rparr>)
    \<lparr>interests := (interests s)(?h := interests s ?h @ [(ev, fresh s)])\<rparr>"
  have "Inl e \<noteq> (Inr (fresh s) :: io_error + addr)" by simp
  then obtain y where y: "modify E (fr_registration fr) (mask_of (interests s ?h) OR ev)
      (EDGE E OR ONE_SHOT E) ?s2 = (y, s1)" "Inl e = (case y of Inl e \<Rightarrow> Inl e | Inr _ \<Rightarrow> Inr (fresh s))"
    using add_interest_shape [OF assms(2,1)] by blast
  then obtain x where "y = Inl x" by (cases y) auto
  with y(1) have x: "modify E (fr_registration fr) (mask_of (interests s ?h) OR ev)
      (EDGE E OR ONE_SHOT E) ?s2 = (Inl x, s1)" by simp
  then have s1: "interests s1 ?h = interests s ?h @ [(ev, fresh s)]"
    "\<exists>p fd m a. trace s1 = trace s @ [(TaskRegister (fresh s) t, True),
       (EpollCtl p EPOLL_CTL_MOD fd (Some (m, a)), False)]"
    by (auto simp: modify_def sys_def Let_def register_def emit_def split: option.splits sum.splits)
  then have "mask_of (interests s1 ?h) AND ev = ev"
    by (auto simp: word_and_eq_right_iff bit_simps)
  then have s2: "r = Inr (fresh s1)" "s2 = register (fresh s1) u (s1\<lparr>fresh := fresh s1 + 1,
      fired := (fired s1)(fresh s1 := False)\<rparr>)\<lparr>interests := (interests s1)(?h := interests s1 ?h @ [(ev, fresh s1)])\<rparr>"
    using add_interest_shape [OF assms(3,1)] by auto
  moreover have "armed a (trace s1) = armed a (trace s)" for a
    using s1(2) by (auto simp: armed_def asked_append kernel_table_def)
  ultimately show ?thesis by (auto simp: register_def emit_def waiting_def)
qed

definition linux_nomod :: env where
  "linux_nomod = linux\<lparr>os_int := (\<lambda>tr c. case c of
     EpollCtl _ EPOLL_CTL_MOD _ _ \<Rightarrow>
       if length tr < 4 then Inl \<lparr>kind = OtherKind, raw_os_error = Some 12\<rparr> else Inr 0
   | _ \<Rightarrow> Inr (linux_int c))\<rparr>"

theorem failed_arm_strands_next_interest_witness:
  "\<exists>e s1 s2. add_interest linux_nomod demo_fr 1 7 demo_futures = (Inl e, s1) \<and>
     add_interest linux_nomod demo_fr 1 8 s1 = (Inr 4, s2) \<and> armed 2 (trace s2) = armed 2 (trace demo_futures)"
proof -
  let ?s1 = "snd (add_interest linux_nomod demo_fr 1 7 demo_futures)"
  have 1: "fst (add_interest linux_nomod demo_fr 1 7 demo_futures) =
      Inl \<lparr>kind = OtherKind, raw_os_error = Some 12\<rparr>" "fresh ?s1 = 4"
    by code_simp+
  obtain r s2 where 2: "add_interest linux_nomod demo_fr 1 8 ?s1 = (r, s2)"
    by (cases "add_interest linux_nomod demo_fr 1 8 ?s1")
  have "add_interest linux_nomod demo_fr 1 7 demo_futures =
      (Inl \<lparr>kind = OtherKind, raw_os_error = Some 12\<rparr>, ?s1)"
    using 1(1) by (simp add: prod_eq_iff)
  moreover have "flags_ok linux_nomod" by (simp add: linux_nomod_def)
  ultimately show ?thesis
    using failed_arm_strands_next_interest [OF _ _ 2] 1(2) 2 by fastforce
qed

text \<open>
  C31. A future whose interest has fired keeps it when the socket would block all the same, and only
  registers its task with it again.  The interest has left the vector for good: whatever the program
  does from then on, that task is never notified again through it.
\<close>

theorem spurious_readiness_hangs:
  assumes "net_reachable E (c, n)" and "socks n k = Some x" and "fired (queue n) j"
    and "TcpRead_poll E t (ReadPending k b (Some j)) n = Val (Inr NotReady, st, n')"
    and "(net_step E)\<^sup>*\<^sup>* (c, n') (c', n'')"
  shows "st = ReadPending k b (Some j) \<and>
    notifications j (trace (queue n'')) = notifications j (trace (queue n'))"
proof -
  have st: "st = ReadPending k b (Some j)"
  proof -
    have "interest_ready (Some j) t n = (True, n)"
      using assms(3) by (simp add: interest_ready_def on_queue_def FutureInterest_poll_def)
    moreover have "s = pend j" if "again E k ev (Some j) t pend none m = (Inr NotReady, s, m')"
      for ev pend none m s m'
      using that by (auto simp: again_def wait_for_def split: prod.splits sum.splits)
    ultimately show ?thesis
      using assms(4) by (auto simp: TcpRead_poll_def split: prod.splits sum.splits if_splits)
  qed
  have r1: "net_reachable E (c, n')"
    by (rule net_reachable.NetStep [OF assms(1)], rule net_step.PollRead [OF assms(2,4)])
  then have e1: "epoll_reachable E (c + holders n', queue n')" "net_inv n'"
    using net_reachable_epoll by blast+
  have run: "(epoll_step E)\<^sup>*\<^sup>* (c + holders n', queue n') (c' + holders n'', queue n'')"
    using net_steps_run [OF assms(5) e1(2)] by simp
  have e0: "epoll_reachable E (c + holders n, queue n)" "net_inv n"
    using net_reachable_epoll [OF assms(1)] by blast+
  have step: "(epoll_step E)\<^sup>*\<^sup>* (c + holders n, queue n) (c + holders n', queue n')"
    using run_TcpRead_poll [OF assms(4) e0(2) assms(2), of c] by (simp add: net_run_def)
  have "has_fired j (queue n)"
    using assms(3) once_invD(4) [OF reachable_once [OF e0(1)]] by (simp add: has_fired_def)
  then have f1: "has_fired j (queue n')" using steps_has_fired [OF step] by simp
  then have f2: "has_fired j (queue n'')" using steps_has_fired [OF run] by simp
  have "epoll_reachable E (c' + holders n'', queue n'')" using reachable_steps [OF run e1(1)] .
  then have "once_inv (queue n')" "once_inv (queue n'')"
    using reachable_once e1(1) by fastforce+
  then have "notifications j (trace (queue n'')) = notifications j (trace (queue n'))"
    using once_invD(5) f1 f2 by (metis has_fired_def)
  with st show ?thesis by blast
qed

text \<open>A stream on descriptor 5 that is reported readable and has nothing to read.\<close>

definition spurious_events :: "trace \<Rightarrow> call \<Rightarrow> io_error + (u32 \<times> addr) list" where
  "spurious_events tr c = Inr (case c of
       EpollWait _ n _ \<Rightarrow> (case kernel_table tr 5 of None \<Rightarrow> [] | Some a \<Rightarrow> take n [(1, a)])
     | _ \<Rightarrow> [])"

definition linux_spurious :: env where
  "linux_spurious = linux\<lparr>os_data := (\<lambda>_ _. Inl would_block), os_events := spurious_events\<rparr>"

definition net_start :: net where
  "net_start = \<lparr>queue = projr (Epoll_new linux_spurious []), socks = Map.empty, next_sock = 0\<rparr>"

definition net_sock :: net where
  "net_sock = snd (TcpStream_from_stream linux_spurious 5 net_start)"

definition after_poll :: "('a \<times> 'st \<times> net) rust \<Rightarrow> net" where
  "after_poll r = (case r of Val (_, _, n) \<Rightarrow> n | _ \<Rightarrow> net_start)"

definition no_bytes :: bytes_mut where
  "no_bytes = \<lparr>mem = [0, 0], blen = 0\<rparr>"

definition net_wait :: net where
  "net_wait = after_poll (TcpRead_poll linux_spurious 7 (ReadPending 0 no_bytes None) net_sock)"

definition net_turned :: net where
  "net_turned = net_wait\<lparr>queue := (case turn linux_spurious True 9 None (queue net_wait) of
     Some (Val (_, q)) \<Rightarrow> q | _ \<Rightarrow> queue net_wait)\<rparr>"

fun is_val :: "'a rust \<Rightarrow> bool" where
  "is_val (Val _) = True"
| "is_val _ = False"

lemma net_eval:
  "is_val (TcpRead_poll linux_spurious 7 (ReadPending 0 no_bytes None) net_sock)"
  "is_val (the (turn linux_spurious True 9 None (queue net_wait)))"
  "turn linux_spurious True 9 None (queue net_wait) \<noteq> None"
  "fired (queue net_turned) 3"
  by code_simp+

lemma net_steps:
  "net_step linux_spurious (1, net_start) (1, net_sock)"
  "net_step linux_spurious (1, net_sock) (1, net_wait)"
  "net_step linux_spurious (1, net_wait) (1, net_turned)"
proof -
  show "net_step linux_spurious (1, net_start) (1, net_sock)"
    by (rule net_step.NewStream [of _ 5])
      (simp_all add: net_start_def net_sock_def Epoll_new_def linux_spurious_def linux_def prod_eq_iff)
  obtain r st n where "TcpRead_poll linux_spurious 7 (ReadPending 0 no_bytes None) net_sock = Val (r, st, n)"
    using net_eval(1) by (cases "TcpRead_poll linux_spurious 7 (ReadPending 0 no_bytes None) net_sock") auto
  moreover have "socks net_sock 0 = Some \<lparr>refs = 1, std_fd = 5,
      sock_reg = \<lparr>fr_registration = 2, fr_inner = 1\<rparr>, sock_handle = False\<rparr>"
    by code_simp
  ultimately show "net_step linux_spurious (1, net_sock) (1, net_wait)"
    by (auto simp: net_wait_def after_poll_def intro: net_step.PollRead)
  obtain r q where "turn linux_spurious True 9 None (queue net_wait) = Some (Val (r, q))"
    using net_eval(2,3) by (cases "the (turn linux_spurious True 9 None (queue net_wait))") auto
  then show "net_step linux_spurious (1, net_wait) (1, net_turned)"
    by (auto simp: net_turned_def intro: net_step.NetTurn)
qed

lemma net_turned_reachable: "net_reachable linux_spurious (1, net_turned)"
proof -
  have "net_reachable linux_spurious (1, net_start)"
    unfolding net_start_def by (rule net_reachable.NetInit)
      (simp add: Epoll_new_def linux_spurious_def linux_def)
  then show ?thesis using net_steps by (blast intro: net_reachable.NetStep)
qed

definition net_hung :: net where
  "net_hung = after_poll (TcpRead_poll linux_spurious 7 (ReadPending 0 no_bytes (Some 3)) net_turned)"

fun not_ready :: "('a io_poll \<times> 'st \<times> net) rust \<Rightarrow> bool" where
  "not_ready (Val (Inr NotReady, _, _)) = True"
| "not_ready _ = False"

lemma not_ready_Val: "not_ready r \<Longrightarrow> \<exists>st n. r = Val (Inr NotReady, st, n)"
  by (cases r rule: not_ready.cases) auto

lemma net_hung_eval:
  "not_ready (TcpRead_poll linux_spurious 7 (ReadPending 0 no_bytes (Some 3)) net_turned)"
  "is_val (the (turn linux_spurious True 9 None (queue net_hung)))"
  "turn linux_spurious True 9 None (queue net_hung) \<noteq> None"
  "socks net_turned 0 = Some \<lparr>refs = 1, std_fd = 5,
      sock_reg = \<lparr>fr_registration = 2, fr_inner = 1\<rparr>, sock_handle = False\<rparr>"
  by code_simp+

theorem spurious_readiness_hangs_witness:
  "\<exists>r q. turn linux_spurious True 9 None (queue net_hung) = Some (Val (r, q)) \<and>
     notifications 3 (trace q) = notifications 3 (trace (queue net_hung))"
proof -
  obtain st where poll: "TcpRead_poll linux_spurious 7 (ReadPending 0 no_bytes (Some 3)) net_turned =
      Val (Inr NotReady, st, net_hung)"
    using not_ready_Val [OF net_hung_eval(1)] by (auto simp: net_hung_def after_poll_def)
  obtain r q where turn: "turn linux_spurious True 9 None (queue net_hung) = Some (Val (r, q))"
    using net_hung_eval(2,3) by (cases "the (turn linux_spurious True 9 None (queue net_hung))") auto
  have "(net_step linux_spurious)\<^sup>*\<^sup>* (1, net_hung) (1, net_hung\<lparr>queue := q\<rparr>)"
    by (rule r_into_rtranclp, rule net_step.NetTurn [OF _ turn]) simp
  then have "notifications 3 (trace q) = notifications 3 (trace (queue net_hung))"
    using spurious_readiness_hangs [OF net_turned_reachable net_hung_eval(4) net_eval(4) poll] by force
  with turn show ?thesis by blast
qed

subsection \<open>Custom events\<close>

text \<open>
  C6. Each word posted to a custom event is handed to its handler once, in the order of posting: in every
  reachable state the words posted are those handled followed by those still in the queue.
\<close>

theorem posted_words_handled_in_order:
  assumes "epoll_reachable E (n, s)" and "seg_queue_ok E"
  shows "posted p (trace s) = handled p (trace s) @ seg_contents p (trace s)"
  using reachable_fifo [OF assms(1), of p] assms(2) by (simp add: fifo_inv_def)

definition demo_posted :: epoll where
  "demo_posted = (case post_custom_event linux_ready \<lparr>tag_ptr = 3, tag_epoll_fd = 3\<rparr> 42 demo of
     Val (_, s) \<Rightarrow> s | _ \<Rightarrow> demo)"

lemma demo_posted_reachable: "epoll_reachable linux_ready (1, demo_posted)"
proof -
  have "is_val (post_custom_event linux_ready \<lparr>tag_ptr = 3, tag_epoll_fd = 3\<rparr> 42 demo)" by code_simp
  then obtain r s where "post_custom_event linux_ready \<lparr>tag_ptr = 3, tag_epoll_fd = 3\<rparr> 42 demo = Val (r, s)"
    by (cases "post_custom_event linux_ready \<lparr>tag_ptr = 3, tag_epoll_fd = 3\<rparr> 42 demo") auto
  moreover from this have "epoll_step linux_ready (1, demo) (1, s)"
    by (rule epoll_step.PostCustomEvent [rotated]) simp
  ultimately show ?thesis
    using epoll_reachable.Step [OF demo_reachable] by (simp add: demo_posted_def)
qed

theorem posted_words_handled_in_order_witness:
  "\<exists>r s. turn linux_ready True 9 None demo_posted = Some (Val (r, s)) \<and>
     posted 3 (trace s) = handled 3 (trace s) @ seg_contents 3 (trace s) \<and> handled 3 (trace s) = [42]"
proof -
  have run: "case turn linux_ready True 9 None demo_posted of
      Some (Val (_, s)) \<Rightarrow> handled 3 (trace s) = [42] | _ \<Rightarrow> False"
    by code_simp
  then obtain r s where turn: "turn linux_ready True 9 None demo_posted = Some (Val (r, s))"
    "handled 3 (trace s) = [42]"
    by (auto split: option.splits rust.splits)
  have "epoll_reachable linux_ready (1, s)"
    by (rule epoll_reachable.Step [OF demo_posted_reachable], rule epoll_step.Turn [OF _ turn(1)]) simp
  then show ?thesis using posted_words_handled_in_order [OF _ seg_queue_ok_linux_ready] turn by blast
qed

text \<open>
  A turn whose waits return and whose closures post nothing ends, if nobody else pushes to the queues that
  it empties: an interruptible one always, the other one once signals have stopped interrupting its wait,
  which it restarts.  The queues are first-in first-out queues.  When closures post, \<open>Reposting\<close> says
  which loops end.
\<close>

theorem turn_terminates:
  assumes "seg_queue_ok E"
  shows "(\<exists>r. turn_interruptible E chk self w i s = Some r) \<and>
    (signals_stop E N \<longrightarrow> (\<exists>r. turn E chk self w s = Some r))"
proof
  have wait: "\<exists>y. poll_loop E self (Some i) t s = Some y" for t
  proof (cases "wait_step E self (Some i) t s")
    case (Pair r s')
    then show ?thesis
      using wait_step_interruptible dispatch_events_total [OF assms]
      by (subst poll_loop.simps) (cases r; auto)
  qed
  show "\<exists>r. turn_interruptible E chk self w i s = Some r"
    using wait by (auto simp: turn_interruptible_def poll_def intro!: and_then_total)
  show "signals_stop E N \<longrightarrow> (\<exists>r. turn E chk self w s = Some r)"
    using poll_loop_total [OF assms] by (auto simp: turn_def poll_def intro!: and_then_total)
qed

theorem turn_terminates_witness: "\<exists>r. turn linux_ready True 9 None demo_posted = Some r"
proof -
  have "signals_stop linux_ready 0" by (simp add: signals_stop_def linux_ready_def ready_events_def)
  then show ?thesis using turn_terminates [OF seg_queue_ok_linux_ready] by blast
qed

end
