(* ===== verification/TurnSafety.thy ===== *)
theory TurnSafety
  imports EpollSafety
begin

text \<open>
  Turns of the epoll instance of \<open>src/src/epoll/mod.rs\<close> that are disturbed: while the dispatch loop of
  \<open>Inner::poll\<close> goes through the events of a wait, the handlers it calls and other threads operate on the
  instance.  The loop is a step relation here, between whose steps any operation of the interface may take
  place, and a dispatch uses freed memory exactly when the registration of its event has been freed in between.
\<close>

subsection \<open>The dispatch loop, disturbed\<close>

text \<open>The drop of a registration that frees it: the last reference, and \<open>EPOLL_CTL_DEL\<close> succeeds.\<close>

definition last_drop :: "env \<Rightarrow> addr \<Rightarrow> epoll \<Rightarrow> bool" where
  "last_drop E a s \<longleftrightarrow> (case heap s a of
     None \<Rightarrow> False
   | Some c \<Rightarrow> strong c = 1 \<and> is_ok (os_int E (trace s) (EpollCtl (epfd s) EPOLL_CTL_DEL (reg_fd c) None)))"

definition freed :: "env \<Rightarrow> epoll \<Rightarrow> epoll \<Rightarrow> addr set" where
  "freed E s s' = {a. last_drop E a s \<and> s' = Registration_drop E a s}"

text \<open>
  A state of the loop: the \<open>Registration\<close> that the iteration under way has upgraded, if any, which keeps one
  reference alive; the events that are left; the handles of the client and the instance; and the
  registrations freed so far.  What a handler does to the instance comes after the call of it and before the
  drop at the end of the iteration, what other threads do at any time.
\<close>

type_synonym dispatching = "addr option \<times> (u32 \<times> addr) list \<times> nat \<times> epoll \<times> addr set"

inductive dispatch_step :: "env \<Rightarrow> dispatching \<Rightarrow> dispatching \<Rightarrow> bool" for E where
  Handle: "weak_upgrade a s = Val (Some b, s1) \<Longrightarrow> handle_event E b (bf_truncate E ev) s1 = Some (Val s2) \<Longrightarrow>
    dispatch_step E (None, (ev, a) # es, n, s, D) (Some b, es, n, s2, D)"
| Skip: "weak_upgrade a s = Val (None, s1) \<Longrightarrow> dispatch_step E (None, (ev, a) # es, n, s, D) (None, es, n, s1, D)"
| Release: "dispatch_step E (Some b, es, n, s, D)
    (None, es, n, Registration_drop E b s, D \<union> freed E s (Registration_drop E b s))"
| Other: "epoll_step E (n, s) (n', s') \<Longrightarrow> (\<And>b. g = Some b \<Longrightarrow> usable s' b (\<lambda>_. True)) \<Longrightarrow>
    dispatch_step E (g, es, n, s, D) (g, es, n', s', D \<union> freed E s s')"

text \<open>An iteration that nobody disturbs is \<open>dispatch_one\<close>.\<close>

lemma undisturbed_iteration:
  assumes "dispatch_one E (ev, a) s = Some (Val s')"
  shows "\<exists>D'. (dispatch_step E)\<^sup>*\<^sup>* (None, (ev, a) # es, n, s, D) (None, es, n, s', D')"
proof -
  obtain r s1 where up: "weak_upgrade a s = Val (r, s1)"
    using assms(1) by (auto simp: dispatch_one_def elim!: and_then_ValE)
  show ?thesis
  proof (cases r)
    case None
    then have "s' = s1" using assms(1) up by (simp add: dispatch_one_def)
    then show ?thesis using dispatch_step.Skip [of a s s1] up None by blast
  next
    case (Some b)
    then obtain s2 where s2: "handle_event E b (bf_truncate E ev) s1 = Some (Val s2)"
      "s' = Registration_drop E b s2"
      using assms(1) up by (auto simp: dispatch_one_def elim!: and_then_ValE)
    show ?thesis
      using dispatch_step.Handle [OF up [unfolded Some] s2(1)] dispatch_step.Release [of E b es n s2 D]
      unfolding s2(2) by (meson converse_rtranclp_into_rtranclp r_into_rtranclp)
  qed
qed

subsection \<open>What frees a registration\<close>

definition allocated :: "addr \<Rightarrow> epoll \<Rightarrow> bool" where
  "allocated a s \<longleftrightarrow> heap s a \<noteq> None"

definition gone :: "addr \<Rightarrow> epoll \<Rightarrow> bool" where
  "gone a s \<longleftrightarrow> heap s a = None \<and> a < fresh s"

lemma modify_heap: "modify E a m md s = (r, s') \<Longrightarrow> heap s' = heap s \<and> fresh s' = fresh s"
  by (drule modify_only_trace) simp

interpretation allocated: turn_invariant E "allocated a" for E a
  by unfold_locales (auto simp: allocated_def reg_clone_def set_cell_def Registration_drop_not_last
      dest: modify_heap)

interpretation gone: turn_invariant E "gone a" for E a
  by unfold_locales (auto simp: gone_def reg_clone_def set_cell_def Registration_drop_not_last
      dest: modify_heap split: option.splits)

lemma Registration_drop_fresh: "fresh (Registration_drop E a s) = fresh s"
  using Registration_drop_tables [of s E a] by (simp add: same_tables_def)

lemma drop_frees_iff_last:
  assumes "reg_inv s" and "heap s a = Some c" and "0 < strong c"
  shows "heap (Registration_drop E a s) b = None \<longleftrightarrow> heap s b = None \<or> b = a \<and> last_drop E a s"
proof (cases "b = a")
  case True
  have "weak c = 1" "strong c = 1 \<or> 1 < strong c"
    using assms by (auto simp: reg_inv_def)
  then show ?thesis
    using True assms(2) drop_inner_shape
    by (auto simp: Registration_drop_def Let_def sys_def set_cell_def last_drop_def split: sum.splits)
next
  case False
  then show ?thesis by (simp add: Registration_drop_heap)
qed

lemma freed_gone:
  assumes "reg_inv s" and "a \<in> freed E s s'"
  shows "gone a s'"
proof -
  obtain c where "heap s a = Some c" "0 < strong c"
    using assms(2) by (auto simp: freed_def last_drop_def split: option.splits)
  then show ?thesis
    using assms drop_frees_iff_last [OF assms(1), of a c E a]
    by (auto simp: freed_def gone_def Registration_drop_fresh reg_inv_def)
qed

lemma usable_drop:
  assumes "reg_inv s" and "usable s a p" and "heap s b \<noteq> None"
    and "heap (Registration_drop E a s) b = None"
  shows "b \<in> freed E s (Registration_drop E a s)"
  using assms drop_frees_iff_last [OF assms(1)] usable_ops [OF assms(2)] by (fastforce simp: freed_def)

lemma register_fd_raw_heap:
  "register_fd_raw E fd m md h s = (r, s') \<Longrightarrow> reg_inv s \<Longrightarrow>
   (allocated a s \<longrightarrow> allocated a s') \<and> (gone a s \<longrightarrow> gone a s')"
  using reg_inv_fresh [of s]
  by (auto simp: register_fd_raw_def Let_def sys_def allocated_def gone_def split: sum.splits if_splits)

lemma drop_inner_heap: "allocated a (drop_inner E s) = allocated a s" "gone a (drop_inner E s) = gone a s"
  using drop_inner_shape [of s E] by (simp_all add: allocated_def gone_def same_tables_def)

lemma FuturesRegistration_new_heap:
  assumes "FuturesRegistration_new E fd s = (r, s')" and "reg_inv s"
  shows "(allocated a s \<longrightarrow> allocated a s') \<and> (gone a s \<longrightarrow> gone a s')"
proof -
  define s1 where "s1 = s\<lparr>fresh := Suc (fresh s), interests := (interests s)(fresh s := [])\<rparr>"
  obtain r1 where "register_fd_raw E fd (bf_empty E) (bf_union E (EDGE E) (ONE_SHOT E))
      (FuturesHandler (fresh s)) s1 = (r1, s')"
    using assms(1) by (auto simp: FuturesRegistration_new_def s1_def Let_def split: prod.splits sum.splits)
  moreover have "reg_inv s1" using reg.set_fresh [OF assms(2)] by (simp add: s1_def)
  ultimately show ?thesis
    using register_fd_raw_heap [of E fd _ _ _ s1 r1 s' a] by (auto simp: s1_def allocated_def gone_def)
qed

lemma new_custom_event_heap:
  assumes "new_custom_event E s = (r, s')" and "reg_inv s"
  shows "(allocated a s \<longrightarrow> allocated a s') \<and> (gone a s \<longrightarrow> gone a s')"
proof -
  have prep: "reg_inv (handle (s1\<lparr>fresh := fresh s1 + 1, reg_event := y\<rparr>)) \<and>
      (allocated a s \<longrightarrow> allocated a (handle (s1\<lparr>fresh := fresh s1 + 1, reg_event := y\<rparr>))) \<and>
      (gone a s \<longrightarrow> gone a (handle (s1\<lparr>fresh := fresh s1 + 1, reg_event := y\<rparr>)))"
    if "sys E CreateEventfd s = (x, s1)" for x s1 y
  proof -
    have "reg_inv s1" using reg.quiet_sys_keeps [OF that _ assms(2)] by simp
    then have "reg_inv (handle (s1\<lparr>fresh := fresh s1 + 1, reg_event := y\<rparr>))"
      using reg.set_fresh [of s1] by (intro handle_reg_inv) simp
    then show ?thesis using that by (auto simp: sys_def Let_def handle_def allocated_def gone_def)
  qed
  from assms(1) show ?thesis
  proof (cases rule: new_custom_event_cases)
    case no_eventfd
    then show ?thesis by (auto simp: sys_def Let_def allocated_def gone_def)
  next
    case failed
    then show ?thesis
      using prep [OF failed(1)] register_fd_raw_heap [OF failed(3), of a] by (auto simp: drop_inner_heap)
  next
    case (ok efd s1 b s3)
    have "heap (drop_inner E s3) = heap s3" using drop_inner_shape by blast
    then show ?thesis
      using prep [OF ok(1)] register_fd_raw_heap [OF ok(3), of a] ok(4)
      by (auto simp: allocated_def gone_def)
  qed
qed

lemma step_gone: "epoll_step E p q \<Longrightarrow> reg_inv (snd p) \<Longrightarrow> gone a (snd p) \<Longrightarrow> gone a (snd q)"
proof (induction rule: epoll_step.induct)
  case (DropRegistration s b n)
  then obtain c where "heap s b = Some c" "0 < strong c" by (auto dest: usable_ops)
  then show ?case
    using DropRegistration drop_frees_iff_last [of s b c E a] by (simp add: gone_def Registration_drop_fresh)
next
  case (CloneRegistration s b n)
  then show ?case by (auto intro: gone.clone_keeps dest!: usable_ops)
qed (auto intro: gone.modify_keeps gone.add_interest_keeps gone.FutureInterest_poll_keeps
      gone.post_custom_event_keeps gone.loop.turn_keeps gone.loop.turn_interruptible_keeps
      gone.Interrupt_new_keeps gone.interrupt_keeps gone.register_keeps gone.quiet_call socket_call_quiet
      dest: register_fd_raw_heap FuturesRegistration_new_heap new_custom_event_heap
      simp: drop_inner_heap, auto simp: gone_def handle_def)

text \<open>An operation frees a registration only by dropping its last reference.\<close>

lemma step_allocated:
  "epoll_step E p q \<Longrightarrow> reg_inv (snd p) \<Longrightarrow> allocated a (snd p) \<Longrightarrow>
   allocated a (snd q) \<or> a \<in> freed E (snd p) (snd q)"
proof (induction rule: epoll_step.induct)
  case (DropRegistration s b n)
  then show ?case using usable_drop [of s b _ a E] by (auto simp: allocated_def)
next
  case (CloneRegistration s b n)
  then show ?case by (auto intro: allocated.clone_keeps dest!: usable_ops)
qed (auto intro: allocated.modify_keeps allocated.add_interest_keeps allocated.FutureInterest_poll_keeps
      allocated.post_custom_event_keeps allocated.loop.turn_keeps allocated.loop.turn_interruptible_keeps
      allocated.Interrupt_new_keeps allocated.interrupt_keeps allocated.register_keeps allocated.quiet_call
      socket_call_quiet dest: register_fd_raw_heap FuturesRegistration_new_heap new_custom_event_heap
      simp: drop_inner_heap, auto simp: allocated_def handle_def)

subsection \<open>What holds between the steps\<close>

definition dispatch_inv :: "addr set \<Rightarrow> dispatching \<Rightarrow> bool" where
  "dispatch_inv A st = (case st of (g, es, n, s, D) \<Rightarrow>
     reg_inv s \<and> ce_inv s \<and> (\<forall>b. g = Some b \<longrightarrow> usable s b (\<lambda>_. True)) \<and> snd ` set es \<subseteq> A \<and>
     (\<forall>a \<in> A. if a \<in> D then gone a s else allocated a s))"

lemma weak_upgrade_keeps:
  assumes "weak_upgrade a s = Val (r, s1)" and "reg_inv s" and "ce_inv s"
  shows "reg_inv s1 \<and> ce_inv s1 \<and> (\<forall>b. r = Some b \<longrightarrow> usable s1 b (\<lambda>_. True)) \<and>
    (\<forall>x. (allocated x s \<longrightarrow> allocated x s1) \<and> (gone x s \<longrightarrow> gone x s1))"
proof -
  obtain c where c: "heap s a = Some c" "0 < strong c \<longrightarrow> r = Some a \<and> s1 = reg_clone a s"
    "strong c = 0 \<longrightarrow> r = None \<and> s1 = s"
    using assms(1) by (auto simp: weak_upgrade_def split: option.splits if_splits)
  show ?thesis
  proof (cases "strong c = 0")
    case True
    then show ?thesis using c assms by simp
  next
    case False
    then have "usable s1 a (\<lambda>_. True)" using c by (simp add: usable_def reg_clone_def set_cell_def)
    moreover have "reg_inv s1 \<and> ce_inv s1"
      using c False assms reg.clone_keeps ce.clone_keeps by auto
    moreover have "(allocated x s \<longrightarrow> allocated x s1) \<and> (gone x s \<longrightarrow> gone x s1)" for x
      using c False allocated.clone_keeps gone.clone_keeps by auto
    ultimately show ?thesis using c False by auto
  qed
qed

lemma handle_event_leaves:
  assumes "handle_event E b ev s = Some (Val s')" and "reg_inv s" and "ce_inv s" and "usable s b (\<lambda>_. True)"
  shows "reg_inv s' \<and> ce_inv s' \<and> usable s' b (\<lambda>_. True) \<and>
    (\<forall>x. (allocated x s \<longrightarrow> allocated x s') \<and> (gone x s \<longrightarrow> gone x s'))"
proof -
  obtain c where c: "heap s b = Some c" "0 < strong c" using usable_ops [OF assms(4)] by blast
  then have "reg_inv s'" "ce_inv s'"
    using reg.loop.handle_event_keeps [OF assms(1,2)] ce.loop.handle_event_keeps [OF assms(1,3)] by auto
  then show ?thesis
    using handle_event_frame [OF assms(1)] assms(4)
    by (simp add: usable_def allocated_def gone_def same_tables_def)
qed

text \<open>The set of the registrations freed is kept up by a change that frees in no other way.\<close>

lemma freed_tracked:
  assumes "\<forall>a \<in> A. if a \<in> D then gone a s else allocated a s" and "reg_inv s"
    and "\<And>a. gone a s \<Longrightarrow> gone a s'" and "\<And>a. allocated a s \<Longrightarrow> allocated a s' \<or> a \<in> freed E s s'"
  shows "\<forall>a \<in> A. if a \<in> D \<union> freed E s s' then gone a s' else allocated a s'"
proof
  fix a
  assume "a \<in> A"
  then show "if a \<in> D \<union> freed E s s' then gone a s' else allocated a s'"
    using assms(1) assms(3,4) [of a] freed_gone [OF assms(2), of a E s'] by (auto split: if_splits)
qed

lemma dispatch_inv_step:
  "dispatch_step E st st' \<Longrightarrow> dispatch_inv A st \<Longrightarrow> dispatch_inv A st'"
proof (induction rule: dispatch_step.induct)
  case (Handle a s b s1 ev s2 es n D)
  have 1: "reg_inv s1 \<and> ce_inv s1 \<and> usable s1 b (\<lambda>_. True) \<and>
      (\<forall>x. (allocated x s \<longrightarrow> allocated x s1) \<and> (gone x s \<longrightarrow> gone x s1))"
    using weak_upgrade_keeps [OF Handle(1)] Handle(3) by (auto simp: dispatch_inv_def)
  then have "reg_inv s2 \<and> ce_inv s2 \<and> usable s2 b (\<lambda>_. True) \<and>
      (\<forall>x. (allocated x s1 \<longrightarrow> allocated x s2) \<and> (gone x s1 \<longrightarrow> gone x s2))"
    using handle_event_leaves [OF Handle(2)] by blast
  then show ?case using 1 Handle(3) by (simp add: dispatch_inv_def)
next
  case (Skip a s s1 ev es n D)
  then show ?case using weak_upgrade_keeps [OF Skip(1)] by (simp add: dispatch_inv_def)
next
  case (Release b es n s D)
  then have inv: "reg_inv s" "ce_inv s" and b: "usable s b (\<lambda>_. True)" by (simp_all add: dispatch_inv_def)
  then obtain c where c: "heap s b = Some c" "0 < strong c" using usable_ops by blast
  let ?s = "Registration_drop E b s"
  have "gone a ?s" if "gone a s" for a
    using that drop_frees_iff_last [OF inv(1) c, of E a] by (simp add: gone_def Registration_drop_fresh)
  moreover have "allocated a ?s \<or> a \<in> freed E s ?s" if "allocated a s" for a
    using that usable_drop [OF inv(1) b, of a E] by (auto simp: allocated_def)
  ultimately have "\<forall>a \<in> A. if a \<in> D \<union> freed E s ?s then gone a ?s else allocated a ?s"
    using Release inv by (intro freed_tracked) (simp_all add: dispatch_inv_def)
  then show ?case
    using Release inv Registration_drop_reg_inv Registration_drop_ce_inv by (simp add: dispatch_inv_def)
next
  case (Other n s n' s' g es D)
  then have inv: "reg_inv s" "ce_inv s" by (simp_all add: dispatch_inv_def)
  have "\<forall>a \<in> A. if a \<in> D \<union> freed E s s' then gone a s' else allocated a s'"
    using Other inv step_gone [OF Other(1)] step_allocated [OF Other(1)]
    by (intro freed_tracked) (simp_all add: dispatch_inv_def)
  then show ?case
    using Other inv step_reg_inv [OF Other(1)] step_ce_inv [OF Other(1)] by (simp add: dispatch_inv_def)
qed

lemma dispatch_inv_steps: "(dispatch_step E)\<^sup>*\<^sup>* st st' \<Longrightarrow> dispatch_inv A st \<Longrightarrow> dispatch_inv A st'"
  by (induction rule: rtranclp_induct) (auto intro: dispatch_inv_step)

lemma dispatch_inv_start:
  assumes "epoll_reachable E (n, s)" and "kernel_events_ok E" and "wait_step E self i t s = (WaitEvents es, s1)"
  shows "dispatch_inv (snd ` set es) (None, es, n, s1, {})"
proof -
  have inv: "reg_inv s" "ce_inv s" using reachable_inv [OF assms(1)] by simp_all
  then have "reg_inv s1" "ce_inv s1"
    using reg.loop.wait_step_keeps [OF assms(3)] ce.loop.wait_step_keeps [OF assms(3)] by simp_all
  moreover have "snd ` set es \<subseteq> dom (heap s1)"
    using wait_step_events [OF assms(3,2)] ran_table_dom [OF inv(1)] by auto
  then have "\<forall>a \<in> snd ` set es. allocated a s1" by (force simp: allocated_def)
  ultimately show ?thesis by (simp add: dispatch_inv_def)
qed

subsection \<open>The property\<close>

text \<open>
  C1. The weak pointers that the kernel's words are turned back into are used safely, but for one case.
  Whatever handlers of earlier events and other threads do to the instance after the wait (register,
  modify, drop, add interests, post events, turn it), the dispatch of an event uses freed memory, or the null
  pointer of a custom event, exactly when in between the last reference to the registration of the event has
  been dropped and its \<open>EPOLL_CTL_DEL\<close> has succeeded.  So a turn that nobody disturbs never does.
\<close>

theorem turn_memory_safe:
  assumes "epoll_reachable E (n, s)" and "kernel_events_ok E"
    and "wait_step E self i t s = (WaitEvents es, s1)"
    and "(dispatch_step E)\<^sup>*\<^sup>* (None, es, n, s1, {}) (None, (ev, a) # es', m, s2, D)"
  shows "(dispatch_one E (ev, a) s2 = Some UB \<longleftrightarrow> a \<in> D) \<and>
    turn E chk self w s \<noteq> Some UB \<and> turn_interruptible E chk self w j s \<noteq> Some UB"
proof -
  have inv: "dispatch_inv (snd ` set es) (None, (ev, a) # es', m, s2, D)"
    using dispatch_inv_steps [OF assms(4) dispatch_inv_start [OF assms(1-3)]] .
  have "dispatch_one E (ev, a) s2 = Some UB" if "a \<in> D"
    using inv that by (auto simp: dispatch_inv_def gone_def dispatch_one_def weak_upgrade_def)
  moreover have "dispatch_one E (ev, a) s2 \<noteq> Some UB" if "a \<notin> D"
    using inv that by (intro dispatch_one_not_UB) (auto simp: dispatch_inv_def allocated_def)
  ultimately show ?thesis
    using reachable_inv [OF assms(1)] assms(2)
    by (auto simp: turn_def turn_interruptible_def poll_not_UB)
qed

text \<open>Another thread drops the only reference to a registration between the wait and the dispatch of its event.\<close>

theorem turn_memory_safe_witness:
  "\<exists>s2 D. dispatch_one linux_ready (1, 2) s2 = Some UB \<and> 2 \<in> D \<and>
     (dispatch_step linux_ready)\<^sup>*\<^sup>*
       (None, [(1, 2)], 1, snd (wait_step linux_ready 7 None (- 1) demo_futures), {}) (None, [(1, 2)], 1, s2, D)"
proof -
  let ?s = "snd (wait_step linux_ready 7 None (- 1) demo_futures)"
  let ?d = "Registration_drop linux_ready 2 ?s"
  have wait: "wait_step linux_ready 7 None (- 1) demo_futures = (WaitEvents [(1, 2)], ?s)"
    by (simp add: prod_eq_iff demo_futures_wait)
  have "heap ?s 2 = Some \<lparr>strong = 1, weak = 1, reg_fd = 4, epoll_data = 2, reg_handler = FuturesHandler 1\<rparr>"
    using wait_step_events [OF wait kernel_events_ok_linux_ready] demo_futures_cell by simp
  then have "epoll_step linux_ready (1, ?s) (1, ?d)" "2 \<in> freed linux_ready ?s ?d"
    by (auto intro!: epoll_step.DropRegistration
        simp: usable_def freed_def last_drop_def linux_ready_def linux_def)
  then have run: "(dispatch_step linux_ready)\<^sup>*\<^sup>* (None, [(1, 2)], 1, ?s, {})
      (None, [(1, 2)], 1, ?d, {} \<union> freed linux_ready ?s ?d)"
    by (intro r_into_rtranclp dispatch_step.Other) simp_all
  then show ?thesis
    using turn_memory_safe [OF demo_futures_reachable kernel_events_ok_linux_ready wait run]
      \<open>2 \<in> freed linux_ready ?s ?d\<close> by blast
qed

end
