(* ===== verification/Reposting.thy ===== *)
theory Reposting
  imports CustomEvents "HOL-Library.Multiset"
begin

text \<open>
  The loop of a custom event's handler in \<open>src/src/epoll/mod.rs\<close> when the closure of the event posts words itself.
  The closure is given the tag of its own event, and a word it posts to it goes into the queue that the
  loop is emptying.  \<open>f\<close> is the closure: the words it posts to the tag when it is called with a word.
\<close>

subsection \<open>The loop\<close>

text \<open>The closure ignores what \<open>post_custom_event\<close> returns.\<close>

fun post_words :: "env \<Rightarrow> event_tag \<Rightarrow> usize list \<Rightarrow> epoll \<Rightarrow> epoll rust" where
  "post_words E tag [] s = Val s"
| "post_words E tag (d # ds) s =
     (case post_custom_event E tag d s of
        Val (_, s1) \<Rightarrow> post_words E tag ds s1
      | Panic \<Rightarrow> Panic
      | UB \<Rightarrow> UB)"

partial_function (option) drain_posting ::
  "env \<Rightarrow> (usize \<Rightarrow> usize list) \<Rightarrow> event_tag \<Rightarrow> epoll \<Rightarrow> epoll rust option" where
  "drain_posting E f tag s =
     (case try_pop E (tag_ptr tag) s of
        (None, s1) \<Rightarrow> Some (Val s1)
      | (Some d, s1) \<Rightarrow>
          (case post_words E tag (f d) (emit (HandlerCall (tag_ptr tag) tag d) s1) of
             Val s2 \<Rightarrow> drain_posting E f tag s2
           | Panic \<Rightarrow> Some Panic
           | UB \<Rightarrow> Some UB))"

declare drain_posting.simps [code]

text \<open>A closure that posts nothing makes it the loop of \<open>CustomEvents\<close>.\<close>

lemma drain_posting_nothing:
  "seg_queue_ok E \<Longrightarrow> seg_contents (tag_ptr tag) (trace s) = ds \<Longrightarrow>
   drain_posting E (\<lambda>_. []) tag s = map_option Val (drain E (tag_ptr tag) tag s)"
proof (induction ds arbitrary: s)
  case Nil
  then show ?case
    by (subst drain_posting.simps, subst drain.simps) (simp add: try_pop_def seg_queue_ok_def)
next
  case (Cons d ds)
  let ?s = "emit (HandlerCall (tag_ptr tag) tag d) (emit (SegTryPop (tag_ptr tag)) s)"
  have "seg_contents (tag_ptr tag) (trace ?s) = ds"
    using Cons.prems seg_contents_snoc [of "tag_ptr tag" "trace s @ [(SegTryPop (tag_ptr tag), True)]"] by simp
  from Cons.IH [OF Cons.prems(1) this] show ?case
    using Cons.prems
    by (subst drain_posting.simps, subst drain.simps) (simp add: try_pop_def seg_queue_ok_def)
qed

subsection \<open>One iteration\<close>

definition postable :: "event_tag \<Rightarrow> epoll \<Rightarrow> bool" where
  "postable tag s \<longleftrightarrow> tag_epoll_fd tag = epfd s \<and> events s (tag_ptr tag) \<noteq> None"

lemma postable_trace [simp]: "postable tag (s\<lparr>trace := t\<rparr>) = postable tag s" "postable tag (emit c s) = postable tag s"
  by (simp_all add: postable_def emit_def)

lemma post_words_spec:
  "postable tag s \<Longrightarrow> \<exists>t. post_words E tag ds s = Val (s\<lparr>trace := trace s @ t\<rparr>) \<and>
     seg_contents (tag_ptr tag) (trace s @ t) = seg_contents (tag_ptr tag) (trace s) @ ds \<and>
     posted (tag_ptr tag) t = ds \<and> handled (tag_ptr tag) t = []"
proof (induction ds arbitrary: s)
  case Nil
  then show ?case by (intro exI [of _ "[]"]) (simp add: posted_def handled_def)
next
  case (Cons d ds)
  obtain ce where ce: "events s (tag_ptr tag) = Some ce" using Cons.prems by (auto simp: postable_def)
  define t1 where "t1 = [(SegPush (tag_ptr tag) d, True), (WriteEventfd (ce_event_fd ce),
    is_ok (os_int E (trace s @ [(SegPush (tag_ptr tag) d, True)]) (WriteEventfd (ce_event_fd ce))))]"
  have one: "\<exists>r. post_custom_event E tag d s = Val (r, s\<lparr>trace := trace s @ t1\<rparr>)"
    using Cons.prems ce
    by (auto simp: post_custom_event_def postable_def sys_def emit_def t1_def Let_def split: sum.splits)
  obtain t where t: "post_words E tag ds (s\<lparr>trace := trace s @ t1\<rparr>) = Val (s\<lparr>trace := trace s @ t1 @ t\<rparr>)"
    "seg_contents (tag_ptr tag) (trace s @ t1 @ t) = seg_contents (tag_ptr tag) (trace s @ t1) @ ds"
    "posted (tag_ptr tag) t = ds" "handled (tag_ptr tag) t = []"
    using Cons.IH [of "s\<lparr>trace := trace s @ t1\<rparr>"] Cons.prems by auto
  have "seg_contents (tag_ptr tag) (trace s @ t1) = seg_contents (tag_ptr tag) (trace s) @ [d]"
    by (simp add: t1_def seg_contents_append)
  moreover have "posted (tag_ptr tag) t1 = [d]" "handled (tag_ptr tag) t1 = []"
    by (simp_all add: t1_def posted_def handled_def)
  ultimately show ?case using one t by (intro exI [of _ "t1 @ t"]) auto
qed

text \<open>With an empty queue the loop ends; else it goes on with the rest of the queue and the words just posted.\<close>

lemma drain_posting_Nil:
  assumes "seg_queue_ok E" and "seg_contents (tag_ptr tag) (trace s) = []"
  shows "drain_posting E f tag s = Some (Val (emit (SegTryPop (tag_ptr tag)) s))"
  using assms by (subst drain_posting.simps) (simp add: try_pop_def seg_queue_ok_def)

abbreviation drain_iteration ::
  "env \<Rightarrow> (usize \<Rightarrow> usize list) \<Rightarrow> event_tag \<Rightarrow> (epoll \<Rightarrow> epoll rust option) \<Rightarrow> epoll \<Rightarrow> epoll rust option" where
  "drain_iteration E f tag g s \<equiv>
    (case try_pop E (tag_ptr tag) s of (None, s1) \<Rightarrow> Some (Val s1)
      | (Some d, s1) \<Rightarrow> (case post_words E tag (f d) (emit (HandlerCall (tag_ptr tag) tag d) s1) of
             Val s2 \<Rightarrow> g s2 | Panic \<Rightarrow> Some Panic | UB \<Rightarrow> Some UB))"

lemma drain_posting_Cons:
  assumes "seg_queue_ok E" and "postable tag s" and "seg_contents (tag_ptr tag) (trace s) = d # ds"
  obtains t where "drain_posting E f tag s = drain_posting E f tag (s\<lparr>trace := trace s @ t\<rparr>)"
    "seg_contents (tag_ptr tag) (trace s @ t) = ds @ f d"
    "posted (tag_ptr tag) t = f d" "handled (tag_ptr tag) t = [d]"
    "\<And>g. drain_iteration E f tag g s = g (s\<lparr>trace := trace s @ t\<rparr>)"
proof -
  define t1 where "t1 = [(SegTryPop (tag_ptr tag), True), (HandlerCall (tag_ptr tag) tag d, True)]"
  let ?s = "s\<lparr>trace := trace s @ t1\<rparr>"
  obtain t where t: "post_words E tag (f d) ?s = Val (s\<lparr>trace := trace s @ t1 @ t\<rparr>)"
    "seg_contents (tag_ptr tag) (trace s @ t1 @ t) = seg_contents (tag_ptr tag) (trace s @ t1) @ f d"
    "posted (tag_ptr tag) t = f d" "handled (tag_ptr tag) t = []"
    using post_words_spec [of tag ?s E "f d"] assms(2) by auto
  have "try_pop E (tag_ptr tag) s = (Some d, emit (SegTryPop (tag_ptr tag)) s)"
    using assms(1,3) by (simp add: try_pop_def seg_queue_ok_def)
  moreover have "emit (HandlerCall (tag_ptr tag) tag d) (emit (SegTryPop (tag_ptr tag)) s) = ?s"
    by (simp add: emit_def t1_def)
  moreover have "seg_contents (tag_ptr tag) (trace s @ t1) = ds"
    using assms(3) by (simp add: t1_def seg_contents_append)
  moreover have "posted (tag_ptr tag) t1 = []" "handled (tag_ptr tag) t1 = [d]"
    by (simp_all add: t1_def posted_def handled_def)
  ultimately show thesis
    using t by (intro that [of "t1 @ t"]) (subst drain_posting.simps, simp_all)
qed

subsection \<open>When it ends\<close>

text \<open>\<open>(d', d)\<close>: the closure posts \<open>d'\<close> when it is called with \<open>d\<close>.\<close>

definition posts :: "(usize \<Rightarrow> usize list) \<Rightarrow> (usize \<times> usize) set" where
  "posts f = {(d', d). d' \<in> set (f d)}"

text \<open>A word outside the accessible part starts an endless chain of words that the closure posts.\<close>

lemma endless_chain:
  assumes "d \<notin> Wellfounded.acc (posts f)"
  shows "\<exists>g. g 0 = d \<and> (\<forall>i. g (Suc i) \<in> set (f (g i)))"
proof -
  have next_word: "\<exists>d'. d' \<notin> Wellfounded.acc (posts f) \<and> d' \<in> set (f e)" if "e \<notin> Wellfounded.acc (posts f)" for e
    using that by (auto simp: posts_def intro: accI)
  have "\<exists>g. \<forall>n. (g n \<notin> Wellfounded.acc (posts f) \<and> (n = 0 \<longrightarrow> g n = d)) \<and> g (Suc n) \<in> set (f (g n))"
    by (rule dependent_nat_choice) (use assms next_word in auto)
  then show ?thesis by blast
qed

lemma no_endless_chain:
  "d \<in> Wellfounded.acc (posts f) \<Longrightarrow> \<forall>g. g 0 = d \<longrightarrow> \<not> (\<forall>i. g (Suc i) \<in> set (f (g i)))"
proof (induction rule: acc.induct)
  case (accI d)
  show ?case
  proof (intro allI impI notI)
    fix g :: "nat \<Rightarrow> usize"
    assume "g 0 = d" and chain: "\<forall>i. g (Suc i) \<in> set (f (g i))"
    then have "(g 1, d) \<in> posts f" by (auto simp: posts_def)
    from accI.IH [OF this, rule_format, of "\<lambda>i. g (Suc i)"] show False using chain by simp
  qed
qed

text \<open>Every iteration makes the queue smaller in the multiset order of a well-founded relation.\<close>

definition shrinking :: "(usize \<Rightarrow> usize list) \<Rightarrow> (usize \<times> usize) set" where
  "shrinking f = {(d', d). (d', d) \<in> posts f \<and> d \<in> Wellfounded.acc (posts f)}"

lemma wf_shrinking: "wf (shrinking f)"
proof (rule wfUNIVI)
  fix P x
  assume step: "\<forall>x. (\<forall>y. (y, x) \<in> shrinking f \<longrightarrow> P y) \<longrightarrow> P x"
  show "P x"
  proof (cases "x \<in> Wellfounded.acc (posts f)")
    case True
    then show ?thesis by (induction rule: acc.induct) (use step in \<open>auto simp: shrinking_def\<close>)
  next
    case False
    then show ?thesis using step by (auto simp: shrinking_def)
  qed
qed

lemma drain_posting_ends:
  assumes "seg_queue_ok E" and "postable tag s"
    and "set (seg_contents (tag_ptr tag) (trace s)) \<subseteq> Wellfounded.acc (posts f)"
  shows "\<exists>t. drain_posting E f tag s = Some (Val (s\<lparr>trace := trace s @ t\<rparr>)) \<and>
    seg_contents (tag_ptr tag) (trace s @ t) = [] \<and>
    handled (tag_ptr tag) t = seg_contents (tag_ptr tag) (trace s) @ posted (tag_ptr tag) t"
  using assms(2,3)
proof (induction "mset (seg_contents (tag_ptr tag) (trace s))" arbitrary: s
    rule: wf_induct_rule [OF wf_mult1 [OF wf_shrinking [of f]]])
  case 1
  show ?case
  proof (cases "seg_contents (tag_ptr tag) (trace s)")
    case Nil
    then show ?thesis
      using drain_posting_Nil [OF assms(1) Nil, of f]
      by (intro exI [of _ "[(SegTryPop (tag_ptr tag), True)]"])
        (simp add: emit_def seg_contents_append handled_def posted_def)
  next
    case (Cons d ds)
    obtain t1 where t1: "drain_posting E f tag s = drain_posting E f tag (s\<lparr>trace := trace s @ t1\<rparr>)"
      "seg_contents (tag_ptr tag) (trace s @ t1) = ds @ f d"
      "posted (tag_ptr tag) t1 = f d" "handled (tag_ptr tag) t1 = [d]"
      by (rule drain_posting_Cons [OF assms(1) "1.prems"(1) Cons, of f]) (rule that)
    have d: "d \<in> Wellfounded.acc (posts f)" using "1.prems"(2) Cons by simp
    have "(mset (ds @ f d), mset (d # ds)) \<in> mult1 (shrinking f)"
      using d by (intro mult1I [of _ d "mset ds" _ "mset (f d)"]) (auto simp: shrinking_def posts_def)
    moreover have "set (f d) \<subseteq> Wellfounded.acc (posts f)"
      using d by (auto simp: posts_def intro: acc_downward)
    ultimately obtain t2 where
      "drain_posting E f tag (s\<lparr>trace := trace s @ t1\<rparr>) = Some (Val (s\<lparr>trace := trace s @ t1 @ t2\<rparr>))"
      "seg_contents (tag_ptr tag) (trace s @ t1 @ t2) = []"
      "handled (tag_ptr tag) t2 = (ds @ f d) @ posted (tag_ptr tag) t2"
      using "1.hyps" [of "s\<lparr>trace := trace s @ t1\<rparr>"] "1.prems" Cons t1(2) by auto
    then show ?thesis using t1 Cons by (intro exI [of _ "t1 @ t2"]) simp
  qed
qed

text \<open>Where it ends, all the words that it began with are accessible.\<close>

lemma drain_posting_ended:
  assumes "drain_posting E f tag s = Some r" and "seg_queue_ok E" and "postable tag s"
  shows "set (seg_contents (tag_ptr tag) (trace s)) \<subseteq> Wellfounded.acc (posts f)"
proof -
  have "seg_queue_ok E \<longrightarrow> postable tag s \<longrightarrow>
    set (seg_contents (tag_ptr tag) (trace s)) \<subseteq> Wellfounded.acc (posts f)"
  proof (rule drain_posting.raw_induct [where P = "\<lambda>E f tag s r. seg_queue_ok E \<longrightarrow> postable tag s \<longrightarrow>
      set (seg_contents (tag_ptr tag) (trace s)) \<subseteq> Wellfounded.acc (posts f)", OF _ assms(1)], intro impI)
    fix g :: "env \<Rightarrow> (usize \<Rightarrow> usize list) \<Rightarrow> event_tag \<Rightarrow> epoll \<Rightarrow> epoll rust option"
    fix E f tag s r
    assume IH: "\<And>E f tag s r. g E f tag s = Some r \<Longrightarrow> seg_queue_ok E \<longrightarrow> postable tag s \<longrightarrow>
        set (seg_contents (tag_ptr tag) (trace s)) \<subseteq> Wellfounded.acc (posts f)"
      and step: "drain_iteration E f tag (g E f tag) s = Some r"
      and ok: "seg_queue_ok E" "postable tag s"
    show "set (seg_contents (tag_ptr tag) (trace s)) \<subseteq> Wellfounded.acc (posts f)"
    proof (cases "seg_contents (tag_ptr tag) (trace s)")
      case (Cons d ds)
      obtain t where "seg_contents (tag_ptr tag) (trace s @ t) = ds @ f d"
        and "\<And>h. drain_iteration E f tag h s = h (s\<lparr>trace := trace s @ t\<rparr>)"
        by (rule drain_posting_Cons [OF ok Cons, of f]) (rule that)
      then have "seg_contents (tag_ptr tag) (trace s @ t) = ds @ f d" "g E f tag (s\<lparr>trace := trace s @ t\<rparr>) = Some r"
        using step by simp_all
      then have "set ds \<union> set (f d) \<subseteq> Wellfounded.acc (posts f)"
        using IH [of E f tag "s\<lparr>trace := trace s @ t\<rparr>" r] ok by simp
      then show ?thesis using Cons by (auto simp: posts_def intro: accI)
    qed simp
  qed
  then show ?thesis using assms by blast
qed

text \<open>
  C24. The loop that empties the queue of a custom event ends exactly when no word of the queue starts an
  endless chain of words each of which the closure posts when it is called with the one before: a closure
  that answers every word with another one, such as a message to itself, keeps the worker in its turn for
  ever.  When the loop ends, the queue is empty and the closure has been called with the words that were
  queued and then with those posted meanwhile, once each and in the order of posting.  The closure is a
  function of the word to the words it posts to its own tag, and nobody else pushes during the loop.
\<close>

theorem drain_ends:
  assumes "seg_queue_ok E" and "events s p = Some ce" and "tag = \<lparr>tag_ptr = p, tag_epoll_fd = epfd s\<rparr>"
  shows "((\<exists>r. drain_posting E f tag s = Some r) \<longleftrightarrow>
      \<not> (\<exists>g. g 0 \<in> set (seg_contents p (trace s)) \<and> (\<forall>i. g (Suc i) \<in> set (f (g i))))) \<and>
    (\<forall>r. drain_posting E f tag s = Some r \<longrightarrow>
      (\<exists>t. r = Val (s\<lparr>trace := trace s @ t\<rparr>) \<and> seg_contents p (trace s @ t) = [] \<and>
        handled p t = seg_contents p (trace s) @ posted p t))"
proof -
  let ?acc = "set (seg_contents p (trace s)) \<subseteq> Wellfounded.acc (posts f)"
  have ok: "postable tag s" "tag_ptr tag = p" using assms(2,3) by (simp_all add: postable_def)
  have chain: "?acc \<longleftrightarrow> \<not> (\<exists>g. g 0 \<in> set (seg_contents p (trace s)) \<and> (\<forall>i. g (Suc i) \<in> set (f (g i))))"
    using endless_chain [of _ f] no_endless_chain [of _ f] by (simp add: subset_iff) metis
  have ends: "\<exists>t. drain_posting E f tag s = Some (Val (s\<lparr>trace := trace s @ t\<rparr>)) \<and>
      seg_contents p (trace s @ t) = [] \<and> handled p t = seg_contents p (trace s) @ posted p t" if ?acc
    using drain_posting_ends [OF assms(1) ok(1), of f] that unfolding ok(2) .
  have "?acc" if "drain_posting E f tag s = Some r" for r
    using drain_posting_ended [OF that assms(1) ok(1)] unfolding ok(2) .
  with ends show ?thesis unfolding chain [symmetric] by fastforce
qed

text \<open>
  An event with a counter that the closure counts down ends; one whose closure posts the same word again
  does not.
\<close>

definition one_event :: epoll where
  "one_event = (case post_custom_event linux \<lparr>tag_ptr = 3, tag_epoll_fd = 3\<rparr> 2
     (snd (new_custom_event linux (projr (Epoll_new linux [])))) of Val (_, s) \<Rightarrow> s)"

theorem drain_ends_witness:
  "(\<exists>t. drain_posting linux (\<lambda>d. if 0 < d then [d - 1] else []) \<lparr>tag_ptr = 3, tag_epoll_fd = 3\<rparr> one_event =
      Some (Val (one_event\<lparr>trace := trace one_event @ t\<rparr>)) \<and> posted 3 t = [1, 0] \<and> handled 3 t = [2, 1, 0]) \<and>
   drain_posting linux (\<lambda>d. [d]) \<lparr>tag_ptr = 3, tag_epoll_fd = 3\<rparr> one_event = None"
proof -
  let ?tag = "\<lparr>tag_ptr = 3, tag_epoll_fd = 3\<rparr>"
  let ?down = "\<lambda>d :: usize. if 0 < d then [d - 1] else []"
  have "events one_event 3 \<noteq> None \<and> epfd one_event = 3" "seg_contents 3 (trace one_event) = [2]"
    by code_simp+
  then obtain ce where ce: "events one_event 3 = Some ce" "?tag = \<lparr>tag_ptr = 3, tag_epoll_fd = epfd one_event\<rparr>"
    and queue: "seg_contents 3 (trace one_event) = [2]" by auto
  note ends = drain_ends [OF seg_queue_ok_linux ce]
  have "drain_posting linux (\<lambda>d. [d]) ?tag one_event = None"
    using ends [of "\<lambda>d. [d]"] queue by (metis list.set_intros(1) not_None_eq)
  moreover have "case drain_posting linux ?down ?tag one_event of
      Some (Val s) \<Rightarrow> drop (length (trace one_event)) (trace s) \<noteq> [] \<and>
        posted 3 (drop (length (trace one_event)) (trace s)) = [1, 0] | _ \<Rightarrow> False"
    by code_simp
  then obtain s where s: "drain_posting linux ?down ?tag one_event = Some (Val s)"
    "posted 3 (drop (length (trace one_event)) (trace s)) = [1, 0]"
    by (auto split: option.splits rust.splits)
  ultimately show ?thesis using ends [of ?down] queue by fastforce
qed

end
