(* ===== verification/RunLoop.thy ===== *)
theory RunLoop
  imports Prelude
begin

text \<open>
  \<open>EventQueue::run\<close> and \<open>InterruptNotify\<close> of \<open>src/src/queue.rs\<close>, over the interrupt of the epoll backend
  (\<open>src/src/epoll/mod.rs\<close>): one thread drives a future, any number of threads notify it.

  The atomics are sequentially consistent, so one step is one atomic operation, one system call or one
  call of the future, and the threads are interleaved.  A notification is three steps: the swap of
  \<open>notified\<close>, the load of \<open>thread_id\<close> and the \<open>pthread_kill\<close>.  A signal makes \<open>epoll_pwait\<close> return if it
  is delivered while the thread is inside; outside its handler runs and nothing else happens, since
  SIGUSR2 is blocked neither outside nor inside.
\<close>

subsection \<open>State\<close>

datatype wake = Woken "io_error + nat"

datatype run_pc =
    AtReset
  | AtPoll
  | AtStore
  | AtWait
  | Waiting
  | AtClear wake
  | Dispatching nat
  | Returned "nat + nat"
  | Panicked

text \<open>
  \<open>loading\<close> counts notifiers about to load \<open>thread_id\<close>, \<open>killing\<close> those about to send the signal, with the
  id they loaded.  Ghosts: \<open>unseen\<close> (a notification since the last reset), \<open>entered_notified\<close> (the flag
  was already set when the thread entered \<open>epoll_pwait\<close>), \<open>polled\<close> (polls of the future).
\<close>

record run_state =
  pc :: run_pc
  notified :: bool
  thread_cell :: usize
  loading :: nat
  killing :: "usize list"
  unseen :: bool
  entered_notified :: bool
  polled :: nat

text \<open>\<open>InterruptNotify::new\<close> and the entry of \<open>run\<close>.\<close>

definition InterruptNotify_new :: run_state where
  "InterruptNotify_new = \<lparr>pc = AtReset, notified = True, thread_cell = 0, loading = 0, killing = [],
     unseen = True, entered_notified = False, polled = 0\<rparr>"

subsection \<open>The thread that runs the future\<close>

definition reset :: "run_state \<Rightarrow> bool \<times> run_state" where
  "reset s = (notified s, s\<lparr>notified := False, unseen := False\<rparr>)"

text \<open>\<open>self\<close> is \<open>pthread_self()\<close>; \<open>answer\<close> what the future answers, \<open>ready\<close> what \<open>epoll_pwait\<close> returns.\<close>

definition run_step ::
  "usize \<Rightarrow> nat + nat Async \<Rightarrow> io_error + nat \<Rightarrow> run_state \<Rightarrow> run_state" where
  "run_step self answer ready s =
     (case pc s of
        AtReset \<Rightarrow> (let (b, s1) = reset s in s1\<lparr>pc := (if b then AtPoll else AtStore)\<rparr>)
      | AtPoll \<Rightarrow> s\<lparr>polled := polled s + 1, pc :=
          (case answer of Inl e \<Rightarrow> Returned (Inl e) | Inr (Ready x) \<Rightarrow> Returned (Inr x)
           | Inr NotReady \<Rightarrow> AtStore)\<rparr>
      | AtStore \<Rightarrow> s\<lparr>thread_cell := self, pc := AtWait\<rparr>
      | AtWait \<Rightarrow> s\<lparr>pc := Waiting, entered_notified := notified s\<rparr>
      | Waiting \<Rightarrow> s\<lparr>pc := AtClear (Woken ready)\<rparr>
      | AtClear (Woken r) \<Rightarrow> s\<lparr>thread_cell := 0, pc :=
          (case r of Inl e \<Rightarrow> if kind e = Interrupted then AtReset else Panicked
           | Inr n \<Rightarrow> if n = 0 then AtReset else Dispatching n)\<rparr>
      | Dispatching n \<Rightarrow> s\<lparr>pc := AtReset\<rparr>
      | Returned r \<Rightarrow> s
      | Panicked \<Rightarrow> s)"

subsection \<open>The threads that notify\<close>

definition notify_swap :: "run_state \<Rightarrow> run_state" where
  "notify_swap s =
     (if notified s then s\<lparr>unseen := True\<rparr>
      else s\<lparr>notified := True, unseen := True, loading := loading s + 1\<rparr>)"

definition interrupt_load :: "run_state \<Rightarrow> run_state" where
  "interrupt_load s =
     (let s1 = s\<lparr>loading := loading s - 1\<rparr>
      in if thread_cell s = 0 then s1 else s1\<lparr>killing := killing s @ [thread_cell s]\<rparr>)"

definition eintr :: io_error where
  "eintr = \<lparr>kind = Interrupted, raw_os_error = Some 4\<rparr>"

definition interrupt_kill :: "usize \<Rightarrow> nat \<Rightarrow> run_state \<Rightarrow> run_state" where
  "interrupt_kill self i s =
     (let s1 = s\<lparr>killing := take i (killing s) @ drop (Suc i) (killing s)\<rparr>
      in if killing s ! i = self \<and> pc s = Waiting then s1\<lparr>pc := AtClear (Woken (Inl eintr))\<rparr> else s1)"

subsection \<open>Interleaving\<close>

datatype run_action =
    Run "nat + nat Async" "io_error + nat"
  | NotifySwap
  | InterruptLoad
  | InterruptKill nat

fun can :: "run_action \<Rightarrow> run_state \<Rightarrow> bool" where
  "can (Run _ _) s = (case pc s of Returned _ \<Rightarrow> False | Panicked \<Rightarrow> False | _ \<Rightarrow> True)"
| "can NotifySwap s = True"
| "can InterruptLoad s = (0 < loading s)"
| "can (InterruptKill i) s = (i < length (killing s))"

fun act :: "usize \<Rightarrow> run_action \<Rightarrow> run_state \<Rightarrow> run_state" where
  "act self (Run answer ready) s = run_step self answer ready s"
| "act self NotifySwap s = notify_swap s"
| "act self InterruptLoad s = interrupt_load s"
| "act self (InterruptKill i) s = interrupt_kill self i s"

inductive run_reachable :: "usize \<Rightarrow> run_state \<Rightarrow> bool" for self where
  init: "run_reachable self InterruptNotify_new"
| step: "run_reachable self s \<Longrightarrow> can a s \<Longrightarrow> run_reachable self (act self a s)"

lemmas run_defs = run_step_def reset_def notify_swap_def interrupt_load_def interrupt_kill_def

subsection \<open>The invariant\<close>

definition run_inv :: "usize \<Rightarrow> run_state \<Rightarrow> bool" where
  "run_inv self s \<longleftrightarrow>
     notified s = unseen s \<and>
     thread_cell s = (if pc s = AtWait \<or> pc s = Waiting \<or> (\<exists>r. pc s = AtClear r) then self else 0) \<and>
     set (killing s) \<subseteq> {self} \<and>
     (pc s = Waiting \<longrightarrow> notified s \<longrightarrow> \<not> entered_notified s \<longrightarrow> 0 < loading s \<or> killing s \<noteq> [])"


lemma run_step_inv: "run_inv self s \<Longrightarrow> run_inv self (run_step self answer ready s)"
  by (cases "pc s")
    (auto simp: run_inv_def run_defs Let_def split: sum.splits Async.splits wake.splits)

lemma notify_swap_inv: "run_inv self s \<Longrightarrow> run_inv self (notify_swap s)"
  by (auto simp: run_inv_def notify_swap_def)

lemma interrupt_load_inv:
  "self \<noteq> 0 \<Longrightarrow> run_inv self s \<Longrightarrow> 0 < loading s \<Longrightarrow> run_inv self (interrupt_load s)"
  by (auto simp: run_inv_def interrupt_load_def Let_def)

lemma interrupt_kill_inv:
  assumes "run_inv self s" and "i < length (killing s)"
  shows "run_inv self (interrupt_kill self i s)"
proof -
  have "killing s ! i = self" using assms by (auto simp: run_inv_def dest: nth_mem)
  moreover have "set (take i (killing s) @ drop (Suc i) (killing s)) \<subseteq> {self}"
    using assms(1) by (auto simp: run_inv_def dest: in_set_takeD in_set_dropD)
  ultimately show ?thesis
    using assms(1) by (auto simp: run_inv_def interrupt_kill_def Let_def)
qed

lemma run_reachable_inv: "run_reachable self s \<Longrightarrow> self \<noteq> 0 \<Longrightarrow> run_inv self s"
proof (induction rule: run_reachable.induct)
  case init
  then show ?case by (simp add: run_inv_def InterruptNotify_new_def)
next
  case (step s a)
  then show ?case
    by (cases a) (auto intro: run_step_inv notify_swap_inv interrupt_load_inv interrupt_kill_inv)
qed

fun run_actions :: "usize \<Rightarrow> run_action list \<Rightarrow> run_state \<Rightarrow> run_state option" where
  "run_actions self [] s = Some s"
| "run_actions self (a # as) s = (if can a s then run_actions self as (act self a s) else None)"

lemma run_actions_reachable:
  "run_actions self as s = Some s' \<Longrightarrow> run_reachable self s \<Longrightarrow> run_reachable self s'"
  by (induction as arbitrary: s) (auto split: if_splits intro: run_reachable.step)

subsection \<open>The properties\<close>

text \<open>
  The flag is exact: in every reachable state \<open>notified\<close> says whether a notification has come since
  the last reset, so the future is polled exactly when there has been one, and a notifier that finds
  the flag set has nothing to do.
\<close>

theorem notified_flag_exact:
  assumes "run_reachable self s" and "self \<noteq> 0"
  shows "notified s = unseen s \<and> fst (reset s) = unseen s \<and>
    (pc s = AtReset \<longrightarrow> (pc (run_step self answer ready s) = AtPoll) = unseen s)"
  using run_reachable_inv [OF assms] by (auto simp: run_inv_def reset_def run_step_def)

theorem notified_flag_exact_witness:
  "notified InterruptNotify_new \<and> pc (run_step 7 (Inr NotReady) (Inr 0) InterruptNotify_new) = AtPoll"
  using notified_flag_exact [OF run_reachable.init, of 7] by (simp add: InterruptNotify_new_def)

text \<open>
  A notification that comes while the thread is inside \<open>epoll_pwait\<close> wakes it: as long as it has not
  been woken, some notifier is about to load its thread id or to send it the signal, and that signal
  makes \<open>epoll_pwait\<close> return.
\<close>

theorem notification_wakes_waiting_thread:
  assumes "run_reachable self s" and "self \<noteq> 0"
    and "pc s = Waiting" and "notified s" and "\<not> entered_notified s"
  shows "(0 < loading s \<or> killing s \<noteq> []) \<and>
    (0 < loading s \<longrightarrow> killing (interrupt_load s) = killing s @ [self]) \<and>
    (\<forall>i < length (killing s). pc (interrupt_kill self i s) = AtClear (Woken (Inl eintr)))"
proof -
  have inv: "run_inv self s" using run_reachable_inv [OF assms(1,2)] .
  then have "thread_cell s = self" "\<forall>i < length (killing s). killing s ! i = self"
    using assms(3) by (auto simp: run_inv_def dest: nth_mem)
  then show ?thesis
    using inv assms(2-5) by (auto simp: run_inv_def interrupt_load_def interrupt_kill_def Let_def)
qed

text \<open>A thread inside \<open>epoll_pwait\<close>, notified there; one notified before it got there.\<close>

definition notified_while_waiting :: "run_action list" where
  "notified_while_waiting = [Run (Inr NotReady) (Inr 0), Run (Inr NotReady) (Inr 0),
     Run (Inr NotReady) (Inr 0), Run (Inr NotReady) (Inr 0), NotifySwap]"

definition notified_before_store :: "run_action list" where
  "notified_before_store = [Run (Inr NotReady) (Inr 0), Run (Inr NotReady) (Inr 0),
     NotifySwap, InterruptLoad, Run (Inr NotReady) (Inr 0), Run (Inr NotReady) (Inr 0)]"

definition signalled_before_wait :: "run_action list" where
  "signalled_before_wait = [Run (Inr NotReady) (Inr 0), Run (Inr NotReady) (Inr 0),
     Run (Inr NotReady) (Inr 0), NotifySwap, InterruptLoad, InterruptKill 0, Run (Inr NotReady) (Inr 0)]"

lemmas run_action_defs = notified_while_waiting_def notified_before_store_def
  signalled_before_wait_def InterruptNotify_new_def run_defs Let_def

theorem notification_wakes_waiting_thread_witness:
  "\<exists>s. run_actions 7 notified_while_waiting InterruptNotify_new = Some s \<and>
     0 < loading s \<and> killing (interrupt_load s) = [7]"
proof -
  obtain s where s: "run_actions 7 notified_while_waiting InterruptNotify_new = Some s"
    and facts: "pc s = Waiting" "notified s" "\<not> entered_notified s" "killing s = []"
    by (simp add: run_action_defs)
  have "run_reachable 7 s" by (rule run_actions_reachable [OF s run_reachable.init])
  from notification_wakes_waiting_thread [OF this _ facts(1-3)] show ?thesis
    using s facts by auto
qed

text \<open>
  A state in which a wake-up is lost: a notification is pending, the thread waits without a timeout and
  no notifier is left to interrupt it.
\<close>

definition lost :: "run_state \<Rightarrow> bool" where
  "lost s \<longleftrightarrow> pc s = Waiting \<and> notified s \<and> loading s = 0 \<and> killing s = []"

fun is_run :: "run_action \<Rightarrow> bool" where
  "is_run (Run _ _) = True"
| "is_run _ = False"

text \<open>
  C32. A wake-up can be lost: \<open>run\<close> reaches such states, by a notification between the reset and the
  store of the thread id, and by a signal between that store and \<open>epoll_pwait\<close> (SIGUSR2 is not blocked
  there, so its handler runs and the later \<open>epoll_pwait\<close> does not see it).
\<close>

theorem run_loses_wakeups:
  "(\<exists>s. run_reachable 7 s \<and> lost s \<and> run_actions 7 notified_before_store InterruptNotify_new = Some s) \<and>
   (\<exists>s. run_reachable 7 s \<and> lost s \<and> run_actions 7 signalled_before_wait InterruptNotify_new = Some s)"
proof -
  have "\<exists>s. run_actions 7 as InterruptNotify_new = Some s \<and> lost s"
    if "as \<in> {notified_before_store, signalled_before_wait}" for as
    using that by (auto simp: run_action_defs lost_def)
  then show ?thesis
    using run_actions_reachable [OF _ run_reachable.init] by blast
qed

text \<open>
  A lost wake-up stays lost: from such a state no sequence of further notifications, from however
  many threads, wakes the thread, since each finds the flag set and does not interrupt.  Only an event
  of the kernel does.
\<close>

theorem lost_wakeup_stays_lost:
  assumes "lost s" and "run_actions self as s = Some s'" and "list_all (\<lambda>a. \<not> is_run a) as"
  shows "lost s'"
  using assms
proof (induction as arbitrary: s)
  case (Cons a as)
  then have "lost (act self a s)"
    by (cases a) (auto simp: lost_def notify_swap_def split: if_splits)
  then show ?case using Cons by (auto split: if_splits)
qed simp

theorem lost_wakeup_stays_lost_witness:
  "\<exists>s s'. run_reachable 7 s \<and> lost s \<and> run_actions 7 [NotifySwap, NotifySwap] s = Some s' \<and> lost s'"
proof -
  obtain s where s: "run_actions 7 notified_before_store InterruptNotify_new = Some s" "lost s"
    by (simp add: run_action_defs lost_def)
  then have "run_reachable 7 s" by (blast intro: run_actions_reachable run_reachable.init)
  moreover obtain s' where s': "run_actions 7 [NotifySwap, NotifySwap] s = Some s'" by simp
  ultimately show ?thesis using s lost_wakeup_stays_lost [OF s(2) s'] by auto
qed

text \<open>How far the thread is from the reset that will see the flag.\<close>

fun reset_distance :: "run_pc \<Rightarrow> nat" where
  "reset_distance (AtClear _) = 2"
| "reset_distance (Dispatching _) = 1"
| "reset_distance _ = 0"

fun leaving :: "run_pc \<Rightarrow> bool" where
  "leaving (AtClear _) = True"
| "leaving (Dispatching _) = True"
| "leaving AtReset = True"
| "leaving _ = False"

text \<open>
  C33. Outside the window from the reset to \<open>epoll_pwait\<close> a notification is acted on: once the thread has
  left \<open>epoll_pwait\<close> with a notification pending, every step of it polls the future, panics with the
  error of \<open>epoll_pwait\<close>, or brings it strictly nearer to the reset with the flag still set, and no step
  of another thread takes it away.
\<close>

theorem pending_notification_is_polled:
  assumes "notified s" and "leaving (pc s)" and "can a s"
  shows "pc (act self a s) = AtPoll \<or> pc (act self a s) = Panicked \<or>
    (notified (act self a s) \<and> leaving (pc (act self a s)) \<and>
     (if is_run a then reset_distance (pc (act self a s)) < reset_distance (pc s)
      else pc (act self a s) = pc s))"
proof (cases a)
  case (Run answer ready)
  then show ?thesis
    using assms by (cases "pc s") (auto simp: run_defs split: wake.splits sum.splits)
qed (use assms in \<open>auto simp: run_defs Let_def\<close>)

theorem pending_notification_is_polled_witness:
  "pc (act 7 (Run (Inr NotReady) (Inr 0)) InterruptNotify_new) = AtPoll"
  using pending_notification_is_polled [of InterruptNotify_new "Run (Inr NotReady) (Inr 0)" 7]
  by (simp add: InterruptNotify_new_def run_defs)

end
