(* ===== verification/Signals.thy ===== *)
theory Signals
  imports Prelude
begin

text \<open>
  \<open>SIGUSR2\<close> (\<open>src/src/epoll/mod.rs\<close>): the handler the epoll backend installs once for the whole process, and
  how it passes the signal on to the handler that was there before.  Installation is split into the
  operations between which a signal can arrive.

  Function pointers are addresses; the constants of \<open>libc\<close> are in the record \<open>sigenv\<close>, with the address of
  \<open>interrupt_sig_handler\<close>.
\<close>

subsection \<open>Handlers\<close>

record sigenv =
  SIG_DFL :: usize
  SIG_IGN :: usize
  SA_SIGINFO :: i32
  handler_addr :: usize

record sigaction =
  sa_sigaction :: usize
  sa_flags :: i32

text \<open>Calls of a handler with the number of the signal only, or with its \<open>siginfo\<close> and context.\<close>

datatype sig_effect = CallHandler1 usize | CallHandler3 usize | Terminate

definition interrupt_sig_handler :: "sigenv \<Rightarrow> sigaction option \<Rightarrow> sig_effect list" where
  "interrupt_sig_handler C old =
     (case old of
        None \<Rightarrow> []
      | Some old_handler \<Rightarrow>
          if sa_sigaction old_handler = SIG_IGN C \<or> sa_sigaction old_handler = SIG_DFL C then []
          else if sa_flags old_handler AND SA_SIGINFO C \<noteq> 0
          then [CallHandler3 (sa_sigaction old_handler)]
          else [CallHandler1 (sa_sigaction old_handler)])"

text \<open>What the kernel does with a signal, as \<open>sigaction(2)\<close> says; the default action of \<open>SIGUSR2\<close> is to end the process.\<close>

definition dispose :: "sigenv \<Rightarrow> sigaction \<Rightarrow> sig_effect list" where
  "dispose C a =
     (if sa_sigaction a = SIG_IGN C then []
      else if sa_sigaction a = SIG_DFL C then [Terminate]
      else if sa_flags a AND SA_SIGINFO C \<noteq> 0 then [CallHandler3 (sa_sigaction a)]
      else [CallHandler1 (sa_sigaction a)])"

subsection \<open>Installation\<close>

text \<open>\<open>SIGUSR2_INSTALL\<close>, and the \<open>old_sigaction\<close> of the closure that runs.\<close>

datatype once = Incomplete | Running "sigaction option" | Complete | Poisoned

record signals =
  disposition :: sigaction
  OLD_SIGUSR2_HANDLER :: "sigaction option"
  SIGUSR2_INSTALL :: once

text \<open>
  One operation of a thread at \<open>SIGUSR2_INSTALL.call_once\<close>; \<open>fails\<close> says that \<open>sigaction\<close> answers \<open>-1\<close>.  A thread
  that finds the closure running blocks; a panic in it poisons the \<open>Once\<close>.
\<close>

definition install_begin :: "signals \<Rightarrow> signals rust option" where
  "install_begin s =
     (case SIGUSR2_INSTALL s of
        Incomplete \<Rightarrow> Some (Val (s\<lparr>SIGUSR2_INSTALL := Running None\<rparr>))
      | Running _ \<Rightarrow> None
      | Complete \<Rightarrow> Some (Val s)
      | Poisoned \<Rightarrow> Some Panic)"

definition install_sigaction :: "sigenv \<Rightarrow> bool \<Rightarrow> signals \<Rightarrow> unit rust \<times> signals" where
  "install_sigaction C fails s =
     (let new_sigaction = \<lparr>sa_sigaction = handler_addr C, sa_flags = SA_SIGINFO C\<rparr>
      in if fails then (Panic, s\<lparr>SIGUSR2_INSTALL := Poisoned\<rparr>)
         else (Val (), s\<lparr>disposition := new_sigaction, SIGUSR2_INSTALL := Running (Some (disposition s))\<rparr>))"

definition install_store :: "signals \<Rightarrow> signals" where
  "install_store s =
     (case SIGUSR2_INSTALL s of
        Running (Some old_sigaction) \<Rightarrow>
          s\<lparr>OLD_SIGUSR2_HANDLER := Some old_sigaction, SIGUSR2_INSTALL := Complete\<rparr>
      | _ \<Rightarrow> s)"

inductive signal_step :: "sigenv \<Rightarrow> signals \<Rightarrow> signals \<Rightarrow> bool" for C where
  Begin: "install_begin s = Some (Val s') \<Longrightarrow> signal_step C s s'"
| Sigaction: "SIGUSR2_INSTALL s = Running None \<Longrightarrow> install_sigaction C fails s = (r, s') \<Longrightarrow> signal_step C s s'"
| Store: "SIGUSR2_INSTALL s = Running (Some old) \<Longrightarrow> signal_step C s (install_store s)"

definition before_install :: "sigaction \<Rightarrow> signals" where
  "before_install d = \<lparr>disposition = d, OLD_SIGUSR2_HANDLER = None, SIGUSR2_INSTALL = Incomplete\<rparr>"

text \<open>What a \<open>SIGUSR2\<close> does that arrives in a state.\<close>

definition deliver :: "sigenv \<Rightarrow> signals \<Rightarrow> sig_effect list" where
  "deliver C s =
     (if sa_sigaction (disposition s) = handler_addr C
      then interrupt_sig_handler C (OLD_SIGUSR2_HANDLER s)
      else dispose C (disposition s))"

subsection \<open>The property\<close>

definition install_inv :: "sigenv \<Rightarrow> sigaction \<Rightarrow> signals \<Rightarrow> bool" where
  "install_inv C d s \<longleftrightarrow>
     (case SIGUSR2_INSTALL s of
        Incomplete \<Rightarrow> disposition s = d \<and> OLD_SIGUSR2_HANDLER s = None
      | Running None \<Rightarrow> disposition s = d \<and> OLD_SIGUSR2_HANDLER s = None
      | Running (Some old) \<Rightarrow>
          sa_sigaction (disposition s) = handler_addr C \<and> old = d \<and> OLD_SIGUSR2_HANDLER s = None
      | Complete \<Rightarrow> sa_sigaction (disposition s) = handler_addr C \<and> OLD_SIGUSR2_HANDLER s = Some d
      | Poisoned \<Rightarrow> disposition s = d \<and> OLD_SIGUSR2_HANDLER s = None)"

lemma install_inv_step:
  "signal_step C s s' \<Longrightarrow> install_inv C d s \<Longrightarrow> install_inv C d s'"
  by (induction rule: signal_step.induct)
    (auto simp: install_inv_def install_begin_def install_sigaction_def install_store_def Let_def
      split: once.splits option.splits if_splits)

lemma install_inv_steps:
  "(signal_step C)\<^sup>*\<^sup>* (before_install d) s \<Longrightarrow> install_inv C d s"
  by (induction rule: rtranclp_induct) (auto intro: install_inv_step, simp add: install_inv_def before_install_def)

text \<open>
  C30. In every state of the installation a \<open>SIGUSR2\<close> that arrives does what it did before, with two
  exceptions: the process is no longer ended by default, and between \<open>sigaction\<close> and the store of the
  old handler the signal is swallowed.  In particular the handler never calls itself.
\<close>

theorem sigusr2_passed_on:
  assumes "(signal_step C)\<^sup>*\<^sup>* (before_install d) s" and "sa_sigaction d \<noteq> handler_addr C"
  shows "deliver C s =
    (case SIGUSR2_INSTALL s of
       Complete \<Rightarrow> filter (\<lambda>e. e \<noteq> Terminate) (dispose C d)
     | Running (Some _) \<Rightarrow> []
     | _ \<Rightarrow> dispose C d)"
  using install_inv_steps [OF assms(1)] assms(2)
  by (auto simp: install_inv_def deliver_def interrupt_sig_handler_def dispose_def
      split: once.splits option.splits)

definition linux_signals :: sigenv where
  "linux_signals = \<lparr>SIG_DFL = 0, SIG_IGN = 1, SA_SIGINFO = 4, handler_addr = 4096\<rparr>"

theorem sigusr2_passed_on_witness:
  "let d = \<lparr>sa_sigaction = 8192, sa_flags = 0\<rparr>;
       s = \<lparr>disposition = \<lparr>sa_sigaction = 4096, sa_flags = 4\<rparr>, OLD_SIGUSR2_HANDLER = Some d, SIGUSR2_INSTALL = Complete\<rparr>
   in (signal_step linux_signals)\<^sup>*\<^sup>* (before_install d) s \<and> deliver linux_signals s = [CallHandler1 8192]"
proof -
  let ?d = "\<lparr>sa_sigaction = 8192, sa_flags = 0\<rparr>"
  let ?s1 = "(before_install ?d)\<lparr>SIGUSR2_INSTALL := Running None\<rparr>"
  let ?s2 = "?s1\<lparr>disposition := \<lparr>sa_sigaction = 4096, sa_flags = 4\<rparr>, SIGUSR2_INSTALL := Running (Some ?d)\<rparr>"
  let ?s3 = "\<lparr>disposition = \<lparr>sa_sigaction = 4096, sa_flags = 4\<rparr>, OLD_SIGUSR2_HANDLER = Some ?d, SIGUSR2_INSTALL = Complete\<rparr>"
  have "signal_step linux_signals (before_install ?d) ?s1"
    by (rule signal_step.Begin) (simp add: install_begin_def before_install_def)
  moreover have "signal_step linux_signals ?s1 ?s2"
    by (rule signal_step.Sigaction [where fails = False and r = "Val ()"])
      (simp_all add: install_sigaction_def before_install_def linux_signals_def)
  moreover have "signal_step linux_signals ?s2 ?s3"
  proof -
    have "install_store ?s2 = ?s3" by (simp add: install_store_def before_install_def)
    then show ?thesis using signal_step.Store [of ?s2 ?d] by simp
  qed
  ultimately have run: "(signal_step linux_signals)\<^sup>*\<^sup>* (before_install ?d) ?s3"
    by (meson converse_rtranclp_into_rtranclp rtranclp.rtrancl_refl)
  have "deliver linux_signals ?s3 = [CallHandler1 8192]"
    using sigusr2_passed_on [OF run] by (simp add: linux_signals_def dispose_def)
  with run show ?thesis by (simp add: Let_def)
qed

end
