(* ===== verification/PoolHandles.thy ===== *)
theory PoolHandles
  imports Prelude
begin

text \<open>
  Handles of thread pools (\<open>src/src/evloop/threadpool/mod.rs\<close>), with several pools in one process: which
  handles a thread can get, where the closures given to \<open>spawn\<close>, \<open>spawn_local\<close> and \<open>run\<close> are called, and
  what \<open>run\<close> returns.

  When a task is queued again is decided by \<open>signal_level\<close>, the subject of \<open>TaskSignal\<close>; here a notification
  of a task that is neither queued nor polled puts it in the queue of the notifying worker, to whichever
  pool that belongs.  Closures, their results and channels are numbers.
\<close>

subsection \<open>Handles\<close>

text \<open>
  \<open>CURRENT_WORKER\<close> of each thread is the pool its worker belongs to, if it is a worker; the address of the
  \<open>WorkerSelf\<close> on its stack is the number of the thread.
\<close>

type_synonym current_worker = "nat \<Rightarrow> nat option"

record pool_handle =
  pool_id :: nat
  event_queue_handle :: nat

record local_handle =
  global_handle :: pool_handle
  worker_self :: nat

definition current_worker_handle :: "nat \<Rightarrow> current_worker \<Rightarrow> nat \<Rightarrow> nat option" where
  "current_worker_handle pool_ref cur th =
     (case cur th of
        Some thread_pool_ptr \<Rightarrow> if thread_pool_ptr = pool_ref then Some th else None
      | None \<Rightarrow> None)"

definition ThreadPool_handle :: "nat \<Rightarrow> pool_handle" where
  "ThreadPool_handle p = \<lparr>pool_id = p, event_queue_handle = p\<rparr>"

definition Handle_clone :: "pool_handle \<Rightarrow> pool_handle" where
  "Handle_clone h = \<lparr>pool_id = pool_id h, event_queue_handle = event_queue_handle h\<rparr>"

definition ThreadPool_local_handle :: "nat \<Rightarrow> current_worker \<Rightarrow> nat \<Rightarrow> local_handle option" where
  "ThreadPool_local_handle p cur th =
     (case current_worker_handle p cur th of
        Some w \<Rightarrow> Some \<lparr>global_handle = ThreadPool_handle p, worker_self = w\<rparr>
      | None \<Rightarrow> None)"

definition Handle_local :: "pool_handle \<Rightarrow> current_worker \<Rightarrow> nat \<Rightarrow> local_handle option" where
  "Handle_local h cur th =
     (case current_worker_handle (pool_id h) cur th of
        Some w \<Rightarrow> Some \<lparr>global_handle = Handle_clone h, worker_self = w\<rparr>
      | None \<Rightarrow> None)"

definition LocalHandle_clone :: "local_handle \<Rightarrow> local_handle" where
  "LocalHandle_clone l = \<lparr>global_handle = Handle_clone (global_handle l), worker_self = worker_self l\<rparr>"

definition Handle_as_registrar :: "pool_handle \<Rightarrow> nat" where
  "Handle_as_registrar h = event_queue_handle h"

definition LocalHandle_as_registrar :: "local_handle \<Rightarrow> nat" where
  "LocalHandle_as_registrar l = event_queue_handle (global_handle l)"

subsection \<open>Tasks\<close>

text \<open>
  The future of a task: one that the user made, or a \<open>future::lazy\<close> that calls a closure at its first poll.
  \<open>RunLazy\<close> is that of \<open>run\<close>, which sends the result of the closure's future on a channel.
\<close>

datatype body =
    Plain
  | SpawnLazy pool_handle nat
  | RunLazy pool_handle nat nat
  | LocalLazy local_handle nat

record mtask =
  body :: body
  started :: bool
  finished :: bool

record world =
  current :: current_worker
  mtasks :: "mtask list"
  remote :: "nat \<Rightarrow> nat list"
  queues :: "nat \<Rightarrow> nat list"
  local_queues :: "nat \<Rightarrow> nat list"
  polling :: "nat \<Rightarrow> nat option"
  held :: "nat \<Rightarrow> local_handle set"
  channels :: "nat \<Rightarrow> nat option"
  calls :: "(nat \<times> nat \<times> local_handle) list"

text \<open>\<open>calls\<close> lists the closures that have been called: thread, closure and the handle it was given.\<close>

definition post_task :: "pool_handle \<Rightarrow> body \<Rightarrow> world \<Rightarrow> world" where
  "post_task h b s = s\<lparr>mtasks := mtasks s @ [\<lparr>body = b, started = False, finished = False\<rparr>],
     remote := (remote s)(pool_id h := remote s (pool_id h) @ [length (mtasks s)])\<rparr>"

definition spawn :: "pool_handle \<Rightarrow> nat \<Rightarrow> world \<Rightarrow> world" where
  "spawn h f s = (let handle = Handle_clone h in post_task h (SpawnLazy handle f) s)"

definition execute :: "pool_handle \<Rightarrow> world \<Rightarrow> unit \<times> world" where
  "execute h s = ((), post_task h Plain s)"

definition spawn_local :: "local_handle \<Rightarrow> nat \<Rightarrow> world \<Rightarrow> world" where
  "spawn_local l f s =
     (let handle = LocalHandle_clone l; w = worker_self l
      in s\<lparr>mtasks := mtasks s @ [\<lparr>body = LocalLazy handle f, started = False, finished = False\<rparr>],
           local_queues := (local_queues s)(w := length (mtasks s) # local_queues s w)\<rparr>)"

text \<open>The first half of \<open>run\<close>; then \<open>rx.wait()\<close> blocks until something is on the channel.\<close>

definition run_spawn :: "nat \<Rightarrow> nat \<Rightarrow> nat \<Rightarrow> world \<Rightarrow> world" where
  "run_spawn p f c s =
     (let h = ThreadPool_handle p in post_task h (RunLazy (Handle_clone h) f c) s)"

definition run_wait :: "nat \<Rightarrow> world \<Rightarrow> nat option" where
  "run_wait c s = channels s c"

definition remote_spawned :: "nat \<Rightarrow> nat \<Rightarrow> world \<Rightarrow> world rust" where
  "remote_spawned th p s =
     (case current_worker_handle p (current s) th of
        None \<Rightarrow> Panic
      | Some w \<Rightarrow> Val (s\<lparr>remote := (remote s)(p := tl (remote s p)),
          queues := (queues s)(w := queues s w @ [hd (remote s p)])\<rparr>))"

text \<open>The first poll of a task calls its closure, with the handle it looks up then.\<close>

definition first_poll :: "nat \<Rightarrow> nat \<Rightarrow> world \<Rightarrow> world rust" where
  "first_poll th t s =
     (let k = mtasks s ! t;
          go = s\<lparr>mtasks := (mtasks s)[t := k\<lparr>started := True\<rparr>], polling := (polling s)(th := Some t)\<rparr>;
          call = (\<lambda>f l. Val (go\<lparr>calls := calls s @ [(th, f, l)], held := (held s)(th := insert l (held s th))\<rparr>))
      in if started k then Val go
         else case body k of
             Plain \<Rightarrow> Val go
           | SpawnLazy h f \<Rightarrow> (case Handle_local h (current s) th of None \<Rightarrow> Panic | Some l \<Rightarrow> call f l)
           | RunLazy h f c \<Rightarrow> (case Handle_local h (current s) th of None \<Rightarrow> Panic | Some l \<Rightarrow> call f l)
           | LocalLazy l f \<Rightarrow> call f l)"

definition poll_finishes :: "nat \<Rightarrow> nat \<Rightarrow> nat \<Rightarrow> world \<Rightarrow> world" where
  "poll_finishes th t x s =
     (let k = mtasks s ! t;
          s1 = s\<lparr>mtasks := (mtasks s)[t := k\<lparr>finished := True\<rparr>], polling := (polling s)(th := None)\<rparr>
      in case body k of
           RunLazy h f c \<Rightarrow> s1\<lparr>channels := (channels s)(c := Some x)\<rparr>
         | _ \<Rightarrow> s1)"

definition wake_task :: "nat \<Rightarrow> nat \<Rightarrow> world \<Rightarrow> world rust" where
  "wake_task th t s =
     (case body (mtasks s ! t) of
        LocalLazy l f \<Rightarrow> Panic
      | _ \<Rightarrow>
          (case current s th of
             None \<Rightarrow> Panic
           | Some _ \<Rightarrow> Val (s\<lparr>queues := (queues s)(th := queues s th @ [t])\<rparr>)))"

subsection \<open>Threads\<close>

text \<open>A task that the protocol would queue again: it has been polled, and is suspended.\<close>

definition suspended_task :: "nat \<Rightarrow> world \<Rightarrow> bool" where
  "suspended_task t s \<longleftrightarrow> t < length (mtasks s) \<and> started (mtasks s ! t) \<and> \<not> finished (mtasks s ! t) \<and>
     (\<forall>th. t \<notin> set (queues s th) \<and> t \<notin> set (local_queues s th) \<and> polling s th \<noteq> Some t)"

text \<open>
  Local handles are not \<open>Send\<close>: a thread uses those that it was given or has looked up itself.  A channel is
  made by the \<open>run\<close> that uses it.
\<close>

inductive world_step :: "world \<Rightarrow> world \<Rightarrow> bool" where
  Spawn: "world_step s (spawn h f s)"
| Execute: "execute h s = (r, s') \<Longrightarrow> world_step s s'"
| Run: "channels s c = None \<Longrightarrow> (\<forall>k \<in> set (mtasks s). \<forall>h g. body k \<noteq> RunLazy h g c) \<Longrightarrow>
    world_step s (run_spawn p f c s)"
| Lookup: "Handle_local h (current s) th = Some l \<Longrightarrow>
    world_step s (s\<lparr>held := (held s)(th := insert l (held s th))\<rparr>)"
| SpawnLocal: "l \<in> held s th \<Longrightarrow> world_step s (spawn_local l f s)"
| Remote: "remote s p \<noteq> [] \<Longrightarrow> remote_spawned th p s = Val s' \<Longrightarrow> world_step s s'"
| Poll: "queues s th = t # ts \<Longrightarrow> polling s th = None \<Longrightarrow>
    first_poll th t (s\<lparr>queues := (queues s)(th := ts)\<rparr>) = Val s' \<Longrightarrow> world_step s s'"
| PollLocal: "local_queues s th = t # ts \<Longrightarrow> polling s th = None \<Longrightarrow>
    first_poll th t (s\<lparr>local_queues := (local_queues s)(th := ts)\<rparr>) = Val s' \<Longrightarrow> world_step s s'"
| Suspend: "polling s th = Some t \<Longrightarrow> world_step s (s\<lparr>polling := (polling s)(th := None)\<rparr>)"
| Finish: "polling s th = Some t \<Longrightarrow> world_step s (poll_finishes th t x s)"
| Notify: "suspended_task t s \<Longrightarrow> wake_task th t s = Val s' \<Longrightarrow> world_step s s'"

definition new_world :: "current_worker \<Rightarrow> world" where
  "new_world cur = \<lparr>current = cur, mtasks = [], remote = (\<lambda>_. []), queues = (\<lambda>_. []), local_queues = (\<lambda>_. []),
     polling = (\<lambda>_. None), held = (\<lambda>_. {}), channels = (\<lambda>_. None), calls = []\<rparr>"

inductive world_reachable :: "world \<Rightarrow> bool" where
  new: "world_reachable (new_world cur)"
| step: "world_reachable s \<Longrightarrow> world_step s s' \<Longrightarrow> world_reachable s'"

subsection \<open>The pool of a closure\<close>

text \<open>The pool on whose workers a body must be polled first.\<close>

fun home :: "body \<Rightarrow> nat option" where
  "home (SpawnLazy h f) = Some (pool_id h)"
| "home (RunLazy h f c) = Some (pool_id h)"
| "home _ = None"

fun is_local :: "body \<Rightarrow> bool" where
  "is_local (LocalLazy l f) = True"
| "is_local _ = False"

definition own_handle :: "current_worker \<Rightarrow> nat \<Rightarrow> local_handle \<Rightarrow> bool" where
  "own_handle cur th l \<longleftrightarrow> worker_self l = th \<and> cur th = Some (pool_id (global_handle l))"

definition local_ok :: "world \<Rightarrow> nat \<Rightarrow> mtask \<Rightarrow> bool" where
  "local_ok s th k \<longleftrightarrow> (\<exists>l f. body k = LocalLazy l f \<and> own_handle (current s) th l)"

definition remote_ok :: "nat \<Rightarrow> mtask \<Rightarrow> bool" where
  "remote_ok p k \<longleftrightarrow> \<not> is_local (body k) \<and> (\<forall>q. home (body k) = Some q \<longrightarrow> q = p)"

definition queue_ok :: "world \<Rightarrow> nat \<Rightarrow> mtask \<Rightarrow> bool" where
  "queue_ok s th k \<longleftrightarrow> \<not> is_local (body k) \<and>
     (\<not> started k \<longrightarrow> (\<forall>q. home (body k) = Some q \<longrightarrow> current s th = Some q))"

definition places_ok :: "world \<Rightarrow> bool" where
  "places_ok s \<longleftrightarrow>
     (\<forall>p. \<forall>t \<in> set (remote s p). t < length (mtasks s) \<and> remote_ok p (mtasks s ! t)) \<and>
     (\<forall>th. \<forall>t \<in> set (queues s th). t < length (mtasks s) \<and> queue_ok s th (mtasks s ! t)) \<and>
     (\<forall>th. \<forall>t \<in> set (local_queues s th). t < length (mtasks s) \<and> local_ok s th (mtasks s ! t)) \<and>
     (\<forall>th. \<forall>t. polling s th = Some t \<longrightarrow> t < length (mtasks s) \<and> started (mtasks s ! t))"

definition handles_ok :: "world \<Rightarrow> bool" where
  "handles_ok s \<longleftrightarrow>
     (\<forall>th. \<forall>l \<in> held s th. own_handle (current s) th l) \<and>
     (\<forall>(th, f, l) \<in> set (calls s). own_handle (current s) th l)"

text \<open>A started task of \<open>run\<close> has called its closure, and a full channel is that of a finished one.\<close>

definition runs_ok :: "world \<Rightarrow> bool" where
  "runs_ok s \<longleftrightarrow>
     (\<forall>k \<in> set (mtasks s). \<forall>h f c. body k = RunLazy h f c \<and> started k \<longrightarrow>
        (\<exists>th l. (th, f, l) \<in> set (calls s) \<and> pool_id (global_handle l) = pool_id h)) \<and>
     (\<forall>c x. channels s c = Some x \<longrightarrow>
        (\<exists>k \<in> set (mtasks s). \<exists>h f. body k = RunLazy h f c \<and> started k \<and> finished k))"

lemma Handle_local_own: "Handle_local h cur th = Some l \<Longrightarrow> own_handle cur th l \<and> pool_id (global_handle l) = pool_id h"
  by (auto simp: Handle_local_def current_worker_handle_def own_handle_def Handle_clone_def
      split: option.splits if_splits)

lemma Handle_local_at_home: "cur th = Some (pool_id h) \<Longrightarrow> Handle_local h cur th \<noteq> None"
  by (simp add: Handle_local_def current_worker_handle_def)

lemma places_post:
  assumes "places_ok s" and "\<not> is_local b" and "\<forall>q. home b = Some q \<longrightarrow> q = pool_id h"
  shows "places_ok (post_task h b s)"
  using assms
  by (fastforce simp: places_ok_def post_task_def nth_append remote_ok_def queue_ok_def local_ok_def)

lemma others_post:
  assumes "handles_ok s \<and> runs_ok s"
  shows "handles_ok (post_task h b s) \<and> runs_ok (post_task h b s)"
  using assms by (fastforce simp: handles_ok_def runs_ok_def post_task_def)

text \<open>Taking a task from a queue.\<close>

lemma places_sub:
  assumes "places_ok s" and "\<And>th. set (qs th) \<subseteq> set (queues s th)"
    and "\<And>th. set (ls th) \<subseteq> set (local_queues s th)"
  shows "places_ok (s\<lparr>queues := qs, local_queues := ls\<rparr>)"
  using assms unfolding places_ok_def queue_ok_def local_ok_def by simp blast

lemma places_pop:
  assumes "places_ok s"
  shows "queues s th = t # ts \<Longrightarrow> places_ok (s\<lparr>queues := (queues s)(th := ts)\<rparr>)"
    and "local_queues s th = t # ts \<Longrightarrow> places_ok (s\<lparr>local_queues := (local_queues s)(th := ts)\<rparr>)"
proof -
  assume "queues s th = t # ts"
  then have "places_ok (s\<lparr>queues := (queues s)(th := ts), local_queues := local_queues s\<rparr>)"
    by (intro places_sub [OF assms]) auto
  then show "places_ok (s\<lparr>queues := (queues s)(th := ts)\<rparr>)" by simp
next
  assume "local_queues s th = t # ts"
  then have "places_ok (s\<lparr>queues := queues s, local_queues := (local_queues s)(th := ts)\<rparr>)"
    by (intro places_sub [OF assms]) auto
  then show "places_ok (s\<lparr>local_queues := (local_queues s)(th := ts)\<rparr>)" by simp
qed

lemma places_start:
  assumes "places_ok s" and "t < length (mtasks s)"
  shows "places_ok (s\<lparr>mtasks := (mtasks s)[t := (mtasks s ! t)\<lparr>started := True\<rparr>], polling := (polling s)(th := Some t)\<rparr>)"
  using assms
  by (auto simp: places_ok_def queue_ok_def local_ok_def remote_ok_def nth_list_update)

lemma places_calls: "places_ok (s\<lparr>calls := cs, held := hs\<rparr>) = places_ok s"
  by (simp add: places_ok_def queue_ok_def local_ok_def)

text \<open>The closure of a task that may be polled on a thread is called there with a handle of that thread.\<close>

definition may_start :: "world \<Rightarrow> nat \<Rightarrow> nat \<Rightarrow> bool" where
  "may_start s th t \<longleftrightarrow> t < length (mtasks s) \<and>
     (queue_ok s th (mtasks s ! t) \<or> local_ok s th (mtasks s ! t))"

lemma first_poll_not_panic:
  assumes "may_start s th t"
  shows "\<exists>s'. first_poll th t s = Val s'"
proof (cases "started (mtasks s ! t)")
  case True
  then show ?thesis by (simp add: first_poll_def Let_def)
next
  case False
  have "Handle_local h (current s) th \<noteq> None" if "home (body (mtasks s ! t)) = Some (pool_id h)" for h
    using assms False that
    by (intro Handle_local_at_home) (auto simp: may_start_def queue_ok_def local_ok_def)
  then show ?thesis
    using False by (cases "body (mtasks s ! t)") (auto simp: first_poll_def Let_def split: option.split)
qed

lemma first_poll_cases:
  assumes "first_poll th t s = Val s'"
  defines "go \<equiv> s\<lparr>mtasks := (mtasks s)[t := (mtasks s ! t)\<lparr>started := True\<rparr>], polling := (polling s)(th := Some t)\<rparr>"
  obtains (resumed) "s' = go" "started (mtasks s ! t) \<or> body (mtasks s ! t) = Plain"
  | (called) f l where "s' = go\<lparr>calls := calls s @ [(th, f, l)], held := (held s)(th := insert l (held s th))\<rparr>"
      "\<forall>h g c. body (mtasks s ! t) = RunLazy h g c \<longrightarrow> f = g \<and> pool_id (global_handle l) = pool_id h"
      "own_handle (current s) th l \<or> body (mtasks s ! t) = LocalLazy l f"
proof (cases "started (mtasks s ! t)")
  case True
  then show ?thesis using assms(1) that(1) by (simp add: first_poll_def go_def Let_def)
next
  case False
  show ?thesis
  proof (cases "body (mtasks s ! t)")
    case Plain
    then show ?thesis using False assms(1) that(1) by (simp add: first_poll_def go_def Let_def)
  next
    case (SpawnLazy h f)
    then obtain l where "Handle_local h (current s) th = Some l"
      using False assms(1) by (auto simp: first_poll_def Let_def split: option.splits)
    then show ?thesis
      using SpawnLazy False assms(1) Handle_local_own
      by (intro that(2) [where f = f and l = l]) (auto simp: first_poll_def go_def Let_def)
  next
    case (RunLazy h f c)
    then obtain l where "Handle_local h (current s) th = Some l"
      using False assms(1) by (auto simp: first_poll_def Let_def split: option.splits)
    then show ?thesis
      using RunLazy False assms(1) Handle_local_own
      by (intro that(2) [where f = f and l = l]) (auto simp: first_poll_def go_def Let_def)
  next
    case (LocalLazy l f)
    then show ?thesis
      using False assms(1)
      by (intro that(2) [where f = f and l = l]) (auto simp: first_poll_def go_def Let_def)
  qed
qed

lemma runs_okD:
  "runs_ok s \<Longrightarrow> k \<in> set (mtasks s) \<Longrightarrow> body k = RunLazy h f c \<Longrightarrow> started k \<Longrightarrow>
   \<exists>th l. (th, f, l) \<in> set (calls s) \<and> pool_id (global_handle l) = pool_id h"
  by (simp add: runs_ok_def)

lemma runs_ok_channel:
  "runs_ok s \<Longrightarrow> channels s c = Some x \<Longrightarrow>
   \<exists>k \<in> set (mtasks s). \<exists>h f. body k = RunLazy h f c \<and> started k \<and> finished k"
  by (simp add: runs_ok_def)

lemma channel_update:
  assumes "runs_ok s" and t: "t < length (mtasks s)"
    and k': "body k' = body (mtasks s ! t)" "started (mtasks s ! t) \<Longrightarrow> started k'"
      "finished (mtasks s ! t) \<Longrightarrow> finished k'"
    and full: "channels s c = Some x"
  shows "\<exists>k \<in> set ((mtasks s)[t := k']). \<exists>h f. body k = RunLazy h f c \<and> started k \<and> finished k"
proof -
  obtain i h f where i: "i < length (mtasks s)" "body (mtasks s ! i) = RunLazy h f c"
    "started (mtasks s ! i)" "finished (mtasks s ! i)"
    using runs_ok_channel [OF assms(1) full] by (auto simp: in_set_conv_nth)
  have "(mtasks s)[t := k'] ! i \<in> set ((mtasks s)[t := k'])"
    by (rule nth_mem) (simp add: i(1))
  moreover have "body ((mtasks s)[t := k'] ! i) = RunLazy h f c \<and> started ((mtasks s)[t := k'] ! i) \<and>
      finished ((mtasks s)[t := k'] ! i)"
    using i k' t by (cases "i = t") simp_all
  ultimately show ?thesis by blast
qed

lemma first_poll_keeps:
  assumes "first_poll th t s = Val s'" and "may_start s th t"
    and inv: "places_ok s" "handles_ok s" "runs_ok s"
  shows "places_ok s' \<and> handles_ok s' \<and> runs_ok s'"
proof -
  let ?go = "s\<lparr>mtasks := (mtasks s)[t := (mtasks s ! t)\<lparr>started := True\<rparr>], polling := (polling s)(th := Some t)\<rparr>"
  have t: "t < length (mtasks s)" using assms(2) by (simp add: may_start_def)
  have p: "places_ok ?go" by (rule places_start [OF inv(1) t])
  have updated: "k \<in> set (mtasks s) \<or> k = (mtasks s ! t)\<lparr>started := True\<rparr>"
    if "k \<in> set ((mtasks s)[t := (mtasks s ! t)\<lparr>started := True\<rparr>])" for k
    using that set_update_subset_insert [of "mtasks s" t] by blast
  have chan: "channels s c = Some x \<Longrightarrow> \<exists>k \<in> set ((mtasks s)[t := (mtasks s ! t)\<lparr>started := True\<rparr>]).
      \<exists>h f. body k = RunLazy h f c \<and> started k \<and> finished k" for c x
    by (rule channel_update [OF inv(3) t]) simp_all
  show ?thesis
    using assms(1)
  proof (cases rule: first_poll_cases)
    case resumed
    have "\<exists>th l. (th, f, l) \<in> set (calls s) \<and> pool_id (global_handle l) = pool_id h"
      if k: "k \<in> set ((mtasks s)[t := (mtasks s ! t)\<lparr>started := True\<rparr>])" "body k = RunLazy h f c" "started k"
      for k h f c
      using updated [OF k(1)]
    proof
      assume "k \<in> set (mtasks s)"
      then show ?thesis using runs_okD [OF inv(3)] k(2,3) by blast
    next
      assume "k = (mtasks s ! t)\<lparr>started := True\<rparr>"
      then have "body (mtasks s ! t) = RunLazy h f c" using k(2) by simp
      then show ?thesis using runs_okD [OF inv(3) nth_mem [OF t]] resumed(2) by auto
    qed
    then have "runs_ok ?go" unfolding runs_ok_def using chan by simp
    then show ?thesis using resumed p inv(2) by (simp add: handles_ok_def)
  next
    case (called f l)
    have own: "own_handle (current s) th l"
      using called(3) assms(2) by (auto simp: may_start_def queue_ok_def local_ok_def)
    have "\<exists>th' l'. (th', g, l') \<in> set (calls s @ [(th, f, l)]) \<and> pool_id (global_handle l') = pool_id h"
      if k: "k \<in> set ((mtasks s)[t := (mtasks s ! t)\<lparr>started := True\<rparr>])" "body k = RunLazy h g c" "started k"
      for k h g c
      using updated [OF k(1)]
    proof
      assume "k \<in> set (mtasks s)"
      then obtain th' l' where "(th', g, l') \<in> set (calls s)" "pool_id (global_handle l') = pool_id h"
        using runs_okD [OF inv(3)] k(2,3) by blast
      then show ?thesis by auto
    next
      assume "k = (mtasks s ! t)\<lparr>started := True\<rparr>"
      then have "body (mtasks s ! t) = RunLazy h g c" using k(2) by simp
      then show ?thesis using called(2) by auto
    qed
    then have "runs_ok s'" unfolding runs_ok_def called(1) using chan by simp
    then show ?thesis using called(1) p own inv(2) by (auto simp: handles_ok_def places_calls)
  qed
qed

subsection \<open>The invariant of all steps\<close>

definition world_inv :: "world \<Rightarrow> bool" where
  "world_inv s \<longleftrightarrow> places_ok s \<and> handles_ok s \<and> runs_ok s"

lemma inv_post:
  assumes "world_inv s" and "\<not> is_local b" and "\<forall>q. home b = Some q \<longrightarrow> q = pool_id h"
  shows "world_inv (post_task h b s)"
  using places_post [of s b h] others_post [of s h b] assms by (simp add: world_inv_def)

lemma inv_spawn_local:
  assumes "world_inv s" and "l \<in> held s th"
  shows "world_inv (spawn_local l f s)"
proof -
  have own: "own_handle (current s) th l" using assms by (auto simp: world_inv_def handles_ok_def)
  have pl: "places_ok s" and hr: "handles_ok s" "runs_ok s" using assms(1) by (simp_all add: world_inv_def)
  have "places_ok (spawn_local l f s)"
    using pl own
    by (fastforce simp: places_ok_def spawn_local_def Let_def nth_append remote_ok_def queue_ok_def
        local_ok_def own_handle_def LocalHandle_clone_def Handle_clone_def)
  moreover have "handles_ok (spawn_local l f s)" using hr by (simp add: handles_ok_def spawn_local_def Let_def)
  moreover have "runs_ok (spawn_local l f s)" using hr by (fastforce simp: runs_ok_def spawn_local_def Let_def)
  ultimately show ?thesis by (simp add: world_inv_def)
qed

lemma inv_remote:
  assumes "world_inv s" and "remote s p \<noteq> []" and "remote_spawned th p s = Val s'"
  shows "world_inv s'"
proof -
  have th: "current s th = Some p" and s': "s' = s\<lparr>remote := (remote s)(p := tl (remote s p)),
      queues := (queues s)(th := queues s th @ [hd (remote s p)])\<rparr>"
    using assms(3) by (auto simp: remote_spawned_def current_worker_handle_def split: option.splits if_splits)
  have pl: "places_ok s" and hr: "handles_ok s" "runs_ok s" using assms(1) by (simp_all add: world_inv_def)
  have "hd (remote s p) < length (mtasks s) \<and> remote_ok p (mtasks s ! hd (remote s p))"
    using pl hd_in_set [OF assms(2)] by (auto simp: places_ok_def)
  then have "hd (remote s p) < length (mtasks s) \<and> queue_ok s th (mtasks s ! hd (remote s p))"
    using th by (auto simp: remote_ok_def queue_ok_def)
  moreover have "t \<in> set (tl (remote s p)) \<Longrightarrow> t \<in> set (remote s p)" for t
    using assms(2) by (cases "remote s p") auto
  ultimately have "places_ok s'"
    using pl unfolding s' places_ok_def queue_ok_def local_ok_def by simp blast
  then show ?thesis using hr by (simp add: world_inv_def s' handles_ok_def runs_ok_def)
qed

lemma inv_poll:
  assumes "world_inv s" and "first_poll th t s = Val s'" and "may_start s th t"
  shows "world_inv s'"
  using first_poll_keeps assms by (simp add: world_inv_def)

lemma queued_may_start:
  assumes "world_inv s" and "queues s th = t # ts"
  shows "may_start (s\<lparr>queues := (queues s)(th := ts)\<rparr>) th t \<and> world_inv (s\<lparr>queues := (queues s)(th := ts)\<rparr>)"
proof -
  have "t < length (mtasks s) \<and> queue_ok s th (mtasks s ! t)"
    using assms unfolding world_inv_def places_ok_def by (metis list.set_intros(1))
  then show ?thesis
    using assms places_pop(1) [of s th t ts]
    by (simp add: may_start_def queue_ok_def world_inv_def handles_ok_def runs_ok_def)
qed

lemma local_may_start:
  assumes "world_inv s" and "local_queues s th = t # ts"
  shows "may_start (s\<lparr>local_queues := (local_queues s)(th := ts)\<rparr>) th t \<and>
    world_inv (s\<lparr>local_queues := (local_queues s)(th := ts)\<rparr>)"
proof -
  have "t < length (mtasks s) \<and> local_ok s th (mtasks s ! t)"
    using assms unfolding world_inv_def places_ok_def by (metis list.set_intros(1))
  then show ?thesis
    using assms places_pop(2) [of s th t ts]
    by (simp add: may_start_def local_ok_def world_inv_def handles_ok_def runs_ok_def)
qed

lemma inv_suspend: "world_inv s \<Longrightarrow> world_inv (s\<lparr>polling := (polling s)(th := None)\<rparr>)"
  by (simp add: world_inv_def places_ok_def handles_ok_def runs_ok_def queue_ok_def local_ok_def)

lemma inv_wake:
  assumes "world_inv s" and "suspended_task t s" and "wake_task th t s = Val s'"
  shows "world_inv s'"
proof -
  have s': "s' = s\<lparr>queues := (queues s)(th := queues s th @ [t])\<rparr>" and "\<not> is_local (body (mtasks s ! t))"
    using assms(3) by (auto simp: wake_task_def split: body.splits option.splits)
  then have "queue_ok s th (mtasks s ! t)" "t < length (mtasks s)"
    using assms(2) by (auto simp: queue_ok_def suspended_task_def)
  then have "places_ok s'"
    using assms(1) unfolding s' world_inv_def places_ok_def queue_ok_def local_ok_def by simp
  then show ?thesis using assms(1) by (simp add: world_inv_def s' handles_ok_def runs_ok_def)
qed

lemma inv_finish:
  assumes "world_inv s" and "polling s th = Some t"
  shows "world_inv (poll_finishes th t x s)"
proof -
  have pl: "places_ok s" and hd: "handles_ok s" and rn: "runs_ok s"
    using assms(1) by (simp_all add: world_inv_def)
  have t: "t < length (mtasks s)" "started (mtasks s ! t)" using pl assms(2) by (auto simp: places_ok_def)
  let ?k = "(mtasks s ! t)\<lparr>finished := True\<rparr>"
  let ?s1 = "s\<lparr>mtasks := (mtasks s)[t := ?k], polling := (polling s)(th := None)\<rparr>"
  have places: "places_ok ?s1"
    using pl t by (auto simp: places_ok_def queue_ok_def local_ok_def remote_ok_def nth_list_update)
  have updated: "k \<in> set (mtasks s) \<or> k = ?k" if "k \<in> set ((mtasks s)[t := ?k])" for k
    using that set_update_subset_insert [of "mtasks s" t] by blast
  have called: "\<exists>th l. (th, f, l) \<in> set (calls s) \<and> pool_id (global_handle l) = pool_id h"
    if k: "k \<in> set ((mtasks s)[t := ?k])" "body k = RunLazy h f c" "started k" for k h f c
    using updated [OF k(1)]
  proof
    assume "k \<in> set (mtasks s)"
    then show ?thesis using runs_okD [OF rn] k(2,3) by blast
  next
    assume "k = ?k"
    then have "body (mtasks s ! t) = RunLazy h f c" using k(2) by simp
    then show ?thesis using runs_okD [OF rn nth_mem [OF t(1)]] t(2) by blast
  qed
  have chan: "channels s c = Some y \<Longrightarrow> \<exists>k \<in> set ((mtasks s)[t := ?k]).
      \<exists>h f. body k = RunLazy h f c \<and> started k \<and> finished k" for c y
    by (rule channel_update [OF rn t(1)]) simp_all
  have mem: "?k \<in> set ((mtasks s)[t := ?k])" using t(1) by (rule set_update_memI)
  have "runs_ok ?s1" unfolding runs_ok_def using called chan by simp
  moreover have "runs_ok (?s1\<lparr>channels := (channels s)(c := Some x)\<rparr>)"
    if "body (mtasks s ! t) = RunLazy h f c" for h f c
  proof -
    have "\<exists>k \<in> set ((mtasks s)[t := ?k]). \<exists>h f. body k = RunLazy h f d \<and> started k \<and> finished k"
      if "((channels s)(c := Some x)) d = Some y" for d y
    proof (cases "d = c")
      case True
      have "body ?k = RunLazy h f d \<and> started ?k \<and> finished ?k"
        using \<open>body (mtasks s ! t) = RunLazy h f c\<close> True t(2) by simp
      then show ?thesis using mem by blast
    next
      case False
      then show ?thesis using chan that by simp
    qed
    then show ?thesis unfolding runs_ok_def using called by simp
  qed
  ultimately show ?thesis
    using places hd
    by (cases "body (mtasks s ! t)")
      (simp_all add: poll_finishes_def Let_def world_inv_def handles_ok_def places_ok_def queue_ok_def local_ok_def)
qed

lemma world_inv_step:
  assumes "world_step s s'" and "world_inv s"
  shows "world_inv s'"
  using assms(1)
proof cases
  case (Spawn h f)
  then show ?thesis using inv_post [OF assms(2)] by (simp add: spawn_def Handle_clone_def Let_def)
next
  case (Execute h r)
  then show ?thesis using inv_post [OF assms(2)] by (auto simp: execute_def)
next
  case (Run c p f)
  then show ?thesis
    using inv_post [OF assms(2)] by (simp add: run_spawn_def ThreadPool_handle_def Handle_clone_def Let_def)
next
  case (Lookup h th l)
  then show ?thesis
    using assms(2) Handle_local_own
    by (auto simp: world_inv_def places_ok_def queue_ok_def local_ok_def handles_ok_def runs_ok_def)
next
  case (SpawnLocal l th f)
  then show ?thesis using inv_spawn_local assms(2) by simp
next
  case (Remote p th)
  then show ?thesis using inv_remote assms(2) by blast
next
  case (Poll th t ts)
  then show ?thesis using inv_poll queued_may_start [OF assms(2)] by blast
next
  case (PollLocal th t ts)
  then show ?thesis using inv_poll local_may_start [OF assms(2)] by blast
next
  case (Suspend th t)
  then show ?thesis using inv_suspend assms(2) by simp
next
  case (Finish th t x)
  then show ?thesis using inv_finish assms(2) by simp
next
  case (Notify t th)
  then show ?thesis using inv_wake assms(2) by blast
qed

lemma world_inv_reachable: "world_reachable s \<Longrightarrow> world_inv s"
proof (induction rule: world_reachable.induct)
  case (new cur)
  then show ?case by (simp add: world_inv_def new_world_def places_ok_def handles_ok_def runs_ok_def)
next
  case (step s s')
  then show ?case using world_inv_step by blast
qed

subsection \<open>The properties\<close>

text \<open>
  C23. The closure given to \<open>spawn\<close> or \<open>run\<close> finds its handle: when a worker takes a task from its queue
  the \<open>expect("task run on invalid thread")\<close> does not fire, whatever pools there are, and every closure is
  called with a handle of its own pool and of the very worker that polls it.
\<close>

theorem closures_run_on_their_pool:
  assumes "world_reachable s"
  shows "(\<forall>th t ts. queues s th = t # ts \<longrightarrow> first_poll th t (s\<lparr>queues := (queues s)(th := ts)\<rparr>) \<noteq> Panic) \<and>
    (\<forall>(th, f, l) \<in> set (calls s). worker_self l = th \<and> current s th = Some (pool_id (global_handle l)))"
proof
  show "\<forall>th t ts. queues s th = t # ts \<longrightarrow> first_poll th t (s\<lparr>queues := (queues s)(th := ts)\<rparr>) \<noteq> Panic"
    using queued_may_start [OF world_inv_reachable [OF assms]] first_poll_not_panic by (metis rust.distinct(1))
  show "\<forall>(th, f, l) \<in> set (calls s). worker_self l = th \<and> current s th = Some (pool_id (global_handle l))"
    using world_inv_reachable [OF assms] by (auto simp: world_inv_def handles_ok_def own_handle_def)
qed

text \<open>Two pools with one worker each, and a future spawned into the first.\<close>

definition two_pools :: world where
  "two_pools = new_world (\<lambda>th. if th < 2 then Some th else None)"

definition spawned_world :: world where
  "spawned_world = spawn (ThreadPool_handle 0) 42 two_pools"

definition queued_world :: world where
  "queued_world = spawned_world\<lparr>remote := (\<lambda>_. []), queues := (\<lambda>_. [])(0 := [0])\<rparr>"

definition polled_world :: world where
  "polled_world = queued_world\<lparr>queues := (\<lambda>_. []), polling := [0 \<mapsto> 0],
     mtasks := [\<lparr>body = SpawnLazy (ThreadPool_handle 0) 42, started = True, finished = False\<rparr>],
     held := (\<lambda>_. {})(0 := {\<lparr>global_handle = ThreadPool_handle 0, worker_self = 0\<rparr>}),
     calls := [(0, 42, \<lparr>global_handle = ThreadPool_handle 0, worker_self = 0\<rparr>)]\<rparr>"

lemmas world_defs = two_pools_def new_world_def spawned_world_def queued_world_def polled_world_def
  spawn_def post_task_def ThreadPool_handle_def Handle_clone_def Let_def

lemma queued_world_reachable: "world_reachable queued_world"
proof -
  have "world_reachable two_pools" unfolding two_pools_def by (rule world_reachable.new)
  moreover have "world_step two_pools spawned_world" unfolding spawned_world_def by (rule world_step.Spawn)
  moreover have "world_step spawned_world queued_world"
    by (rule world_step.Remote [where p = 0 and th = 0])
      (auto simp: remote_spawned_def current_worker_handle_def world_defs fun_eq_iff)
  ultimately show ?thesis by (meson world_reachable.step)
qed

lemma polled_world_reachable: "world_reachable polled_world"
proof (rule world_reachable.step [OF queued_world_reachable])
  show "world_step queued_world polled_world"
    by (rule world_step.Poll [where th = 0 and t = 0 and ts = "[]"])
      (auto simp: first_poll_def Handle_local_def current_worker_handle_def world_defs fun_eq_iff)
qed

theorem closures_run_on_their_pool_witness:
  "first_poll 0 0 (queued_world\<lparr>queues := (queues queued_world)(0 := [])\<rparr>) \<noteq> Panic \<and> world_reachable polled_world"
proof -
  have "queues queued_world 0 = [0]" by (simp add: queued_world_def)
  then show ?thesis
    using closures_run_on_their_pool [OF queued_world_reachable] polled_world_reachable by blast
qed

text \<open>
  \<open>run\<close> returns only what its own future has answered: a full channel is that of a task that has
  finished, whose closure has been called with a handle of the pool.
\<close>

theorem run_returns_its_result:
  assumes "world_reachable s" and "run_wait c s = Some x"
  shows "\<exists>k \<in> set (mtasks s). \<exists>h f th l. body k = RunLazy h f c \<and> finished k \<and>
    (th, f, l) \<in> set (calls s) \<and> pool_id (global_handle l) = pool_id h"
proof -
  have rn: "runs_ok s" using world_inv_reachable [OF assms(1)] by (simp add: world_inv_def)
  obtain k h f where k: "k \<in> set (mtasks s)" "body k = RunLazy h f c" "started k" "finished k"
    using runs_ok_channel [OF rn] assms(2) unfolding run_wait_def by blast
  then show ?thesis using runs_okD [OF rn k(1-3)] by blast
qed

theorem run_returns_its_result_witness:
  "\<exists>s. world_reachable s \<and> run_wait 7 s = Some 5 \<and>
     (\<exists>k \<in> set (mtasks s). \<exists>h f th l. body k = RunLazy h f 7 \<and> finished k \<and>
        (th, f, l) \<in> set (calls s) \<and> pool_id (global_handle l) = pool_id h)"
proof -
  let ?w = "new_world (\<lambda>th. if th < 2 then Some th else None)"
  let ?l = "\<lparr>global_handle = ThreadPool_handle 0, worker_self = 0\<rparr>"
  let ?s1 = "run_spawn 0 42 7 ?w"
  let ?s2 = "?s1\<lparr>remote := (remote ?s1)(0 := tl (remote ?s1 0)), queues := (queues ?s1)(0 := queues ?s1 0 @ [hd (remote ?s1 0)])\<rparr>"
  let ?s3 = "?s2\<lparr>queues := (queues ?s2)(0 := [])\<rparr>"
  let ?s4 = "?s3\<lparr>mtasks := (mtasks ?s3)[0 := (mtasks ?s3 ! 0)\<lparr>started := True\<rparr>], polling := (polling ?s3)(0 := Some 0),
      calls := calls ?s3 @ [(0, 42, ?l)], held := (held ?s3)(0 := insert ?l (held ?s3 0))\<rparr>"
  let ?s5 = "poll_finishes 0 0 5 ?s4"
  have "world_reachable ?w" by (rule world_reachable.new)
  moreover have "world_step ?w ?s1" by (rule world_step.Run) (simp_all add: new_world_def)
  moreover have "world_step ?s1 ?s2"
    by (rule world_step.Remote [where p = 0 and th = 0])
      (simp_all add: remote_spawned_def current_worker_handle_def run_spawn_def world_defs)
  moreover have "world_step ?s2 ?s4"
    by (rule world_step.Poll [where th = 0 and t = 0 and ts = "[]"])
      (simp_all add: first_poll_def Handle_local_def current_worker_handle_def run_spawn_def world_defs)
  moreover have "world_step ?s4 ?s5" by (rule world_step.Finish) simp
  ultimately have reach: "world_reachable ?s5" by (meson world_reachable.step)
  moreover have wait: "run_wait 7 ?s5 = Some 5"
    by (simp add: run_wait_def poll_finishes_def run_spawn_def world_defs)
  ultimately show ?thesis using run_returns_its_result [OF reach wait] by blast
qed

text \<open>
  A notification from a worker of another pool moves a task there: it is then polled by that pool,
  and its handle no longer leads to a local one.
\<close>

theorem notification_moves_task_to_other_pool:
  "\<exists>s th t h f. world_reachable s \<and> polling s th = Some t \<and> body (mtasks s ! t) = SpawnLazy h f \<and>
     current s th \<noteq> Some (pool_id h) \<and> Handle_local h (current s) th = None"
proof -
  let ?s1 = "polled_world\<lparr>polling := (polling polled_world)(0 := None)\<rparr>"
  let ?s2 = "?s1\<lparr>queues := (queues ?s1)(1 := queues ?s1 1 @ [0])\<rparr>"
  let ?s3 = "?s1\<lparr>polling := (polling ?s1)(1 := Some 0)\<rparr>"
  have "world_step polled_world ?s1"
    by (rule world_step.Suspend [where t = 0]) (simp add: world_defs)
  moreover have "world_step ?s1 ?s2"
    by (rule world_step.Notify [where t = 0 and th = 1])
      (simp_all add: suspended_task_def wake_task_def world_defs)
  moreover have "world_step ?s2 ?s3"
    by (rule world_step.Poll [where th = 1 and t = 0 and ts = "[]"])
      (auto simp: first_poll_def world_defs fun_eq_iff)
  ultimately have "world_reachable ?s3"
    using polled_world_reachable by (meson world_reachable.step)
  moreover have "polling ?s3 1 = Some 0 \<and> body (mtasks ?s3 ! 0) = SpawnLazy (ThreadPool_handle 0) 42 \<and>
      current ?s3 1 \<noteq> Some (pool_id (ThreadPool_handle 0)) \<and> Handle_local (ThreadPool_handle 0) (current ?s3) 1 = None"
    by (simp add: world_defs Handle_local_def current_worker_handle_def)
  ultimately show ?thesis by blast
qed

end
