(* ===== verification/TaskSignal.thy ===== *)
theory TaskSignal
  imports Prelude
begin

text \<open>
  The wake-up protocol of \<open>src/src/evloop/threadpool/mod.rs\<close>: the counter \<open>signal_level\<close> shared by
  \<open>do_poll\<close> of a task and \<open>Notify::notify\<close>, for \<open>GlobalTask\<close> and for \<open>LocalTask\<close>.

  Every access to the counter is sequentially consistent, so the threads are interleaved: one step is
  one atomic operation of one thread, and an arbitrary number of threads may hold a reference to the
  task.  A reference to run the task is in one of four places: posted to the event queue, between the
  \<open>fetch_add\<close> and the push of a notification, in a work queue, or in a call of \<open>do_poll\<close>.  The counter
  is a 64 bit word and wraps; \<open>level\<close> is a ghost that does not, and the properties are about runs in
  which it stays below \<open>2\<^sup>6\<^sup>4\<close>.
\<close>

subsection \<open>State\<close>

datatype task_kind = GlobalKind | LocalKind

text \<open>The points of \<open>do_poll\<close>; the argument is \<open>init_signal_level\<close>.\<close>

datatype phase = Start | Loaded usize | Polling usize | Polled usize

text \<open>
  Ghosts: \<open>level\<close> counts the notifications since the last reset of the counter, \<open>unseen\<close> says that a
  notification has come since the last poll of the future began, \<open>poll_count\<close> counts these polls.
\<close>

record task_state =
  signal_level :: usize
  completed :: bool
  posted_refs :: nat
  pushing :: nat
  queued :: nat
  polls :: "phase list"
  level :: nat
  unseen :: bool
  poll_count :: nat

text \<open>A task is created with level 1; \<open>spawn_future\<close> posts it, \<open>spawn_local_future\<close> queues it.\<close>

definition new_task :: "task_kind \<Rightarrow> task_state" where
  "new_task k = \<lparr>signal_level = 1, completed = False,
     posted_refs = (if k = GlobalKind then 1 else 0), pushing = 0,
     queued = (if k = GlobalKind then 0 else 1), polls = [],
     level = 1, unseen = True, poll_count = 0\<rparr>"

subsection \<open>Steps\<close>

datatype outcome = Continues | ThreadPanics | ProcessExits

definition fetch_add :: "task_state \<Rightarrow> usize \<times> task_state" where
  "fetch_add s = (signal_level s,
     s\<lparr>signal_level := signal_level s + 1, level := level s + 1, unseen := True\<rparr>)"

text \<open>\<open>Inr\<close>: exchanged; \<open>Inl\<close>: the level found instead.\<close>

definition compare_exchange :: "usize \<Rightarrow> task_state \<Rightarrow> (usize + unit) \<times> task_state" where
  "compare_exchange expected s =
     (if signal_level s = expected then (Inr (), s\<lparr>signal_level := 0, level := 0\<rparr>)
      else (Inl (signal_level s), s))"

definition GlobalTask_notify :: "bool \<Rightarrow> task_state \<Rightarrow> outcome \<times> task_state" where
  "GlobalTask_notify on_worker s =
     (let (old, s1) = fetch_add s
      in if old = 0 then
           if on_worker then (Continues, s1\<lparr>pushing := pushing s1 + 1\<rparr>) else (ThreadPanics, s1)
         else (Continues, s1))"

definition LocalTask_notify :: "task_state \<Rightarrow> outcome \<times> task_state" where
  "LocalTask_notify s =
     (let (old, s1) = fetch_add s in if old = 0 then (ThreadPanics, s1) else (Continues, s1))"

text \<open>The call of \<open>do_poll\<close> at position \<open>i\<close> moves on, or returns.\<close>

definition goto :: "nat \<Rightarrow> phase \<Rightarrow> task_state \<Rightarrow> task_state" where
  "goto i p s = s\<lparr>polls := (polls s)[i := p]\<rparr>"

definition return_from :: "nat \<Rightarrow> task_state \<Rightarrow> task_state" where
  "return_from i s = s\<lparr>polls := take i (polls s) @ drop (Suc i) (polls s)\<rparr>"

text \<open>One atomic step of \<open>do_poll\<close>; \<open>answer\<close> is what the future answers if it is polled in this step.\<close>

definition do_poll_step ::
  "nat \<Rightarrow> unit + unit Async \<Rightarrow> task_state \<Rightarrow> outcome \<times> task_state" where
  "do_poll_step i answer s =
     (case polls s ! i of
        Start \<Rightarrow> (Continues, goto i (Loaded (signal_level s)) s)
      | Loaded l \<Rightarrow>
          (Continues, (goto i (Polling l) s)\<lparr>unseen := False, poll_count := poll_count s + 1\<rparr>)
      | Polling l \<Rightarrow>
          (case answer of
             Inr NotReady \<Rightarrow> (Continues, goto i (Polled l) s)
           | Inr (Ready _) \<Rightarrow> (Continues, return_from i (s\<lparr>completed := True\<rparr>))
           | Inl _ \<Rightarrow> (ProcessExits, s))
      | Polled l \<Rightarrow>
          (case compare_exchange l s of
             (Inr _, s1) \<Rightarrow> (Continues, return_from i s1)
           | (Inl l', s1) \<Rightarrow> (Continues, goto i (Loaded l') s1)))"

text \<open>
  \<open>Deliver\<close> is \<open>handle_remote_spawn\<close>, \<open>Push\<close> the second half of a notification, \<open>Take\<close> a worker that
  takes the task out of a queue and calls \<open>do_poll\<close>.
\<close>

datatype action = Deliver | NotifyTask bool | Push | Take | PollStep nat "unit + unit Async"

fun enabled :: "action \<Rightarrow> task_state \<Rightarrow> bool" where
  "enabled Deliver s = (0 < posted_refs s)"
| "enabled (NotifyTask _) s = True"
| "enabled Push s = (0 < pushing s)"
| "enabled Take s = (0 < queued s)"
| "enabled (PollStep i _) s = (i < length (polls s))"

fun perform :: "task_kind \<Rightarrow> action \<Rightarrow> task_state \<Rightarrow> outcome \<times> task_state" where
  "perform k Deliver s =
     (Continues, s\<lparr>posted_refs := posted_refs s - 1, queued := queued s + 1\<rparr>)"
| "perform k (NotifyTask w) s =
     (case k of GlobalKind \<Rightarrow> GlobalTask_notify w s | LocalKind \<Rightarrow> LocalTask_notify s)"
| "perform k Push s = (Continues, s\<lparr>pushing := pushing s - 1, queued := queued s + 1\<rparr>)"
| "perform k Take s = (Continues, s\<lparr>queued := queued s - 1, polls := polls s @ [Start]\<rparr>)"
| "perform k (PollStep i answer) s = do_poll_step i answer s"

inductive task_step :: "task_kind \<Rightarrow> task_state \<Rightarrow> action \<times> outcome \<Rightarrow> task_state \<Rightarrow> bool" for k where
  step: "enabled a s \<Longrightarrow> perform k a s = (r, s') \<Longrightarrow> level s' < 2 ^ 64 \<Longrightarrow>
    task_step k s (a, r) s'"

inductive_cases task_stepE: "task_step k s (a, r) s'"

text \<open>Runs in which no thread has panicked, and all that can follow a state.\<close>

inductive task_reachable :: "task_kind \<Rightarrow> task_state \<Rightarrow> bool" for k where
  init: "task_reachable k (new_task k)"
| step: "task_reachable k s \<Longrightarrow> task_step k s (a, Continues) s' \<Longrightarrow> task_reachable k s'"

inductive task_run :: "task_kind \<Rightarrow> task_state \<Rightarrow> task_state \<Rightarrow> bool" for k where
  refl: "task_run k s s"
| step: "task_run k s s' \<Longrightarrow> task_step k s' (a, r) s'' \<Longrightarrow> r \<noteq> ProcessExits \<Longrightarrow> task_run k s s''"

subsection \<open>The invariant\<close>

definition owners :: "task_state \<Rightarrow> nat" where
  "owners s = posted_refs s + pushing s + queued s + length (polls s)"

fun phase_ok :: "task_state \<Rightarrow> phase \<Rightarrow> bool" where
  "phase_ok s Start = True"
| "phase_ok s (Loaded l) = (unat l \<le> level s \<and> l \<noteq> 0)"
| "phase_ok s (Polling l) = (unat l \<le> level s \<and> l \<noteq> 0 \<and> (unseen s \<longrightarrow> unat l < level s))"
| "phase_ok s (Polled l) = (unat l \<le> level s \<and> l \<noteq> 0 \<and> (unseen s \<longrightarrow> unat l < level s))"

definition task_inv :: "task_state \<Rightarrow> bool" where
  "task_inv s \<longleftrightarrow>
     level s < 2 ^ 64 \<and> signal_level s = of_nat (level s) \<and>
     (if completed s then owners s = 0 \<and> 0 < level s
      else (owners s = 1 \<and> 0 < level s) \<or> (owners s = 0 \<and> level s = 0 \<and> \<not> unseen s)) \<and>
     (\<forall>p \<in> set (polls s). phase_ok s p)"

text \<open>No reference is left and the counter is not 0: no notification will queue the task again.\<close>

definition dead :: "task_state \<Rightarrow> bool" where
  "dead s \<longleftrightarrow> owners s = 0 \<and> 0 < level s \<and> level s < 2 ^ 64 \<and> signal_level s = of_nat (level s)"

lemma signal_eq_iff: "n < 2 ^ 64 \<Longrightarrow> (of_nat n = (l :: usize)) \<longleftrightarrow> n = unat l"
  by (auto simp: unat_of_nat take_bit_nat_eq_self)

lemma signal_zero_iff: "n < 2 ^ 64 \<Longrightarrow> (of_nat n = (0 :: usize)) \<longleftrightarrow> n = 0"
  using signal_eq_iff [of n 0] by simp


lemma task_inv_new: "task_inv (new_task k)"
  by (cases k) (simp_all add: task_inv_def new_task_def owners_def)

lemma single_ownerD:
  assumes "task_inv s" and "i < length (polls s)"
  shows "posted_refs s = 0" "pushing s = 0" "queued s = 0" "i = 0" "polls s = [polls s ! 0]"
    "\<not> completed s" "0 < level s"
proof -
  have "owners s = 1 \<and> 0 < level s \<and> \<not> completed s"
    using assms by (auto simp: task_inv_def owners_def split: if_splits)
  then show "posted_refs s = 0" "pushing s = 0" "queued s = 0" "i = 0" "\<not> completed s" "0 < level s"
    using assms(2) by (auto simp: owners_def)
  have "length (polls s) = 1"
    using \<open>owners s = 1 \<and> _\<close> assms(2) by (auto simp: owners_def)
  then show "polls s = [polls s ! 0]" by (cases "polls s") auto
qed

lemma phase_ok_upd [simp]:
  "phase_ok (s\<lparr>posted_refs := x\<rparr>) p = phase_ok s p" "phase_ok (s\<lparr>pushing := x\<rparr>) p = phase_ok s p"
  "phase_ok (s\<lparr>queued := x\<rparr>) p = phase_ok s p" "phase_ok (s\<lparr>polls := ps\<rparr>) p = phase_ok s p"
  by (cases p; simp)+

lemma phase_ok_notified:
  "phase_ok s p \<Longrightarrow> phase_ok (s\<lparr>signal_level := x, level := Suc (level s), unseen := True\<rparr>) p"
  by (cases p) auto

lemma notify_inv:
  assumes "task_inv s" and "Suc (level s) < 2 ^ 64"
    and "perform k (NotifyTask w) s = (Continues, s')"
  shows "task_inv s'"
proof -
  have zero: "signal_level s = 0 \<longleftrightarrow> level s = 0"
    using assms(1) signal_zero_iff [of "level s"] by (auto simp: task_inv_def)
  show ?thesis
    using assms zero
    by (auto simp: task_inv_def GlobalTask_notify_def LocalTask_notify_def fetch_add_def owners_def
        phase_ok_notified add.commute split: task_kind.splits if_splits)
qed


lemma poll_step_inv:
  assumes "task_inv s" and "i < length (polls s)" and "do_poll_step i answer s = (Continues, s')"
  shows "task_inv s'"
proof -
  note one = single_ownerD [OF assms(1,2)]
  obtain p where p: "polls s = [p]" using one(5) by metis
  have ok: "phase_ok s p" and lv: "level s < 2 ^ 64" "signal_level s = of_nat (level s)"
    using assms(1) p by (auto simp: task_inv_def)
  have nz: "signal_level s \<noteq> 0" "unat (signal_level s) = level s"
    using lv one(7) signal_zero_iff [of "level s"] signal_eq_iff [of "level s" "signal_level s"] by auto
  show ?thesis
  proof (cases p)
    case (Polled l)
    show ?thesis
    proof (cases "signal_level s = l")
      case True
      then have "\<not> unseen s" using nz ok Polled by auto
      then show ?thesis
        using assms(3) p Polled True one
        by (auto simp: do_poll_step_def compare_exchange_def return_from_def task_inv_def owners_def)
    next
      case False
      then show ?thesis
        using assms(3) p Polled one nz lv
        by (auto simp: do_poll_step_def compare_exchange_def goto_def task_inv_def owners_def)
    qed
  qed (use assms(3) p one nz lv ok in
      \<open>auto simp: do_poll_step_def return_from_def goto_def task_inv_def owners_def
        split: sum.splits Async.splits\<close>)
qed

lemma perform_inv:
  assumes "task_inv s" and "task_step k s (a, Continues) s'"
  shows "task_inv s'"
proof (cases a)
  case (NotifyTask w)
  then have "Suc (level s) < 2 ^ 64"
    using assms(2) by (auto simp: GlobalTask_notify_def LocalTask_notify_def fetch_add_def
        split: task_kind.splits if_splits elim!: task_stepE)
  then show ?thesis using assms NotifyTask by (auto intro: notify_inv elim!: task_stepE)
next
  case (PollStep i answer)
  then show ?thesis using assms by (auto intro: poll_step_inv elim!: task_stepE)
next
  case Deliver
  then show ?thesis using assms
    by (cases "completed s"; cases "polls s") (auto simp: task_inv_def owners_def elim!: task_stepE)
next
  case Push
  then show ?thesis using assms
    by (cases "completed s"; cases "polls s") (auto simp: task_inv_def owners_def elim!: task_stepE)
next
  case Take
  then show ?thesis using assms
    by (cases "completed s"; cases "polls s") (auto simp: task_inv_def owners_def elim!: task_stepE)
qed

lemma task_reachable_inv: "task_reachable k s \<Longrightarrow> task_inv s"
  by (induction rule: task_reachable.induct) (auto intro: task_inv_new perform_inv)

lemma dead_step:
  assumes "dead s" and "task_step k s (a, r) s'"
  shows "dead s' \<and> poll_count s' = poll_count s \<and> completed s' = completed s"
proof (cases a)
  case (NotifyTask w)
  have "signal_level s \<noteq> 0"
    using assms(1) signal_zero_iff [of "level s"] by (auto simp: dead_def)
  then show ?thesis
    using assms NotifyTask
    by (auto simp: dead_def owners_def GlobalTask_notify_def LocalTask_notify_def fetch_add_def add.commute
        split: task_kind.splits elim!: task_stepE)
qed (use assms in \<open>auto simp: dead_def owners_def elim!: task_stepE\<close>)

lemma dead_run: "task_run k s s' \<Longrightarrow> dead s \<Longrightarrow>
  dead s' \<and> poll_count s' = poll_count s \<and> completed s' = completed s"
proof (induction rule: task_run.induct)
  case (step s s' a r s'')
  then show ?case using dead_step [of s' k a r s''] by simp
qed simp

subsection \<open>The abstract scheduler\<close>

text \<open>
  What the protocol implements: a task is idle, scheduled, running (with or without a notification
  since the poll began) or complete.  A running task that has been notified never becomes idle.
\<close>

datatype sched = Idle | Scheduled | Running bool | Complete

datatype event = Notified | Begins | Suspends | Finishes | Internal

fun sched_step :: "sched \<Rightarrow> event \<Rightarrow> sched \<Rightarrow> bool" where
  "sched_step Idle Notified t = (t = Scheduled)"
| "sched_step Scheduled Notified t = (t = Scheduled)"
| "sched_step (Running _) Notified t = (t = Running True)"
| "sched_step Complete Notified t = (t = Complete)"
| "sched_step Scheduled Begins t = (t = Running False)"
| "sched_step (Running False) Suspends t = (t = Idle)"
| "sched_step (Running _) Finishes t = (t = Complete)"
| "sched_step (Running b) Internal t = (t = Running b \<or> t = Scheduled)"
| "sched_step s Internal t = (t = s)"
| "sched_step _ _ _ = False"

fun is_running :: "phase \<Rightarrow> bool" where
  "is_running (Polling _) = True"
| "is_running (Polled _) = True"
| "is_running _ = False"

definition sched_of :: "task_state \<Rightarrow> sched" where
  "sched_of s =
     (if completed s then Complete
      else if owners s = 0 then Idle
      else if \<exists>p \<in> set (polls s). is_running p then Running (unseen s)
      else Scheduled)"

fun event_of :: "action \<Rightarrow> task_state \<Rightarrow> event" where
  "event_of (NotifyTask _) s = Notified"
| "event_of (PollStep i answer) s =
     (case polls s ! i of
        Loaded _ \<Rightarrow> Begins
      | Polling _ \<Rightarrow> (case answer of Inr (Ready _) \<Rightarrow> Finishes | _ \<Rightarrow> Internal)
      | Polled l \<Rightarrow> if signal_level s = l then Suspends else Internal
      | Start \<Rightarrow> Internal)"
| "event_of _ s = Internal"

lemma poll_step_simulates:
  assumes "task_inv s" and "i < length (polls s)" and "do_poll_step i answer s = (Continues, s')"
  shows "sched_step (sched_of s) (event_of (PollStep i answer) s) (sched_of s')"
proof -
  note one = single_ownerD [OF assms(1,2)]
  obtain p where p: "polls s = [p]" using one(5) by metis
  have ok: "phase_ok s p" and lv: "level s < 2 ^ 64" "signal_level s = of_nat (level s)"
    using assms(1) p by (auto simp: task_inv_def)
  have "unat (signal_level s) = level s"
    using lv signal_eq_iff [of "level s" "signal_level s"] by auto
  then have "p = Polled l \<Longrightarrow> signal_level s = l \<Longrightarrow> \<not> unseen s" for l
    using ok by auto
  then show ?thesis
    using assms(3) p one
    by (cases p) (auto simp: do_poll_step_def compare_exchange_def return_from_def goto_def
        sched_of_def owners_def split: sum.splits Async.splits if_splits)
qed


lemma notify_simulates:
  assumes "task_inv s" and "perform k (NotifyTask w) s = (Continues, s')"
  shows "sched_step (sched_of s) Notified (sched_of s')"
proof -
  have zero: "signal_level s = 0 \<longleftrightarrow> level s = 0"
    using assms(1) signal_zero_iff [of "level s"] by (auto simp: task_inv_def)
  show ?thesis
  proof (cases "level s = 0")
    case True
    then have "owners s = 0" "\<not> completed s" using assms(1) by (auto simp: task_inv_def split: if_splits)
    then show ?thesis
      using assms(2) True zero
      by (auto simp: GlobalTask_notify_def LocalTask_notify_def fetch_add_def sched_of_def owners_def
          split: task_kind.splits if_splits)
  next
    case False
    then have "s' = snd (fetch_add s)"
      using assms(2) zero
      by (auto simp: GlobalTask_notify_def LocalTask_notify_def fetch_add_def split: task_kind.splits)
    moreover have "completed s \<or> owners s \<noteq> 0"
      using assms(1) False by (auto simp: task_inv_def split: if_splits)
    ultimately show ?thesis by (auto simp: fetch_add_def sched_of_def owners_def)
  qed
qed

lemma queue_step_simulates:
  assumes "task_inv s" and "task_step k s (a, Continues) s'" and "a \<in> {Deliver, Push, Take}"
  shows "sched_step (sched_of s) (event_of a s) (sched_of s')"
proof -
  have en: "enabled a s" "perform k a s = (Continues, s')"
    using assms(2) by (auto elim: task_stepE)
  have "owners s = 1" "\<not> completed s"
    using assms(1,3) en(1) by (auto simp: task_inv_def owners_def split: if_splits)
  moreover then have "polls s = []"
    using assms(3) en(1) by (cases "polls s") (auto simp: owners_def)
  ultimately have "sched_of s = Scheduled" "sched_of s' = Scheduled"
    using assms(3) en by (auto simp: sched_of_def owners_def)
  then show ?thesis using assms(3) by auto
qed

subsection \<open>Executing a schedule\<close>

fun schedule :: "task_kind \<Rightarrow> action list \<Rightarrow> task_state \<Rightarrow> task_state option" where
  "schedule k [] s = Some s"
| "schedule k (a # as) s =
     (if enabled a s then
        case perform k a s of
          (Continues, s') \<Rightarrow> if level s' < 2 ^ 64 then schedule k as s' else None
        | _ \<Rightarrow> None
      else None)"

lemma schedule_reachable:
  "schedule k as s = Some s' \<Longrightarrow> task_reachable k s \<Longrightarrow> task_reachable k s'"
proof (induction as arbitrary: s)
  case (Cons a as)
  then obtain s1 where "perform k a s = (Continues, s1)" "enabled a s" "level s1 < 2 ^ 64"
    "schedule k as s1 = Some s'"
    by (auto split: if_splits prod.splits outcome.splits)
  with Cons show ?case by (blast intro: task_reachable.step task_step.step)
qed simp

definition scheduled_task :: "task_kind \<Rightarrow> action list \<Rightarrow> task_state" where
  "scheduled_task k as = the (schedule k as (new_task k))"

lemma scheduled_task_reachable:
  "schedule k as (new_task k) \<noteq> None \<Longrightarrow> task_reachable k (scheduled_task k as)"
  by (auto simp: scheduled_task_def intro: schedule_reachable task_reachable.init)

text \<open>A task that has been polled and suspended; one that was notified during its poll; a finished one.\<close>

definition suspended :: "action list" where
  "suspended = [Deliver, Take, PollStep 0 (Inr NotReady), PollStep 0 (Inr NotReady),
     PollStep 0 (Inr NotReady), PollStep 0 (Inr NotReady)]"

definition notified_in_poll :: "action list" where
  "notified_in_poll = [Deliver, Take, PollStep 0 (Inr NotReady), PollStep 0 (Inr NotReady),
     NotifyTask False, PollStep 0 (Inr NotReady)]"

definition finished :: "action list" where
  "finished = [Deliver, Take, PollStep 0 (Inr NotReady), PollStep 0 (Inr NotReady),
     PollStep 0 (Inr (Ready ()))]"

lemmas schedule_defs = scheduled_task_def suspended_def notified_in_poll_def finished_def new_task_def
  GlobalTask_notify_def LocalTask_notify_def fetch_add_def compare_exchange_def do_poll_step_def
  goto_def return_from_def owners_def

subsection \<open>The properties\<close>

text \<open>
  At most one thread runs or is about to run a task: at every point there is at most one
  reference to run it, so the future in the \<open>UnsafeCell\<close> is never polled by two threads at once.
\<close>

theorem task_single_poller:
  assumes "task_reachable k s"
  shows "owners s \<le> 1 \<and> length (polls s) \<le> 1"
  using task_reachable_inv [OF assms] by (auto simp: task_inv_def owners_def split: if_splits)

theorem task_single_poller_witness:
  "owners (scheduled_task GlobalKind notified_in_poll) \<le> 1 \<and>
   polls (scheduled_task GlobalKind notified_in_poll) = [Polled 1]"
proof -
  have "task_reachable GlobalKind (scheduled_task GlobalKind notified_in_poll)"
    by (rule scheduled_task_reachable) (simp add: schedule_defs)
  moreover have "polls (scheduled_task GlobalKind notified_in_poll) = [Polled 1]" by (simp add: schedule_defs)
  ultimately show ?thesis using task_single_poller by blast
qed

text \<open>
  C5. No wake-up is lost: while a notification has come since the last poll of the future began and
  the future is not complete, there is exactly one reference to run it, and if that is a \<open>do_poll\<close>
  about to suspend the task, its \<open>compare_exchange\<close> fails.
\<close>

theorem no_lost_wakeup:
  assumes "task_reachable k s" and "unseen s" and "\<not> completed s"
  shows "owners s = 1 \<and> (\<forall>l s'. polls s = [Polled l] \<longrightarrow>
    compare_exchange l s = (Inl (signal_level s), s) \<and> signal_level s \<noteq> l)"
proof -
  note inv = task_reachable_inv [OF assms(1)]
  have "signal_level s \<noteq> l" if "polls s = [Polled l]" for l
    using inv that assms(2) signal_eq_iff [of "level s" l] by (auto simp: task_inv_def)
  then show ?thesis
    using inv assms(2,3) by (auto simp: task_inv_def compare_exchange_def)
qed

theorem no_lost_wakeup_witness:
  "owners (scheduled_task GlobalKind notified_in_poll) = 1 \<and>
   compare_exchange 1 (scheduled_task GlobalKind notified_in_poll) =
     (Inl 2, scheduled_task GlobalKind notified_in_poll)"
proof -
  have facts: "task_reachable GlobalKind (scheduled_task GlobalKind notified_in_poll)"
    "unseen (scheduled_task GlobalKind notified_in_poll)"
    "\<not> completed (scheduled_task GlobalKind notified_in_poll)"
    by (rule scheduled_task_reachable) (simp_all add: schedule_defs)
  moreover have "polls (scheduled_task GlobalKind notified_in_poll) = [Polled 1]"
    "signal_level (scheduled_task GlobalKind notified_in_poll) = 2" by (simp_all add: schedule_defs)
  ultimately show ?thesis using no_lost_wakeup [OF facts] by metis
qed

text \<open>
  C20. Every step implements one of the abstract scheduler, with its event: a task that is notified
  while it runs is scheduled again, an idle task becomes scheduled only by a notification and by every
  one, and a complete task stays complete.
\<close>

theorem task_refines_scheduler:
  assumes "task_reachable k s" and "task_step k s (a, Continues) s'"
  shows "sched_step (sched_of s) (event_of a s) (sched_of s')"
proof -
  note inv = task_reachable_inv [OF assms(1)]
  show ?thesis
  proof (cases a)
    case (PollStep i answer)
    then show ?thesis
      using assms(2) poll_step_simulates [OF inv] by (auto elim!: task_stepE)
  next
    case (NotifyTask w)
    then show ?thesis using assms(2) notify_simulates [OF inv] by (auto elim!: task_stepE)
  qed (use queue_step_simulates [OF inv assms(2)] in simp_all)
qed

theorem task_refines_scheduler_witness:
  "sched_step (sched_of (new_task GlobalKind)) Internal (sched_of (scheduled_task GlobalKind [Deliver]))"
proof -
  have "task_step GlobalKind (new_task GlobalKind) (Deliver, Continues) (scheduled_task GlobalKind [Deliver])"
    by (rule task_step.step) (simp_all add: schedule_defs)
  from task_refines_scheduler [OF task_reachable.init this] show ?thesis by simp
qed


text \<open>
  How far the thread that holds the reference is from polling the future again, in steps of its own.
\<close>

fun phase_distance :: "phase \<Rightarrow> nat" where
  "phase_distance Start = 2"
| "phase_distance (Loaded _) = 1"
| "phase_distance (Polling _) = 3"
| "phase_distance (Polled _) = 2"

definition distance :: "task_state \<Rightarrow> nat" where
  "distance s = 4 * (posted_refs s + pushing s) + 3 * queued s + sum_list (map phase_distance (polls s))"

fun is_notify :: "action \<Rightarrow> bool" where
  "is_notify (NotifyTask _) = True"
| "is_notify _ = False"

lemma own_step_progress:
  assumes inv: "task_inv s" and pending: "unseen s" "\<not> completed s"
    and step: "task_step k s (a, Continues) s'" and own: "\<not> is_notify a"
  shows "poll_count s' = Suc (poll_count s) \<or> completed s' \<or> (unseen s' \<and> distance s' < distance s)"
proof (cases a)
  case (PollStep i answer)
  have i: "i < length (polls s)" and res: "do_poll_step i answer s = (Continues, s')"
    using step PollStep by (auto elim!: task_stepE)
  note one = single_ownerD [OF inv i]
  obtain p where p: "polls s = [p]" using one(5) by metis
  have "p = Polled l \<Longrightarrow> signal_level s \<noteq> l" for l
    using inv p pending(1) signal_eq_iff [of "level s" l] by (auto simp: task_inv_def)
  then show ?thesis
    using res p one pending
    by (cases p) (auto simp: do_poll_step_def compare_exchange_def goto_def return_from_def distance_def
        split: sum.splits Async.splits)
qed (use step own pending in \<open>auto simp: distance_def elim!: task_stepE\<close>)

lemma own_step_enabled:
  assumes "task_inv s" and "unseen s" and "\<not> completed s"
  shows "\<exists>a s'. \<not> is_notify a \<and> task_step k s (a, Continues) s'"
proof -
  have lv: "level s < 2 ^ 64" and one: "owners s = 1"
    using assms by (auto simp: task_inv_def)
  have "0 < posted_refs s \<or> 0 < pushing s \<or> 0 < queued s \<or> polls s \<noteq> []"
    using one by (cases "polls s = []") (simp_all add: owners_def, linarith)
  then consider "0 < posted_refs s" | "0 < pushing s" | "0 < queued s" | "polls s \<noteq> []"
    by metis
  then show ?thesis
  proof cases
    case 1
    then have "task_step k s (Deliver, Continues) (snd (perform k Deliver s))"
      using lv by (auto intro: task_step.step)
    then show ?thesis by (metis is_notify.simps(2))
  next
    case 2
    then have "task_step k s (Push, Continues) (snd (perform k Push s))"
      using lv by (auto intro: task_step.step)
    then show ?thesis by (metis is_notify.simps(3))
  next
    case 3
    then have "task_step k s (Take, Continues) (snd (perform k Take s))"
      using lv by (auto intro: task_step.step)
    then show ?thesis by (metis is_notify.simps(4))
  next
    case 4
    let ?a = "PollStep 0 (Inr NotReady)"
    obtain p ps where "polls s = p # ps" using 4 by (cases "polls s") auto
    then have "fst (perform k ?a s) = Continues" "level (snd (perform k ?a s)) < 2 ^ 64" "enabled ?a s"
      using lv by (cases p; auto simp: do_poll_step_def goto_def return_from_def compare_exchange_def)+
    then have "task_step k s (?a, Continues) (snd (perform k ?a s))"
      by (metis prod.collapse task_step.step)
    then show ?thesis by (metis is_notify.simps(5))
  qed
qed

text \<open>
  C26. A notification leads to a poll: as long as one is pending, some thread other than a notifier
  can take a step, and every such step begins a poll of the future, completes it, or brings the next
  poll strictly nearer.  (A poll that is under way counts as one step: the future returns.)
\<close>

theorem notification_leads_to_poll:
  assumes "task_reachable k s" and "unseen s" and "\<not> completed s"
  shows "(\<exists>a s'. \<not> is_notify a \<and> task_step k s (a, Continues) s') \<and>
    (\<forall>a s'. task_step k s (a, Continues) s' \<and> \<not> is_notify a \<longrightarrow>
       poll_count s' = Suc (poll_count s) \<or> completed s' \<or> (unseen s' \<and> distance s' < distance s))"
  using own_step_enabled own_step_progress task_reachable_inv [OF assms(1)] assms(2,3) by metis

theorem notification_leads_to_poll_witness:
  "\<exists>a s'. \<not> is_notify a \<and>
     task_step GlobalKind (scheduled_task GlobalKind notified_in_poll) (a, Continues) s'"
proof -
  have facts: "task_reachable GlobalKind (scheduled_task GlobalKind notified_in_poll)"
    "unseen (scheduled_task GlobalKind notified_in_poll)"
    "\<not> completed (scheduled_task GlobalKind notified_in_poll)"
    by (rule scheduled_task_reachable) (simp_all add: schedule_defs)
  show ?thesis using notification_leads_to_poll [OF facts] by blast
qed

text \<open>
  Once the future has completed it is never polled again, whatever notifications its surviving
  notify handles still send.
\<close>

theorem completed_never_polled:
  assumes "task_reachable k s" and "completed s" and "task_run k s s'"
  shows "poll_count s' = poll_count s \<and> completed s' \<and> owners s' = 0"
proof -
  have "dead s"
    using task_reachable_inv [OF assms(1)] assms(2) by (auto simp: task_inv_def dead_def)
  then show ?thesis using dead_run [OF assms(3)] assms(2) by (auto simp: dead_def)
qed

theorem completed_never_polled_witness:
  "poll_count (snd (GlobalTask_notify True (scheduled_task GlobalKind finished))) = 1"
proof -
  have facts: "task_reachable GlobalKind (scheduled_task GlobalKind finished)"
    "completed (scheduled_task GlobalKind finished)"
    by (rule scheduled_task_reachable) (simp_all add: schedule_defs)
  have "task_step GlobalKind (scheduled_task GlobalKind finished) (NotifyTask True, Continues)
      (snd (GlobalTask_notify True (scheduled_task GlobalKind finished)))"
    by (rule task_step.step) (simp_all add: schedule_defs)
  from completed_never_polled [OF facts task_run.step [OF task_run.refl this]]
  show ?thesis by (simp add: schedule_defs)
qed

text \<open>
  C34. A thread that is not a worker cannot wake a suspended global task: its notification panics, and it has
  already raised the counter, so that whatever happens later, from any thread, the task is never polled
  again and never completes.
\<close>

theorem remote_notify_loses_task:
  assumes "task_reachable GlobalKind s" and "sched_of s = Idle"
  shows "\<exists>s'. GlobalTask_notify False s = (ThreadPanics, s') \<and>
    task_step GlobalKind s (NotifyTask False, ThreadPanics) s' \<and>
    (\<forall>s''. task_run GlobalKind s' s'' \<longrightarrow> poll_count s'' = poll_count s \<and> \<not> completed s'')"
proof -
  have s: "owners s = 0" "\<not> completed s"
    using assms(2) by (auto simp: sched_of_def split: if_splits)
  then have level: "level s = 0" "signal_level s = 0"
    using task_reachable_inv [OF assms(1)] by (auto simp: task_inv_def)
  obtain r s' where res: "GlobalTask_notify False s = (r, s')" by fastforce
  then have s': "r = ThreadPanics" "dead s'" "poll_count s' = poll_count s" "\<not> completed s'" "level s' = 1"
    using s level by (auto simp: dead_def owners_def GlobalTask_notify_def fetch_add_def)
  then have "task_step GlobalKind s (NotifyTask False, ThreadPanics) s'"
    using res by (intro task_step.step) simp_all
  moreover have "poll_count s'' = poll_count s \<and> \<not> completed s''" if "task_run GlobalKind s' s''" for s''
    using dead_run [OF that] s' by simp
  ultimately show ?thesis using res s'(1) by blast
qed

theorem remote_notify_loses_task_witness:
  "\<exists>s'. GlobalTask_notify False (scheduled_task GlobalKind suspended) = (ThreadPanics, s') \<and>
     (\<forall>s''. task_run GlobalKind s' s'' \<longrightarrow> poll_count s'' = 1 \<and> \<not> completed s'')"
proof -
  have facts: "task_reachable GlobalKind (scheduled_task GlobalKind suspended)"
    "sched_of (scheduled_task GlobalKind suspended) = Idle"
    by (rule scheduled_task_reachable) (simp_all add: schedule_defs sched_of_def)
  moreover have "poll_count (scheduled_task GlobalKind suspended) = 1" by (simp add: schedule_defs)
  ultimately show ?thesis using remote_notify_loses_task [OF facts] by auto
qed

lemma idle_local_run:
  assumes "task_run LocalKind s s'" and "owners s = 0" "\<not> completed s" "task_inv s"
  shows "poll_count s' = poll_count s \<and> \<not> completed s' \<and> (s' = s \<or> dead s')"
  using assms
proof (induction rule: task_run.induct)
  case (step s s' a r s'')
  then consider "s' = s" | "dead s'" by blast
  then show ?case
  proof cases
    case 1
    with step.prems have "level s' = 0" "signal_level s' = 0" by (auto simp: task_inv_def)
    with step.hyps(2) 1 step.prems show ?thesis
      by (cases a) (auto simp: owners_def dead_def LocalTask_notify_def fetch_add_def elim!: task_stepE)
  next
    case 2
    then show ?thesis using dead_step [OF 2 step.hyps(2)] step by auto
  qed
qed simp

text \<open>
  C37. A future spawned with \<open>spawn_local_future\<close> whose poll returns \<open>NotReady\<close> without a notification
  during the poll is never polled again: every notification of a suspended local task panics.
\<close>

theorem suspended_local_task_is_lost:
  assumes "task_reachable LocalKind s" and "sched_of s = Idle" and "task_run LocalKind s s'"
  shows "poll_count s' = poll_count s \<and> \<not> completed s'"
proof -
  have "owners s = 0" "\<not> completed s"
    using assms(2) by (auto simp: sched_of_def split: if_splits)
  then show ?thesis using idle_local_run [OF assms(3)] task_reachable_inv [OF assms(1)] by blast
qed

theorem suspended_local_task_is_lost_witness:
  "poll_count (snd (LocalTask_notify (scheduled_task LocalKind (tl suspended)))) = 1"
proof -
  have facts: "task_reachable LocalKind (scheduled_task LocalKind (tl suspended))"
    "sched_of (scheduled_task LocalKind (tl suspended)) = Idle"
    by (rule scheduled_task_reachable) (simp_all add: schedule_defs sched_of_def)
  have "task_step LocalKind (scheduled_task LocalKind (tl suspended)) (NotifyTask True, ThreadPanics)
      (snd (LocalTask_notify (scheduled_task LocalKind (tl suspended))))"
    by (rule task_step.step) (simp_all add: schedule_defs)
  then have "task_run LocalKind (scheduled_task LocalKind (tl suspended))
      (snd (LocalTask_notify (scheduled_task LocalKind (tl suspended))))"
    using task_run.step [OF task_run.refl] by blast
  from suspended_local_task_is_lost [OF facts this] show ?thesis
    by (simp add: schedule_defs)
qed

end
