(* ===== verification/ThreadPool.thy ===== *)
theory ThreadPool
  imports TaskSignal
begin

text \<open>
  The thread pool of \<open>src/src/evloop/threadpool/mod.rs\<close>: its workers, their queues, spawning,
  notifications between tasks and shutdown.

  A state holds one record per worker thread, with its program counter in \<open>run_worker\<close>, and one cell
  per task.  Threads are interleaved; a step is one atomic operation of \<open>do_poll\<close>, one operation on
  a queue, or one call of a future or a handler into the pool.  Notifying from a worker is a
  \<open>fetch_add\<close> and a push to the queue of the same worker, from which no other thread takes; it is one
  step here.  The work queue is a \<open>coco\<close> deque: \<open>push\<close> adds at the bottom and \<open>steal_weak\<close> takes from
  the top, or answers that it was \<open>Inconsistent\<close>.  What the futures and the event queue do is not
  determined: every sequence of actions is considered.
\<close>

subsection \<open>State\<close>

datatype steal = StealData | StealEmpty | StealInconsistent

text \<open>
  Where a worker is in \<open>run_worker\<close>: checking \<open>active\<close>, at the head of the loop over the local queue, in
  the loop over \<open>steal_weak\<close>, in \<open>do_poll\<close> of a task it took from the local or the shared queue, or in
  \<open>turn\<close> with its timeout and whether events have come.
\<close>

datatype worker_pc =
    CheckActive
  | LocalPop
  | StealWeak
  | DoPoll task_kind nat phase
  | Turning "nat option" bool
  | Removing
  | Gone

record worker =
  wpc :: worker_pc
  work_queue :: "nat list"
  local_work_queue :: "nat list"
  borrowed :: bool

record cell =
  c_kind :: task_kind
  c_signal :: usize
  c_done :: bool
  c_level :: nat
  c_unseen :: bool
  c_polls :: nat

record pool =
  active :: bool
  workers :: "nat list"
  threads :: "worker list"
  tasks :: "cell list"
  posted :: "nat list"
  process_exited :: bool

definition new_worker :: worker where
  "new_worker = \<lparr>wpc = CheckActive, work_queue = [], local_work_queue = [], borrowed = False\<rparr>"

definition with_concurrency :: "nat \<Rightarrow> pool" where
  "with_concurrency n = \<lparr>active = True, workers = [0..<n], threads = replicate n new_worker,
     tasks = [], posted = [], process_exited = False\<rparr>"

definition begin_shutdown :: "pool \<Rightarrow> pool" where
  "begin_shutdown p = p\<lparr>active := False\<rparr>"

definition new_cell :: "task_kind \<Rightarrow> cell" where
  "new_cell k = \<lparr>c_kind = k, c_signal = 1, c_done = False, c_level = 1, c_unseen = True, c_polls = 0\<rparr>"

subsection \<open>Operations\<close>

definition set_thread :: "nat \<Rightarrow> worker \<Rightarrow> pool \<Rightarrow> pool" where
  "set_thread w x p = p\<lparr>threads := (threads p)[w := x]\<rparr>"

definition set_task :: "nat \<Rightarrow> cell \<Rightarrow> pool \<Rightarrow> pool" where
  "set_task t c p = p\<lparr>tasks := (tasks p)[t := c]\<rparr>"

text \<open>A panic of a worker thread: \<open>catch_unwind\<close> reports it and the process exits.\<close>

definition worker_panics :: "pool \<Rightarrow> outcome \<times> pool" where
  "worker_panics p = (ProcessExits, p\<lparr>process_exited := True\<rparr>)"

text \<open>\<open>posts\<close>: whether \<open>post_custom_event\<close> succeeds; \<open>by\<close>: the worker whose future or handler calls, if any.\<close>

definition spawn_future :: "bool \<Rightarrow> nat option \<Rightarrow> pool \<Rightarrow> outcome \<times> pool" where
  "spawn_future posts by p =
     (let p1 = p\<lparr>tasks := tasks p @ [new_cell GlobalKind]\<rparr>
      in if posts then (Continues, p1\<lparr>posted := posted p @ [length (tasks p)]\<rparr>)
         else case by of None \<Rightarrow> (ThreadPanics, p1) | Some _ \<Rightarrow> worker_panics p1)"

definition spawn_local_future :: "nat \<Rightarrow> pool \<Rightarrow> outcome \<times> pool" where
  "spawn_local_future w p =
     (let p1 = p\<lparr>tasks := tasks p @ [new_cell LocalKind]\<rparr>; x = threads p ! w
      in if borrowed x then worker_panics p1
         else (Continues, set_thread w (x\<lparr>local_work_queue := length (tasks p) # local_work_queue x\<rparr>) p1))"

text \<open>\<open>handle_remote_spawn\<close>, on the worker whose turn dispatches the custom event.\<close>

definition handle_remote_spawn :: "nat option \<Rightarrow> pool \<Rightarrow> outcome \<times> pool" where
  "handle_remote_spawn by p =
     (let t = hd (posted p); p1 = p\<lparr>posted := tl (posted p)\<rparr>
      in case by of
           None \<Rightarrow> (ThreadPanics, p1)
         | Some w \<Rightarrow>
             let x = threads p ! w
             in (Continues, set_thread w (x\<lparr>work_queue := work_queue x @ [t],
                   wpc := (case wpc x of Turning d _ \<Rightarrow> Turning d True | pc \<Rightarrow> pc)\<rparr>) p1))"

definition notify :: "nat option \<Rightarrow> nat \<Rightarrow> pool \<Rightarrow> outcome \<times> pool" where
  "notify by t p =
     (let c = tasks p ! t;
          p1 = set_task t (c\<lparr>c_signal := c_signal c + 1, c_level := c_level c + 1, c_unseen := True\<rparr>) p
      in if c_signal c = 0 then
           case (c_kind c, by) of
             (GlobalKind, Some w) \<Rightarrow>
               (let x = threads p ! w
                in (Continues, set_thread w (x\<lparr>work_queue := work_queue x @ [t]\<rparr>) p1))
           | (_, None) \<Rightarrow> (ThreadPanics, p1)
           | (LocalKind, Some _) \<Rightarrow> worker_panics p1
         else (Continues, p1))"

text \<open>The pc after the loop body: back to the loop the task came from, whose borrow ends.\<close>

definition poll_returns :: "nat \<Rightarrow> task_kind \<Rightarrow> pool \<Rightarrow> pool" where
  "poll_returns w k p =
     set_thread w ((threads p ! w)\<lparr>wpc := (case k of LocalKind \<Rightarrow> LocalPop | GlobalKind \<Rightarrow> StealWeak),
       borrowed := False\<rparr>) p"

definition do_poll :: "nat \<Rightarrow> task_kind \<Rightarrow> nat \<Rightarrow> phase \<Rightarrow> unit + unit Async \<Rightarrow> pool \<Rightarrow> outcome \<times> pool" where
  "do_poll w k t ph answer p =
     (let c = tasks p ! t;
          at = (\<lambda>ph'. set_thread w ((threads p ! w)\<lparr>wpc := DoPoll k t ph'\<rparr>))
      in case ph of
           Start \<Rightarrow> (Continues, at (Loaded (c_signal c)) p)
         | Loaded l \<Rightarrow> (Continues, at (Polling l)
             (set_task t (c\<lparr>c_unseen := False, c_polls := c_polls c + 1\<rparr>) p))
         | Polling l \<Rightarrow>
             (case answer of
                Inr NotReady \<Rightarrow> (Continues, at (Polled l) p)
              | Inr (Ready _) \<Rightarrow> (Continues, poll_returns w k (set_task t (c\<lparr>c_done := True\<rparr>) p))
              | Inl _ \<Rightarrow> worker_panics p)
         | Polled l \<Rightarrow>
             if c_signal c = l
             then (Continues, poll_returns w k (set_task t (c\<lparr>c_signal := 0, c_level := 0\<rparr>) p))
             else (Continues, at (Loaded (c_signal c)) p))"

text \<open>
  One step of \<open>run_worker\<close>.  \<open>while let Some(task) = local_work_queue.borrow_mut().pop_front()\<close> keeps the
  mutable borrow alive to the end of its body.  A worker that exits removes itself from \<open>workers\<close>, and
  panics if it is not there.
\<close>

definition run_worker :: "nat \<Rightarrow> steal \<Rightarrow> unit + unit Async \<Rightarrow> pool \<Rightarrow> outcome \<times> pool" where
  "run_worker w st answer p =
     (let x = threads p ! w; at = (\<lambda>x'. (Continues, set_thread w x' p))
      in case wpc x of
           CheckActive \<Rightarrow> at (x\<lparr>wpc := (if active p then LocalPop else Removing)\<rparr>)
         | LocalPop \<Rightarrow>
             (case local_work_queue x of
                [] \<Rightarrow> at (x\<lparr>wpc := StealWeak\<rparr>)
              | t # ts \<Rightarrow> at (x\<lparr>wpc := DoPoll LocalKind t Start, local_work_queue := ts, borrowed := True\<rparr>))
         | StealWeak \<Rightarrow>
             (case st of
                StealData \<Rightarrow> at (x\<lparr>wpc := DoPoll GlobalKind (hd (work_queue x)) Start,
                                work_queue := tl (work_queue x)\<rparr>)
              | StealEmpty \<Rightarrow> at (x\<lparr>wpc := Turning None False\<rparr>)
              | StealInconsistent \<Rightarrow> at (x\<lparr>wpc := Turning (Some 0) False\<rparr>))
         | DoPoll k t ph \<Rightarrow> do_poll w k t ph answer p
         | Turning d ev \<Rightarrow> at (x\<lparr>wpc := CheckActive\<rparr>)
         | Removing \<Rightarrow>
             if w \<in> set (workers p)
             then (Continues, (set_thread w (x\<lparr>wpc := Gone\<rparr>) p)
                    \<lparr>workers := swap_remove (workers p) (length (takeWhile (\<lambda>v. v \<noteq> w) (workers p)))\<rparr>)
             else worker_panics p
         | Gone \<Rightarrow> (Continues, p))"


subsection \<open>Interleaving\<close>

datatype pool_action =
    WorkerStep nat steal "unit + unit Async"
  | SpawnFuture bool "nat option"
  | SpawnLocal nat
  | DeliverRemote "nat option"
  | PoolNotify "nat option" nat
  | KernelEvent nat
  | KernelError nat
  | BeginShutdown

text \<open>
  A future being polled and a handler called in a turn, once an event has come, may call into the pool;
  so may other threads.
\<close>

fun in_turn :: "worker_pc \<Rightarrow> bool" where
  "in_turn (Turning _ _) = True"
| "in_turn _ = False"

fun in_handler :: "worker_pc \<Rightarrow> bool" where
  "in_handler (Turning _ ev) = ev"
| "in_handler _ = False"

fun in_future :: "worker_pc \<Rightarrow> bool" where
  "in_future (DoPoll _ _ (Polling _)) = True"
| "in_future _ = False"

definition can_call :: "nat option \<Rightarrow> pool \<Rightarrow> bool" where
  "can_call by p \<longleftrightarrow> (case by of None \<Rightarrow> True | Some w \<Rightarrow>
     w < length (threads p) \<and> (in_handler (wpc (threads p ! w)) \<or> in_future (wpc (threads p ! w))))"

definition can_steal :: "steal \<Rightarrow> worker \<Rightarrow> bool" where
  "can_steal st x \<longleftrightarrow> (case st of StealData \<Rightarrow> work_queue x \<noteq> [] | StealEmpty \<Rightarrow> work_queue x = []
     | StealInconsistent \<Rightarrow> True)"

fun pool_enabled :: "pool_action \<Rightarrow> pool \<Rightarrow> bool" where
  "pool_enabled (WorkerStep w st _) p = (w < length (threads p) \<and>
     (case wpc (threads p ! w) of Gone \<Rightarrow> False | Turning None False \<Rightarrow> False
      | StealWeak \<Rightarrow> can_steal st (threads p ! w) | _ \<Rightarrow> True))"
| "pool_enabled (SpawnFuture _ by) p = can_call by p"
| "pool_enabled (SpawnLocal w) p = can_call (Some w) p"
| "pool_enabled (DeliverRemote by) p = (posted p \<noteq> [] \<and>
     (case by of None \<Rightarrow> True | Some w \<Rightarrow> w < length (threads p) \<and> in_turn (wpc (threads p ! w))))"
| "pool_enabled (PoolNotify by t) p = (t < length (tasks p) \<and> can_call by p)"
| "pool_enabled (KernelEvent w) p = (w < length (threads p) \<and> in_turn (wpc (threads p ! w)))"
| "pool_enabled (KernelError w) p = (w < length (threads p) \<and> in_turn (wpc (threads p ! w)))"
| "pool_enabled BeginShutdown p = True"

fun pool_perform :: "pool_action \<Rightarrow> pool \<Rightarrow> outcome \<times> pool" where
  "pool_perform (WorkerStep w st answer) p = run_worker w st answer p"
| "pool_perform (SpawnFuture posts by) p = spawn_future posts by p"
| "pool_perform (SpawnLocal w) p = spawn_local_future w p"
| "pool_perform (DeliverRemote by) p = handle_remote_spawn by p"
| "pool_perform (PoolNotify by t) p = notify by t p"
| "pool_perform (KernelEvent w) p = (Continues, set_thread w ((threads p ! w)
     \<lparr>wpc := (case wpc (threads p ! w) of Turning d _ \<Rightarrow> Turning d True | pc \<Rightarrow> pc)\<rparr>) p)"
| "pool_perform (KernelError w) p = worker_panics p"
| "pool_perform BeginShutdown p = (Continues, begin_shutdown p)"

inductive pool_step :: "pool \<Rightarrow> pool_action \<times> outcome \<Rightarrow> pool \<Rightarrow> bool" where
  step: "pool_enabled a p \<Longrightarrow> pool_perform a p = (r, p') \<Longrightarrow> \<not> process_exited p \<Longrightarrow>
    (\<forall>c \<in> set (tasks p'). c_level c < 2 ^ 64) \<Longrightarrow> pool_step p (a, r) p'"

inductive_cases pool_stepE: "pool_step p (a, r) p'"

inductive pool_reachable :: "pool \<Rightarrow> bool" where
  init: "pool_reachable (with_concurrency n)"
| step: "pool_reachable p \<Longrightarrow> pool_step p (a, Continues) p' \<Longrightarrow> pool_reachable p'"

subsection \<open>One task of the pool\<close>

definition phases_of :: "nat \<Rightarrow> worker \<Rightarrow> phase list" where
  "phases_of t x = (case wpc x of DoPoll _ t' ph \<Rightarrow> if t' = t then [ph] else [] | _ \<Rightarrow> [])"

definition queue_refs :: "nat \<Rightarrow> worker \<Rightarrow> nat" where
  "queue_refs t x = count_list (work_queue x) t + count_list (local_work_queue x) t"

text \<open>What the pool holds of task \<open>t\<close>, as a state of the wake-up protocol.\<close>

definition task_of :: "nat \<Rightarrow> pool \<Rightarrow> task_state" where
  "task_of t p = (let c = tasks p ! t in
     \<lparr>signal_level = c_signal c, completed = c_done c, posted_refs = count_list (posted p) t,
      pushing = 0, queued = sum_list (map (queue_refs t) (threads p)),
      polls = concat (map (phases_of t) (threads p)), level = c_level c, unseen = c_unseen c,
      poll_count = c_polls c\<rparr>)"

definition refs_in_range :: "pool \<Rightarrow> bool" where
  "refs_in_range p \<longleftrightarrow> set (posted p) \<subseteq> {..<length (tasks p)} \<and>
     (\<forall>x \<in> set (threads p). set (work_queue x) \<union> set (local_work_queue x) \<subseteq> {..<length (tasks p)} \<and>
        (\<forall>k t ph. wpc x = DoPoll k t ph \<longrightarrow> t < length (tasks p)))"

lemma sum_refs_update:
  "w < length xs \<Longrightarrow>
   sum_list (map (queue_refs t) (xs[w := x])) + queue_refs t (xs ! w) =
   sum_list (map (queue_refs t) xs) + queue_refs t x"
  by (induction xs arbitrary: w) (auto split: nat.splits)

lemma concat_update_same:
  "f x = f (xs ! w) \<Longrightarrow> concat (map f (xs[w := x])) = concat (map f xs)"
  by (metis list_update_id map_update)

lemma concat_update_one:
  assumes "length (concat (map f xs)) \<le> 1" and "w < length xs" and "f (xs ! w) \<noteq> [] \<or> concat (map f xs) = []"
  shows "concat (map f (xs[w := x])) = f x"
  using assms
proof (induction xs arbitrary: w)
  case (Cons y ys)
  show ?case
  proof (cases w)
    case 0
    have "concat (map f ys) = []"
      using Cons.prems(1,3) 0 by (cases "f y") auto
    then show ?thesis using 0 by simp
  next
    case (Suc v)
    then have "f (ys ! v) \<noteq> [] \<or> concat (map f ys) = []" "v < length ys" using Cons.prems by auto
    moreover have "f y = []"
      using Cons.prems(1,3) Suc \<open>v < length ys\<close>
      by (cases "f y") (auto simp: concat_eq_Nil_conv dest: nth_mem)
    ultimately show ?thesis using Cons.IH [of v] Cons.prems(1) Suc by simp
  qed
qed simp


lemma task_of_set_thread:
  assumes "w < length (threads p)" and "phases_of t x = phases_of t (threads p ! w)"
  shows "task_of t (set_thread w x p) = (task_of t p)
    \<lparr>queued := queued (task_of t p) + queue_refs t x - queue_refs t (threads p ! w)\<rparr>"
  using sum_refs_update [OF assms(1), of t x] concat_update_same [OF assms(2)]
  by (simp add: task_of_def set_thread_def Let_def)

lemma task_of_set_thread_poll:
  assumes "w < length (threads p)" and "length (polls (task_of t p)) \<le> 1"
    and "phases_of t (threads p ! w) \<noteq> [] \<or> polls (task_of t p) = []"
  shows "task_of t (set_thread w x p) = (task_of t p)
    \<lparr>queued := queued (task_of t p) + queue_refs t x - queue_refs t (threads p ! w),
     polls := phases_of t x\<rparr>"
  using sum_refs_update [OF assms(1), of t x] concat_update_one [of "phases_of t" "threads p" w x] assms
  by (simp add: task_of_def set_thread_def Let_def)

lemma task_of_set_task:
  "t' < length (tasks p) \<Longrightarrow> task_of t (set_task t' c p) =
    (if t = t' then (task_of t p)\<lparr>signal_level := c_signal c, completed := c_done c, level := c_level c,
       unseen := c_unseen c, poll_count := c_polls c\<rparr> else task_of t p)"
  by (simp add: task_of_def set_task_def Let_def)

lemma threads_set_task [simp]: "threads (set_task t c p) = threads p"
  by (simp add: set_task_def)

lemma tasks_set_thread [simp]: "tasks (set_thread w x p) = tasks p"
  by (simp add: set_thread_def)

lemma length_tasks_set_task [simp]: "length (tasks (set_task t c p)) = length (tasks p)"
  by (simp add: set_task_def)

lemma posted_set [simp]: "posted (set_thread w x p) = posted p" "posted (set_task t c p) = posted p"
  by (simp_all add: set_thread_def set_task_def)

lemma queue_refs_wpc [simp]:
  "queue_refs t (x\<lparr>wpc := pc\<rparr>) = queue_refs t x" "queue_refs t (x\<lparr>borrowed := b\<rparr>) = queue_refs t x"
  by (simp_all add: queue_refs_def)

lemma phases_of_other [simp]:
  "phases_of t (x\<lparr>work_queue := q\<rparr>) = phases_of t x"
  "phases_of t (x\<lparr>local_work_queue := q\<rparr>) = phases_of t x"
  "phases_of t (x\<lparr>borrowed := b\<rparr>) = phases_of t x"
  by (simp_all add: phases_of_def)

lemma polls_task_of:
  assumes "w < length (threads p)" and "wpc (threads p ! w) = DoPoll k t ph"
    and "length (polls (task_of t p)) \<le> 1"
  shows "polls (task_of t p) = [ph]"
  using concat_update_one [of "phases_of t" "threads p" w "threads p ! w"] assms
  by (simp add: task_of_def Let_def phases_of_def)

lemma do_poll_simulates:
  assumes w: "w < length (threads p)" "wpc (threads p ! w) = DoPoll k t ph"
    and t: "t < length (tasks p)" and one: "length (polls (task_of t p)) \<le> 1"
    and res: "do_poll w k t ph answer p = (Continues, p')"
  shows "do_poll_step 0 answer (task_of t p) = (Continues, task_of t p')"
proof -
  have ph: "polls (task_of t p) = [ph]" using polls_task_of [OF w one] .
  have sig: "signal_level (task_of t p) = c_signal (tasks p ! t)"
    and pollc: "poll_count (task_of t p) = c_polls (tasks p ! t)"
    and rest: "completed (task_of t p) = c_done (tasks p ! t)" "level (task_of t p) = c_level (tasks p ! t)"
      "unseen (task_of t p) = c_unseen (tasks p ! t)"
    by (simp_all add: task_of_def Let_def)
  have here: "phases_of t (threads p ! w) = [ph]" using w by (simp add: phases_of_def)
  have stay: "task_of t (set_thread w ((threads p ! w)\<lparr>wpc := DoPoll k t ph'\<rparr>) q) =
      (task_of t q)\<lparr>polls := [ph']\<rparr>"
    if "threads q = threads p" "polls (task_of t q) = [ph]" for ph' q
    using task_of_set_thread_poll [of w q t "(threads p ! w)\<lparr>wpc := DoPoll k t ph'\<rparr>"] that w here
    by (simp add: phases_of_def)
  have leave: "task_of t (poll_returns w k q) = (task_of t q)\<lparr>polls := []\<rparr>"
    if "threads q = threads p" "polls (task_of t q) = [ph]" for q
    using task_of_set_thread_poll [of w q t "(threads p ! w)\<lparr>wpc := (case k of LocalKind \<Rightarrow> LocalPop
        | GlobalKind \<Rightarrow> StealWeak), borrowed := False\<rparr>"] that w here
    by (auto simp: poll_returns_def phases_of_def split: task_kind.splits)
  show ?thesis
  proof (cases ph)
    case Start
    then show ?thesis
      using res ph by (auto simp: do_poll_def do_poll_step_def goto_def stay sig)
  next
    case (Loaded l)
    then show ?thesis
      using res ph pollc rest sig t
      by (auto simp: do_poll_def do_poll_step_def goto_def stay task_of_set_task Let_def)
  next
    case (Polling l)
    then show ?thesis
      using res ph pollc rest sig t
      by (auto simp: do_poll_def do_poll_step_def goto_def stay leave task_of_set_task Let_def
          return_from_def worker_panics_def split: sum.splits Async.splits)
  next
    case (Polled l)
    then show ?thesis
      using res ph pollc rest sig t
      by (auto simp: do_poll_def do_poll_step_def goto_def stay leave task_of_set_task Let_def
          return_from_def compare_exchange_def split: if_splits)
  qed
qed


lemma queue_refs_le: "w < length (threads p) \<Longrightarrow> queue_refs t (threads p ! w) \<le> queued (task_of t p)"
  using elem_le_sum_list [of w "map (queue_refs t) (threads p)"] by (simp add: task_of_def Let_def)

lemma take_simulates:
  assumes "task_inv (task_of t p)" and w: "w < length (threads p)"
    and "Suc (queue_refs t x) = queue_refs t (threads p ! w)" and "phases_of t x = [Start]"
  shows "enabled Take (task_of t p) \<and> perform k Take (task_of t p) = (Continues, task_of t (set_thread w x p))"
proof -
  have "0 < queued (task_of t p)" using queue_refs_le [OF w, of t] assms(3) by simp
  moreover then have "polls (task_of t p) = []"
    using assms(1) single_ownerD(3) [of "task_of t p" 0] by fastforce
  ultimately show ?thesis
    using task_of_set_thread_poll [OF w, of t x] assms(3,4) queue_refs_le [OF w, of t]
    by simp
qed

lemma do_poll_others:
  assumes "w < length (threads p)" "wpc (threads p ! w) = DoPoll k t ph" "t < length (tasks p)" "t' \<noteq> t"
    and "do_poll w k t ph answer p = (Continues, p')"
  shows "task_of t' p' = task_of t' p"
proof -
  have other: "task_of t' (set_thread w x q) = task_of t' p"
    if "phases_of t' x = []" "queue_refs t' x = queue_refs t' (threads p ! w)" "threads q = threads p"
      "task_of t' q = task_of t' p" for x q
    using task_of_set_thread [of w q t' x] that assms(1,2,4) by (simp add: phases_of_def)
  have [simp]: "phases_of t' ((threads p ! w)\<lparr>wpc := DoPoll k t ph'\<rparr>) = []" for ph'
    using assms(4) by (simp add: phases_of_def)
  have [simp]: "phases_of t' ((threads p ! w)\<lparr>wpc := (case k of LocalKind \<Rightarrow> LocalPop
      | GlobalKind \<Rightarrow> StealWeak)\<rparr>) = []"
    by (cases k) (simp_all add: phases_of_def)
  show ?thesis
    using assms(3-5)
    by (cases ph) (auto simp: do_poll_def Let_def other poll_returns_def task_of_set_task
        worker_panics_def split: sum.splits Async.splits if_splits)
qed

text \<open>The tasks after a step: each is where a clean run of its protocol has brought it.\<close>

definition tasks_ok :: "pool \<Rightarrow> bool" where
  "tasks_ok p \<longleftrightarrow> (\<forall>t < length (tasks p). task_reachable (c_kind (tasks p ! t)) (task_of t p))"

lemma tasks_ok_same:
  assumes "tasks_ok p" and "tasks p' = tasks p" and "\<And>t. t < length (tasks p) \<Longrightarrow> task_of t p' = task_of t p"
  shows "tasks_ok p'"
  using assms by (simp add: tasks_ok_def)

lemma tasks_ok_one:
  assumes "tasks_ok p" and "length (tasks p') = length (tasks p)" and "t < length (tasks p)"
    and "\<And>t'. t' < length (tasks p) \<Longrightarrow> c_kind (tasks p' ! t') = c_kind (tasks p ! t')"
    and "\<And>t'. t' < length (tasks p) \<Longrightarrow> t' \<noteq> t \<Longrightarrow> task_of t' p' = task_of t' p"
    and "task_reachable (c_kind (tasks p ! t)) (task_of t p')"
  shows "tasks_ok p'"
  using assms unfolding tasks_ok_def by metis

lemma tasks_okD: "tasks_ok p \<Longrightarrow> t < length (tasks p) \<Longrightarrow> task_inv (task_of t p)"
  using task_reachable_inv by (auto simp: tasks_ok_def)

lemma set_thread_same:
  assumes "tasks_ok p" and "w < length (threads p)"
    and "\<And>t. t < length (tasks p) \<Longrightarrow> queue_refs t x = queue_refs t (threads p ! w)"
    and "\<And>t. t < length (tasks p) \<Longrightarrow> phases_of t x = phases_of t (threads p ! w)"
  shows "tasks_ok (set_thread w x p)"
  using assms by (auto intro!: tasks_ok_same [OF assms(1)] simp: task_of_set_thread)

lemma set_thread_take:
  assumes ok: "tasks_ok p" and w: "w < length (threads p)" and t: "t < length (tasks p)"
    and lv: "c_level (tasks p ! t) < 2 ^ 64"
    and "Suc (queue_refs t x) = queue_refs t (threads p ! w)" and "phases_of t x = [Start]"
    and others: "\<And>t'. t' \<noteq> t \<Longrightarrow> queue_refs t' x = queue_refs t' (threads p ! w)"
      "\<And>t'. t' \<noteq> t \<Longrightarrow> phases_of t' x = phases_of t' (threads p ! w)"
  shows "tasks_ok (set_thread w x p)"
proof (rule tasks_ok_one [OF ok _ t])
  have "task_step (c_kind (tasks p ! t)) (task_of t p) (Take, Continues) (task_of t (set_thread w x p))"
    using take_simulates [OF tasks_okD [OF ok t] w, of x "c_kind (tasks p ! t)"] assms lv
    by (intro task_step.step) (auto simp: task_of_def Let_def)
  then show "task_reachable (c_kind (tasks p ! t)) (task_of t (set_thread w x p))"
    using ok t by (auto simp: tasks_ok_def intro: task_reachable.step)
qed (use w others in \<open>auto simp: task_of_set_thread\<close>)


lemma do_poll_tasks:
  "do_poll w k t ph answer p = (Continues, p') \<Longrightarrow> t < length (tasks p) \<Longrightarrow>
   length (tasks p') = length (tasks p) \<and>
   (\<forall>t' < length (tasks p). c_kind (tasks p' ! t') = c_kind (tasks p ! t')) \<and> posted p' = posted p"
  by (auto simp: do_poll_def Let_def set_task_def set_thread_def poll_returns_def worker_panics_def
      nth_list_update split: phase.splits sum.splits Async.splits if_splits)

lemma do_poll_keeps:
  assumes ok: "tasks_ok p" and w: "w < length (threads p)" "wpc (threads p ! w) = DoPoll k t ph"
    and t: "t < length (tasks p)" and res: "do_poll w k t ph answer p = (Continues, p')"
    and lv: "\<forall>c \<in> set (tasks p'). c_level c < 2 ^ 64"
  shows "tasks_ok p'"
proof (rule tasks_ok_one [OF ok _ t])
  have "length (polls (task_of t p)) \<le> 1"
    using tasks_okD [OF ok t] by (auto simp: task_inv_def owners_def split: if_splits)
  moreover from this have "polls (task_of t p) = [ph]" using polls_task_of w by blast
  moreover have "level (task_of t p') < 2 ^ 64"
    using lv t do_poll_tasks [OF res t] by (auto simp: task_of_def Let_def)
  ultimately have "task_step (c_kind (tasks p ! t)) (task_of t p) (PollStep 0 answer, Continues) (task_of t p')"
    using do_poll_simulates [OF w t _ res] by (intro task_step.step) auto
  then show "task_reachable (c_kind (tasks p ! t)) (task_of t p')"
    using ok t by (auto simp: tasks_ok_def intro: task_reachable.step)
qed (use do_poll_tasks [OF res t] do_poll_others [OF w t _ res] in auto)

lemma tasks_ok_workers [simp]: "tasks_ok (p\<lparr>workers := ws\<rparr>) = tasks_ok p"
  by (simp add: tasks_ok_def task_of_def)

lemma queue_refs_queues:
  "queue_refs t (x\<lparr>local_work_queue := q\<rparr>) = count_list (work_queue x) t + count_list q t"
  "queue_refs t (x\<lparr>work_queue := q\<rparr>) = count_list q t + count_list (local_work_queue x) t"
  by (simp_all add: queue_refs_def)

lemma phases_of_wpc:
  "phases_of t (x\<lparr>wpc := pc\<rparr>) = (case pc of DoPoll _ t' ph \<Rightarrow> if t' = t then [ph] else [] | _ \<Rightarrow> [])"
  by (simp add: phases_of_def)

lemma run_worker_keeps:
  assumes ok: "tasks_ok p" and refs: "refs_in_range p" and w: "w < length (threads p)"
    and en: "pool_enabled (WorkerStep w st answer) p"
    and res: "run_worker w st answer p = (Continues, p')"
    and lv: "\<forall>c \<in> set (tasks p'). c_level c < 2 ^ 64"
  shows "tasks_ok p'"
proof -
  let ?x = "threads p ! w"
  have mem: "?x \<in> set (threads p)" using w by simp
  note phases = phases_of_def phases_of_wpc
  show ?thesis
  proof (cases "wpc ?x")
    case (DoPoll k t ph)
    then have "t < length (tasks p)" using refs mem by (auto simp: refs_in_range_def)
    then show ?thesis using do_poll_keeps [OF ok w DoPoll] res lv DoPoll by (simp add: run_worker_def)
  next
    case LocalPop
    show ?thesis
    proof (cases "local_work_queue ?x")
      case Nil
      then show ?thesis
        using res LocalPop ok w by (auto simp: run_worker_def phases intro!: set_thread_same)
    next
      case (Cons t ts)
      then have t: "t < length (tasks p)" using refs mem by (auto simp: refs_in_range_def)
      have p': "p' = set_thread w (?x\<lparr>wpc := DoPoll LocalKind t Start, local_work_queue := ts,
          borrowed := True\<rparr>) p"
        using res LocalPop Cons by (simp add: run_worker_def)
      then show ?thesis
        using lv t LocalPop Cons unfolding p'
        by (intro set_thread_take [OF ok w t]) (auto simp: queue_refs_def phases)
    qed
  next
    case StealWeak
    show ?thesis
    proof (cases st)
      case StealData
      then have q: "work_queue ?x \<noteq> []" using en StealWeak by (simp add: can_steal_def)
      then have t: "hd (work_queue ?x) < length (tasks p)"
        using refs mem by (force simp: refs_in_range_def)
      have p': "p' = set_thread w (?x\<lparr>wpc := DoPoll GlobalKind (hd (work_queue ?x)) Start,
          work_queue := tl (work_queue ?x)\<rparr>) p"
        using res StealWeak StealData by (simp add: run_worker_def Let_def)
      then show ?thesis
        using lv t StealWeak q unfolding p'
        by (intro set_thread_take [OF ok w t]; cases "work_queue ?x") (auto simp: queue_refs_def phases)
    qed (use res StealWeak ok w in \<open>auto simp: run_worker_def phases intro!: set_thread_same\<close>)
  next
    case Removing
    then have "p' = (set_thread w (?x\<lparr>wpc := Gone\<rparr>) p)\<lparr>workers := workers p'\<rparr>"
      using res by (auto simp: run_worker_def worker_panics_def split: if_splits)
    moreover have "tasks_ok (set_thread w (?x\<lparr>wpc := Gone\<rparr>) p)"
      using ok w Removing by (intro set_thread_same) (auto simp: phases)
    ultimately show ?thesis by (metis tasks_ok_workers)
  qed (use res ok w in \<open>auto simp: run_worker_def phases intro!: set_thread_same\<close>)
qed


lemma count_fresh:
  assumes "refs_in_range p"
  shows "task_of (length (tasks p)) (p\<lparr>tasks := tasks p @ [c]\<rparr>) =
    \<lparr>signal_level = c_signal c, completed = c_done c, posted_refs = 0, pushing = 0, queued = 0,
     polls = [], level = c_level c, unseen = c_unseen c, poll_count = c_polls c\<rparr>"
proof -
  let ?t = "length (tasks p)"
  have "count_list (posted p) ?t = 0"
    using assms by (auto simp: refs_in_range_def count_list_0_iff)
  moreover have "queue_refs ?t x = 0 \<and> phases_of ?t x = []" if "x \<in> set (threads p)" for x
    using assms that
    by (fastforce simp: refs_in_range_def queue_refs_def phases_of_def count_list_0_iff
        split: worker_pc.splits)
  ultimately show ?thesis
    by (auto simp: task_of_def Let_def concat_eq_Nil_conv sum_list_eq_0_iff nth_append)
qed

lemma task_of_append: "t < length (tasks p) \<Longrightarrow> task_of t (p\<lparr>tasks := tasks p @ [c]\<rparr>) = task_of t p"
  by (simp add: task_of_def Let_def nth_append)

lemma task_of_posted: "task_of t (p\<lparr>posted := q\<rparr>) = (task_of t p)\<lparr>posted_refs := count_list q t\<rparr>"
  by (simp add: task_of_def Let_def)

lemma tasks_ok_snoc:
  assumes "tasks_ok p" and "tasks p' = tasks p @ [new_cell k]"
    and "\<And>t. t < length (tasks p) \<Longrightarrow> task_of t p' = task_of t p"
    and "task_of (length (tasks p)) p' = new_task k"
  shows "tasks_ok p'"
  unfolding tasks_ok_def
proof (intro allI impI)
  fix t
  assume "t < length (tasks p')"
  then consider "t < length (tasks p)" | "t = length (tasks p)" using assms(2) by fastforce
  then show "task_reachable (c_kind (tasks p' ! t)) (task_of t p')"
  proof cases
    case 1
    then show ?thesis using assms by (simp add: tasks_ok_def nth_append)
  next
    case 2
    then show ?thesis using assms(2,4) by (simp add: new_cell_def task_reachable.init)
  qed
qed

lemma spawn_future_keeps:
  assumes "tasks_ok p" and "refs_in_range p" and "spawn_future posts by p = (Continues, p')"
  shows "tasks_ok p'"
proof -
  let ?p1 = "p\<lparr>tasks := tasks p @ [new_cell GlobalKind]\<rparr>"
  have p': "p' = ?p1\<lparr>posted := posted ?p1 @ [length (tasks p)]\<rparr>"
    using assms(3) by (auto simp: spawn_future_def Let_def worker_panics_def split: if_splits option.splits)
  have none: "count_list (posted p) (length (tasks p)) = 0"
    using assms(2) by (auto simp: refs_in_range_def count_list_0_iff)
  show ?thesis
  proof (rule tasks_ok_snoc [OF assms(1)])
    show "task_of t p' = task_of t p" if "t < length (tasks p)" for t
      using that unfolding p' task_of_posted by (simp add: task_of_append) (simp add: task_of_def Let_def)
    show "task_of (length (tasks p)) p' = new_task GlobalKind"
      unfolding p' task_of_posted count_fresh [OF assms(2)] using none
      by (simp add: new_task_def new_cell_def)
  qed (simp add: p')
qed

lemma spawn_local_future_keeps:
  assumes "tasks_ok p" and "refs_in_range p" and w: "w < length (threads p)"
    and "spawn_local_future w p = (Continues, p')"
  shows "tasks_ok p'"
proof -
  let ?x = "threads p ! w" and ?t = "length (tasks p)"
  let ?p1 = "p\<lparr>tasks := tasks p @ [new_cell LocalKind]\<rparr>"
  let ?x1 = "?x\<lparr>local_work_queue := ?t # local_work_queue ?x\<rparr>"
  have p': "p' = set_thread w ?x1 ?p1"
    using assms(4) by (auto simp: spawn_local_future_def Let_def worker_panics_def split: if_splits)
  show ?thesis
  proof (rule tasks_ok_snoc [OF assms(1)])
    show "task_of t p' = task_of t p" if "t < ?t" for t
      using task_of_set_thread [of w ?p1 t ?x1] that w unfolding p'
      by (simp add: task_of_append queue_refs_def)
    show "task_of ?t p' = new_task LocalKind"
      using task_of_set_thread [of w ?p1 ?t ?x1] w unfolding p' count_fresh [OF assms(2)]
      by (simp add: new_task_def new_cell_def queue_refs_def)
  qed (simp add: p')
qed

lemma reach_step:
  assumes "tasks_ok p" and "t < length (tasks p)" and "enabled a (task_of t p)"
    and "perform (c_kind (tasks p ! t)) a (task_of t p) = (Continues, s')" and "level s' < 2 ^ 64"
  shows "task_reachable (c_kind (tasks p ! t)) s'"
proof (rule task_reachable.step)
  show "task_reachable (c_kind (tasks p ! t)) (task_of t p)"
    using assms(1,2) by (simp add: tasks_ok_def)
  show "task_step (c_kind (tasks p ! t)) (task_of t p) (a, Continues) s'"
    by (rule task_step.step) (use assms(3-5) in auto)
qed

lemma handle_remote_spawn_keeps:
  assumes ok: "tasks_ok p" and refs: "refs_in_range p"
    and en: "pool_enabled (DeliverRemote by) p" and res: "handle_remote_spawn by p = (Continues, p')"
  shows "tasks_ok p'"
proof -
  obtain t ts where posted: "posted p = t # ts" using en by (cases "posted p") auto
  obtain w where w: "by = Some w" "w < length (threads p)" "in_turn (wpc (threads p ! w))"
    using en res by (cases "by") (auto simp: handle_remote_spawn_def)
  let ?x = "threads p ! w" and ?p1 = "p\<lparr>posted := ts\<rparr>"
  define x where "x = ?x\<lparr>work_queue := work_queue ?x @ [t],
    wpc := (case wpc ?x of Turning d _ \<Rightarrow> Turning d True | pc \<Rightarrow> pc)\<rparr>"
  have p': "p' = set_thread w x ?p1"
    using res posted w(1) by (simp add: handle_remote_spawn_def x_def Let_def)
  have t: "t < length (tasks p)" using refs posted by (auto simp: refs_in_range_def)
  have ph: "phases_of t' x = phases_of t' ?x" for t'
    using w(3) by (auto simp: x_def phases_of_def split: worker_pc.splits)
  have q: "queue_refs t' x = queue_refs t' ?x + (if t' = t then 1 else 0)" for t'
    by (simp add: x_def queue_refs_def)
  have after: "task_of t' p' = (task_of t' p)\<lparr>posted_refs := count_list ts t',
      queued := queued (task_of t' p) + (if t' = t then 1 else 0)\<rparr>" for t'
    using task_of_set_thread [of w ?p1 t' x] w ph q unfolding p' by (simp add: task_of_posted)
  show ?thesis
  proof (rule tasks_ok_one [OF ok _ t])
    show "task_of t' p' = task_of t' p" if "t' \<noteq> t" for t'
      using that after posted by (simp add: task_of_def Let_def)
    have "enabled Deliver (task_of t p)"
        "perform (c_kind (tasks p ! t)) Deliver (task_of t p) = (Continues, task_of t p')"
      using after [of t] posted by (simp_all add: task_of_def Let_def)
    moreover have "level (task_of t p') < 2 ^ 64"
      using after [of t] tasks_okD [OF ok t] by (simp add: task_inv_def)
    ultimately show "task_reachable (c_kind (tasks p ! t)) (task_of t p')"
      by (rule reach_step [OF ok t])
  qed (simp_all add: p')
qed


lemma notify_keeps:
  assumes ok: "tasks_ok p" and t: "t < length (tasks p)"
    and wk: "\<And>w. by = Some w \<Longrightarrow> w < length (threads p)"
    and res: "notify by t p = (Continues, p')" and lv: "\<forall>c \<in> set (tasks p'). c_level c < 2 ^ 64"
  shows "tasks_ok p'"
proof -
  let ?c = "tasks p ! t"
  define c where "c = ?c\<lparr>c_signal := c_signal ?c + 1, c_level := c_level ?c + 1, c_unseen := True\<rparr>"
  let ?p1 = "set_task t c p"
  have after: "task_of t ?p1 = (task_of t p)\<lparr>signal_level := signal_level (task_of t p) + 1,
      level := Suc (level (task_of t p)), unseen := True\<rparr>"
    using t by (simp add: task_of_set_task c_def) (simp add: task_of_def Let_def)
  have sig: "signal_level (task_of t p) = c_signal ?c" by (simp add: task_of_def Let_def)
  have kinds: "c_kind (tasks ?p1 ! t') = c_kind (tasks p ! t')" for t'
    using t by (cases "t' = t") (simp_all add: set_task_def c_def)
  have others: "task_of t' ?p1 = task_of t' p" if "t' \<noteq> t" for t'
    using t that by (simp add: task_of_set_task)
  show ?thesis
  proof (cases "c_signal ?c = 0")
    case False
    then have p': "p' = ?p1" using res by (simp add: notify_def c_def Let_def)
    have "level (task_of t ?p1) < 2 ^ 64"
      using lv set_update_memI [OF t, of c] t unfolding p' by (simp add: task_of_def Let_def set_task_def)
    moreover have "perform (c_kind ?c) (NotifyTask False) (task_of t p) = (Continues, task_of t ?p1)"
      using False sig after
      by (auto simp: GlobalTask_notify_def LocalTask_notify_def fetch_add_def split: task_kind.splits)
    ultimately have "task_reachable (c_kind ?c) (task_of t ?p1)"
      by (intro reach_step [OF ok t, of "NotifyTask False"]) simp_all
    then show ?thesis
      unfolding p' using kinds others
      by (intro tasks_ok_one [OF ok _ t]) (auto simp: set_task_def)
  next
    case True
    then obtain w where w: "by = Some w" "c_kind ?c = GlobalKind"
      using res by (auto simp: notify_def Let_def worker_panics_def split: task_kind.splits option.splits)
    let ?x = "(threads p ! w)\<lparr>work_queue := work_queue (threads p ! w) @ [t]\<rparr>"
    have p': "p' = set_thread w ?x ?p1"
      using res True w by (simp add: notify_def c_def Let_def)
    have fin: "task_of t' p' = (task_of t' ?p1)\<lparr>queued := queued (task_of t' ?p1) + (if t' = t then 1 else 0)\<rparr>"
      for t'
      using task_of_set_thread [of w ?p1 t' ?x] wk [OF w(1)] unfolding p' by (simp add: queue_refs_def)
    have lv': "level (task_of t p') < 2 ^ 64"
      using lv set_update_memI [OF t, of c] t unfolding p'
      by (simp add: task_of_def Let_def set_task_def set_thread_def)
    define s1 where "s1 = (task_of t ?p1)\<lparr>pushing := 1\<rparr>"
    have none: "pushing s = 0" if "s = task_of t q" for s q using that by (simp add: task_of_def Let_def)
    have one: "task_reachable GlobalKind s1"
      using reach_step [OF ok t, of "NotifyTask True" s1] w True sig lv' fin [of t] after
        none [of "task_of t p" p]
      by (simp add: s1_def GlobalTask_notify_def fetch_add_def)
    have "task_of t p' = snd (perform GlobalKind Push s1)" "enabled Push s1" "level s1 < 2 ^ 64"
      using fin [of t] lv' none [of "task_of t ?p1" ?p1] by (simp_all add: s1_def)
    then have "task_reachable GlobalKind (task_of t p')"
      by (auto intro!: task_reachable.step [OF one] task_step.step [of Push])
    then show ?thesis
      using kinds others fin w
      by (intro tasks_ok_one [OF ok _ t]) (auto simp: p' set_task_def)
  qed
qed


subsection \<open>Queues, registry and borrows\<close>

text \<open>
  Queues hold existing tasks; the registry holds exactly the workers that are not gone, once each; the
  local queue of a worker is borrowed exactly while it polls a task it took from it.
\<close>

definition worker_ok :: "nat \<Rightarrow> worker \<Rightarrow> bool" where
  "worker_ok n x \<longleftrightarrow> set (work_queue x) \<union> set (local_work_queue x) \<subseteq> {..<n} \<and>
     (\<forall>k t ph. wpc x = DoPoll k t ph \<longrightarrow> t < n) \<and>
     (borrowed x \<longleftrightarrow> (\<exists>t ph. wpc x = DoPoll LocalKind t ph))"

definition pool_wf :: "pool \<Rightarrow> bool" where
  "pool_wf p \<longleftrightarrow> set (posted p) \<subseteq> {..<length (tasks p)} \<and>
     (\<forall>x \<in> set (threads p). worker_ok (length (tasks p)) x) \<and>
     distinct (workers p) \<and>
     set (workers p) = {w. w < length (threads p) \<and> wpc (threads p ! w) \<noteq> Gone}"

lemma pool_wf_refs: "pool_wf p \<Longrightarrow> refs_in_range p"
  by (auto simp: pool_wf_def refs_in_range_def worker_ok_def)

lemma pool_wf_worker: "pool_wf p \<Longrightarrow> w < length (threads p) \<Longrightarrow> worker_ok (length (tasks p)) (threads p ! w)"
  by (simp add: pool_wf_def)

lemma worker_ok_mono: "worker_ok n x \<Longrightarrow> n \<le> m \<Longrightarrow> worker_ok m x"
  unfolding worker_ok_def using order.strict_trans2 by fastforce

lemma wf_set_task: "pool_wf p \<Longrightarrow> pool_wf (set_task t c p)"
  by (simp add: pool_wf_def set_task_def)

lemma wf_new_task: "pool_wf p \<Longrightarrow> pool_wf (p\<lparr>tasks := tasks p @ [c]\<rparr>)"
  by (fastforce simp: pool_wf_def intro: worker_ok_mono)

lemma wf_set_thread:
  assumes "pool_wf p" and "w < length (threads p)" and "worker_ok (length (tasks p)) x"
    and "wpc x = Gone \<longleftrightarrow> wpc (threads p ! w) = Gone"
  shows "pool_wf (set_thread w x p)"
  using assms
  by (auto simp: pool_wf_def set_thread_def nth_list_update dest!: set_update_subset_insert [THEN subsetD])

lemma swap_remove_position:
  assumes "distinct xs" and "w \<in> set xs"
  defines "ys \<equiv> swap_remove xs (length (takeWhile (\<lambda>v. v \<noteq> w) xs))"
  shows "distinct ys \<and> set ys = set xs - {w}"
proof -
  have i: "length (takeWhile (\<lambda>v. v \<noteq> w) xs) < length xs"
    using assms(2) by (induction xs) auto
  then have "mset ys = mset (remove1 w xs)"
    using mset_swap_remove [OF i] nth_length_takeWhile [OF i] by (simp add: ys_def)
  then show ?thesis
    using assms(1) by (metis distinct_remove1 mset_eq_imp_distinct_iff mset_eq_setD set_remove1_eq)
qed

lemma do_poll_wf:
  assumes wf: "pool_wf p" and w: "w < length (threads p)" "wpc (threads p ! w) = DoPoll k t ph"
    and res: "do_poll w k t ph answer p = (Continues, p')"
  shows "pool_wf p'"
proof -
  have x: "worker_ok (length (tasks p)) (threads p ! w)" using pool_wf_worker [OF wf w(1)] .
  have stay: "pool_wf (set_thread w ((threads p ! w)\<lparr>wpc := DoPoll k t ph'\<rparr>) q)"
    if "pool_wf q" "threads q = threads p" "length (tasks q) = length (tasks p)" for ph' q
    using that w x by (intro wf_set_thread) (auto simp: worker_ok_def)
  have leave: "pool_wf (poll_returns w k q)"
    if "pool_wf q" "threads q = threads p" "length (tasks q) = length (tasks p)" for q
    unfolding poll_returns_def using that w x
    by (intro wf_set_thread) (auto simp: worker_ok_def split: task_kind.splits)
  show ?thesis
    using res
    by (cases ph) (auto simp: do_poll_def Let_def worker_panics_def split: sum.splits Async.splits if_splits
        intro!: stay leave wf_set_task wf)
qed

lemma run_worker_wf:
  assumes wf: "pool_wf p" and w: "w < length (threads p)"
    and en: "pool_enabled (WorkerStep w st answer) p"
    and res: "run_worker w st answer p = (Continues, p')"
  shows "pool_wf p'"
proof -
  let ?x = "threads p ! w"
  have x: "worker_ok (length (tasks p)) ?x" using pool_wf_worker [OF wf w] .
  show ?thesis
  proof (cases "wpc ?x")
    case Removing
    then have mem: "w \<in> set (workers p)" using wf w by (simp add: pool_wf_def)
    then have p': "p' = (set_thread w (?x\<lparr>wpc := Gone\<rparr>) p)
        \<lparr>workers := swap_remove (workers p) (length (takeWhile (\<lambda>v. v \<noteq> w) (workers p)))\<rparr>"
      using res Removing by (simp add: run_worker_def Let_def)
    have gone: "worker_ok (length (tasks p)) (?x\<lparr>wpc := Gone\<rparr>)"
      using x Removing by (simp add: worker_ok_def)
    show ?thesis
      using wf w gone swap_remove_position [OF _ mem] unfolding p'
      by (auto simp: pool_wf_def set_thread_def nth_list_update dest!: set_update_subset_insert [THEN subsetD])
  next
    case (DoPoll k t ph)
    then show ?thesis using do_poll_wf [OF wf w] res by (simp add: run_worker_def)
  next
    case LocalPop
    then show ?thesis
      using res wf w x
      by (auto simp: run_worker_def Let_def worker_ok_def split: list.splits intro!: wf_set_thread)
  next
    case StealWeak
    then have "st = StealData \<Longrightarrow> work_queue ?x \<noteq> []" using en by (simp add: can_steal_def)
    then show ?thesis
      using res wf w x StealWeak
      by (cases "work_queue ?x")
        (auto simp: run_worker_def Let_def worker_ok_def split: steal.splits intro!: wf_set_thread)
  qed (use res wf w x in \<open>auto simp: run_worker_def Let_def worker_ok_def split: if_splits
      intro!: wf_set_thread\<close>)
qed


lemma pool_perform_wf:
  assumes wf: "pool_wf p" and en: "pool_enabled a p" and res: "pool_perform a p = (Continues, p')"
  shows "pool_wf p'"
proof (cases a)
  case (WorkerStep w st answer)
  then show ?thesis using assms run_worker_wf [of p w st answer p'] by simp
next
  case (SpawnFuture posts ow)
  then have "p' = (p\<lparr>tasks := tasks p @ [new_cell GlobalKind]\<rparr>)\<lparr>posted := posted p @ [length (tasks p)]\<rparr>"
    using res by (auto simp: spawn_future_def Let_def worker_panics_def split: if_splits option.splits)
  then show ?thesis using wf_new_task [OF wf, of "new_cell GlobalKind"] by (simp add: pool_wf_def)
next
  case (SpawnLocal w)
  let ?p1 = "p\<lparr>tasks := tasks p @ [new_cell LocalKind]\<rparr>"
  have w: "w < length (threads p)" using en SpawnLocal by (simp add: can_call_def)
  have "p' = set_thread w ((threads p ! w)\<lparr>local_work_queue := length (tasks p) # local_work_queue (threads p ! w)\<rparr>) ?p1"
    using res SpawnLocal by (auto simp: spawn_local_future_def Let_def worker_panics_def split: if_splits)
  moreover have "worker_ok (Suc (length (tasks p))) (threads p ! w)"
    using worker_ok_mono [OF pool_wf_worker [OF wf w]] by simp
  ultimately show ?thesis
    using wf_new_task [OF wf] w by (auto intro!: wf_set_thread simp: worker_ok_def)
next
  case (DeliverRemote ow)
  then obtain t ts w where posted: "posted p = t # ts" and w: "ow = Some w" "w < length (threads p)"
      "in_turn (wpc (threads p ! w))"
    using en res by (cases "posted p"; cases "ow") (auto simp: handle_remote_spawn_def)
  let ?x = "(threads p ! w)\<lparr>work_queue := work_queue (threads p ! w) @ [t],
    wpc := (case wpc (threads p ! w) of Turning d _ \<Rightarrow> Turning d True | pc \<Rightarrow> pc)\<rparr>"
  have "pool_wf (p\<lparr>posted := ts\<rparr>)" "t < length (tasks p)"
    using wf posted by (auto simp: pool_wf_def)
  moreover have "p' = set_thread w ?x (p\<lparr>posted := ts\<rparr>)"
    using res DeliverRemote posted w(1) by (simp add: handle_remote_spawn_def Let_def)
  ultimately show ?thesis
    using w pool_wf_worker [OF wf w(2)]
    by (auto intro!: wf_set_thread simp: worker_ok_def split: worker_pc.splits)
next
  case (PoolNotify ow t)
  then have t: "t < length (tasks p)" and wk: "\<And>w. ow = Some w \<Longrightarrow> w < length (threads p)"
    using en by (auto simp: can_call_def)
  have "pool_wf (set_thread w ((threads q ! w)\<lparr>work_queue := work_queue (threads q ! w) @ [t]\<rparr>) q)"
    if "pool_wf q" "w < length (threads q)" "length (tasks q) = length (tasks p)" for q w
    using that t pool_wf_worker [OF that(1,2)] by (intro wf_set_thread) (auto simp: worker_ok_def)
  from this [OF wf_set_task [OF wf]] show ?thesis
    using res PoolNotify wk
    by (auto simp: notify_def Let_def worker_panics_def wf wf_set_task
        split: if_splits task_kind.splits option.splits)
next
  case (KernelEvent w)
  then show ?thesis
    using en res wf pool_wf_worker [OF wf, of w]
    by (auto intro!: wf_set_thread simp: worker_ok_def split: worker_pc.splits)
qed (use res wf in \<open>auto simp: worker_panics_def begin_shutdown_def pool_wf_def\<close>)

lemma pool_perform_tasks_ok:
  assumes ok: "tasks_ok p" and wf: "pool_wf p" and en: "pool_enabled a p"
    and res: "pool_perform a p = (Continues, p')" and lv: "\<forall>c \<in> set (tasks p'). c_level c < 2 ^ 64"
  shows "tasks_ok p'"
proof (cases a)
  case (WorkerStep w st answer)
  then have "w < length (threads p)" using en by simp
  from run_worker_keeps [OF ok pool_wf_refs [OF wf] this en [unfolded WorkerStep] _ lv]
  show ?thesis using res WorkerStep by simp
next
  case (SpawnFuture posts ow)
  then show ?thesis
    using res spawn_future_keeps [OF ok pool_wf_refs [OF wf], of posts ow p'] by simp
next
  case (SpawnLocal w)
  then show ?thesis
    using en res by (auto simp: can_call_def intro: spawn_local_future_keeps [OF ok pool_wf_refs [OF wf]])
next
  case (DeliverRemote ow)
  then show ?thesis
    using en res handle_remote_spawn_keeps [OF ok pool_wf_refs [OF wf], of ow p'] by simp
next
  case (PoolNotify ow t)
  then show ?thesis
    using en res lv notify_keeps [OF ok, of t ow p'] by (cases ow) (simp_all add: can_call_def)
next
  case (KernelEvent w)
  then show ?thesis
    using assms by (auto intro!: set_thread_same simp: phases_of_def split: worker_pc.splits)
qed (use res ok in \<open>auto simp: worker_panics_def begin_shutdown_def tasks_ok_def task_of_def\<close>)

lemma pool_reachable_inv: "pool_reachable p \<Longrightarrow> pool_wf p \<and> tasks_ok p \<and> \<not> process_exited p"
proof (induction rule: pool_reachable.induct)
  case (init n)
  show ?case
    by (auto simp: pool_wf_def with_concurrency_def new_worker_def worker_ok_def tasks_ok_def)
next
  case (step p a p')
  then have en: "pool_enabled a p" and res: "pool_perform a p = (Continues, p')"
    and lv: "\<forall>c \<in> set (tasks p'). c_level c < 2 ^ 64"
    by (auto elim: pool_stepE)
  have "process_exited p' = process_exited p"
    using res by (cases a) (auto simp: run_worker_def do_poll_def poll_returns_def spawn_future_def
        spawn_local_future_def handle_remote_spawn_def notify_def worker_panics_def begin_shutdown_def
        set_thread_def set_task_def Let_def
        split: worker_pc.splits phase.splits sum.splits Async.splits if_splits list.splits steal.splits
          option.splits task_kind.splits)
  then show ?case
    using step.IH pool_perform_wf [OF _ en res] pool_perform_tasks_ok [OF _ _ en res lv] by simp
qed

end
