(* ===== verification/PoolSafety.thy ===== *)
theory PoolSafety
  imports ThreadPool
begin

text \<open>
  Properties of the thread pool of \<open>src/src/evloop/threadpool/mod.rs\<close> in every state its workers, futures
  and handlers reach.  The properties of a single task come from the wake-up protocol: what the pool
  holds of a task is a reachable state of it.
\<close>

subsection \<open>Executing a schedule\<close>

fun pool_schedule :: "pool_action list \<Rightarrow> pool \<Rightarrow> pool option" where
  "pool_schedule [] p = Some p"
| "pool_schedule (a # as) p =
     (if pool_enabled a p \<and> \<not> process_exited p then
        case pool_perform a p of
          (Continues, p') \<Rightarrow> if list_all (\<lambda>c. c_level c < 2 ^ 64) (tasks p') then pool_schedule as p' else None
        | _ \<Rightarrow> None
      else None)"

lemma pool_schedule_reachable:
  "pool_schedule as p = Some p' \<Longrightarrow> pool_reachable p \<Longrightarrow> pool_reachable p'"
proof (induction as arbitrary: p)
  case (Cons a as)
  then obtain p1 where "pool_perform a p = (Continues, p1)" "pool_enabled a p" "\<not> process_exited p"
    "\<forall>c \<in> set (tasks p1). c_level c < 2 ^ 64" "pool_schedule as p1 = Some p'"
    by (auto split: if_splits prod.splits outcome.splits simp: list_all_iff)
  with Cons show ?case by (blast intro: pool_reachable.step pool_step.step)
qed simp

definition scheduled_pool :: "nat \<Rightarrow> pool_action list \<Rightarrow> pool" where
  "scheduled_pool n as = the (pool_schedule as (with_concurrency n))"

lemma scheduled_pool_reachable:
  "pool_schedule as (with_concurrency n) \<noteq> None \<Longrightarrow> pool_reachable (scheduled_pool n as)"
  by (auto simp: scheduled_pool_def intro: pool_schedule_reachable pool_reachable.init)

text \<open>
  A pool of two workers; a future spawned from outside is delivered to worker 0 and polled there; the
  same for a local future it spawns.
\<close>

abbreviation go :: "nat \<Rightarrow> pool_action" where
  "go w \<equiv> WorkerStep w StealInconsistent (Inr NotReady)"

definition delivered :: "pool_action list" where
  "delivered = [SpawnFuture True None, go 0, go 0, go 0, DeliverRemote (Some 0), go 0, go 0, go 0,
     WorkerStep 0 StealData (Inr NotReady), go 0, go 0]"

definition local_polled :: "pool_action list" where
  "local_polled = delivered @ [SpawnLocal 0, go 0, go 0, go 0, go 0, go 0, go 0, go 0, go 0]"

definition all_blocked :: "pool_action list" where
  "all_blocked = [go 0, go 0, WorkerStep 0 StealEmpty (Inr NotReady),
     go 1, go 1, WorkerStep 1 StealEmpty (Inr NotReady)]"

lemma replicate_2: "replicate 2 x = [x, x]"
  by (simp add: numeral_2_eq_2)

lemmas pool_defs = replicate_2 scheduled_pool_def delivered_def local_polled_def all_blocked_def
  with_concurrency_def new_worker_def new_cell_def can_call_def can_steal_def run_worker_def do_poll_def
  poll_returns_def spawn_future_def spawn_local_future_def handle_remote_spawn_def notify_def
  begin_shutdown_def set_thread_def set_task_def worker_panics_def Let_def upt_rec

lemma delivered_reachable: "pool_reachable (scheduled_pool 2 delivered)"
  by (rule scheduled_pool_reachable) (simp add: pool_defs)

lemma delivered_state:
  "threads (scheduled_pool 2 delivered) ! 0 = \<lparr>wpc = DoPoll GlobalKind 0 (Polling 1), work_queue = [],
     local_work_queue = [], borrowed = False\<rparr> \<and> length (threads (scheduled_pool 2 delivered)) = 2 \<and>
   length (tasks (scheduled_pool 2 delivered)) = 1"
  by (simp add: pool_defs)

lemma local_polled_reachable: "pool_reachable (scheduled_pool 2 local_polled)"
  by (rule scheduled_pool_reachable) (simp add: pool_defs)

lemma all_blocked_reachable: "pool_reachable (scheduled_pool 2 all_blocked)"
  by (rule scheduled_pool_reachable) (simp add: pool_defs)


lemma pool_task_inv:
  "pool_reachable p \<Longrightarrow> t < length (tasks p) \<Longrightarrow> task_inv (task_of t p)"
  using pool_reachable_inv tasks_okD by blast

lemma polling_owner:
  assumes "pool_reachable p" and "w < length (threads p)" and "wpc (threads p ! w) = DoPoll k t ph"
  shows "t < length (tasks p) \<and> polls (task_of t p) = [ph] \<and> owners (task_of t p) = 1"
proof -
  have t: "t < length (tasks p)"
    using pool_wf_worker [OF _ assms(2)] pool_reachable_inv [OF assms(1)] assms(3)
    by (auto simp: worker_ok_def)
  note inv = pool_task_inv [OF assms(1) t]
  have "owners (task_of t p) \<le> 1" using inv by (auto simp: task_inv_def split: if_splits)
  then have "polls (task_of t p) = [ph]"
    using polls_task_of [OF assms(2,3)] by (simp add: owners_def)
  with \<open>owners (task_of t p) \<le> 1\<close> t show ?thesis by (simp add: owners_def)
qed

lemma polled_once:
  assumes "pool_reachable p" and "w < length (threads p)" "wpc (threads p ! w) = DoPoll k t ph"
    and "v < length (threads p)" "v \<noteq> w"
  shows "phases_of t (threads p ! v) = []"
proof -
  have "polls (task_of t p) = [ph]" using polling_owner [OF assms(1-3)] by blast
  then have "concat (map (phases_of t) ((threads p)[w := new_worker])) = []"
    using concat_update_one [of "phases_of t" "threads p" w new_worker] assms(2,3)
    by (simp add: task_of_def Let_def phases_of_def new_worker_def)
  then have "\<forall>x \<in> set ((threads p)[w := new_worker]). phases_of t x = []" by simp
  then show ?thesis
    using assms(4,5) by (metis length_list_update nth_list_update_neq nth_mem)
qed

subsection \<open>The properties\<close>

text \<open>
  C3. Whatever its workers, futures, handlers and other threads do, what the pool holds of each task
  (its signal level, the references to it in the event queue, the work queues and the local queues, and
  the \<open>do_poll\<close> calls under way) is a reachable state of the wake-up protocol of that task: the pool
  implements the protocol for all tasks at once.
\<close>

theorem pool_implements_protocol:
  assumes "pool_reachable p" and "t < length (tasks p)"
  shows "task_reachable (c_kind (tasks p ! t)) (task_of t p)"
  using pool_reachable_inv [OF assms(1)] assms(2) by (simp add: tasks_ok_def)

theorem pool_implements_protocol_witness:
  "task_reachable (c_kind (tasks (scheduled_pool 2 delivered) ! 0)) (task_of 0 (scheduled_pool 2 delivered))"
  using pool_implements_protocol [OF delivered_reachable, of 0] delivered_state by simp

text \<open>
  C21. While a worker polls a future, no other worker polls it and no queue of the pool holds it.
\<close>

theorem future_polled_by_one_worker:
  assumes "pool_reachable p" and "w < length (threads p)" and "wpc (threads p ! w) = DoPoll k t ph"
    and "v < length (threads p)"
  shows "(v \<noteq> w \<longrightarrow> (\<forall>k' ph'. wpc (threads p ! v) \<noteq> DoPoll k' t ph')) \<and> t \<notin> set (posted p) \<and>
    t \<notin> set (work_queue (threads p ! v)) \<and> t \<notin> set (local_work_queue (threads p ! v))"
proof -
  have one: "posted_refs (task_of t p) = 0" "queued (task_of t p) = 0"
    using polling_owner [OF assms(1-3)] by (auto simp: owners_def)
  then have "queue_refs t (threads p ! v) = 0" using queue_refs_le [OF assms(4), of t] by simp
  then have "t \<notin> set (work_queue (threads p ! v))" "t \<notin> set (local_work_queue (threads p ! v))"
    by (simp_all add: queue_refs_def count_list_0_iff)
  moreover have "t \<notin> set (posted p)"
    using one by (simp add: task_of_def Let_def count_list_0_iff)
  moreover have "v \<noteq> w \<Longrightarrow> wpc (threads p ! v) \<noteq> DoPoll k' t ph'" for k' ph'
    using polled_once [OF assms(1-4)] by (auto simp: phases_of_def)
  ultimately show ?thesis by blast
qed

theorem future_polled_by_one_worker_witness:
  "\<forall>k ph. wpc (threads (scheduled_pool 2 delivered) ! 1) \<noteq> DoPoll k 0 ph"
  using future_polled_by_one_worker [OF delivered_reachable, of 0 GlobalKind 0 "Polling 1" 1] delivered_state
  by simp

text \<open>
  C22. A task notified since its last poll began, and not complete, is in exactly one place: posted to
  the event queue, in one work queue, in one local queue or in one \<open>do_poll\<close>; and a worker about to
  suspend it finds that its signal level has changed.
\<close>

theorem notified_task_has_one_place:
  assumes "pool_reachable p" and "t < length (tasks p)"
    and "c_unseen (tasks p ! t)" and "\<not> c_done (tasks p ! t)"
  shows "count_list (posted p) t + sum_list (map (queue_refs t) (threads p)) +
      length (concat (map (phases_of t) (threads p))) = 1 \<and>
    (\<forall>w < length (threads p). \<forall>k l. wpc (threads p ! w) = DoPoll k t (Polled l) \<longrightarrow>
       c_signal (tasks p ! t) \<noteq> l)"
proof -
  let ?s = "task_of t p"
  have s: "unseen ?s" "\<not> completed ?s" using assms(3,4) by (simp_all add: task_of_def Let_def)
  note inv = pool_task_inv [OF assms(1,2)]
  have "owners ?s = 1" using inv s by (auto simp: task_inv_def)
  moreover have "c_signal (tasks p ! t) \<noteq> l"
    if "w < length (threads p)" "wpc (threads p ! w) = DoPoll k t (Polled l)" for w k l
  proof -
    have "polls ?s = [Polled l]" using polling_owner [OF assms(1) that] by blast
    then have "unat l < level ?s" "level ?s < 2 ^ 64" "signal_level ?s = of_nat (level ?s)"
      using inv s by (auto simp: task_inv_def)
    then have "signal_level ?s \<noteq> l" using signal_eq_iff [of "level ?s" l] by auto
    then show ?thesis by (simp add: task_of_def Let_def)
  qed
  ultimately show ?thesis by (simp add: owners_def task_of_def Let_def)
qed

theorem notified_task_has_one_place_witness:
  "count_list (posted (scheduled_pool 2 [SpawnFuture True None])) 0 +
     sum_list (map (queue_refs 0) (threads (scheduled_pool 2 [SpawnFuture True None]))) +
     length (concat (map (phases_of 0) (threads (scheduled_pool 2 [SpawnFuture True None])))) = 1"
proof -
  have "pool_reachable (scheduled_pool 2 [SpawnFuture True None])"
    by (rule scheduled_pool_reachable) (simp add: pool_defs)
  moreover have "0 < length (tasks (scheduled_pool 2 [SpawnFuture True None]))"
    "c_unseen (tasks (scheduled_pool 2 [SpawnFuture True None]) ! 0)"
    "\<not> c_done (tasks (scheduled_pool 2 [SpawnFuture True None]) ! 0)"
    by (simp_all add: pool_defs)
  ultimately show ?thesis using notified_task_has_one_place by blast
qed


text \<open>
  \<open>spawn_local_future\<close> works from a task taken from the shared queue and from a handler: the new task
  is pushed to the front of the worker's local queue.  From a task taken from the local queue it does
  not: \<open>while let Some(task) = local_work_queue.borrow_mut().pop_front()\<close> still borrows the queue, the
  second \<open>borrow_mut\<close> panics and the process exits.
\<close>

theorem spawn_local_borrow:
  assumes "pool_reachable p" and "pool_enabled (SpawnLocal w) p"
  shows "if \<exists>t ph. wpc (threads p ! w) = DoPoll LocalKind t ph
    then fst (spawn_local_future w p) = ProcessExits \<and> process_exited (snd (spawn_local_future w p))
    else fst (spawn_local_future w p) = Continues \<and>
      local_work_queue (threads (snd (spawn_local_future w p)) ! w) =
        length (tasks p) # local_work_queue (threads p ! w)"
proof -
  have w: "w < length (threads p)" using assms(2) by (simp add: can_call_def)
  have "worker_ok (length (tasks p)) (threads p ! w)"
    using pool_reachable_inv [OF assms(1)] pool_wf_worker [OF _ w] by blast
  then have "borrowed (threads p ! w) \<longleftrightarrow> (\<exists>t ph. wpc (threads p ! w) = DoPoll LocalKind t ph)"
    by (simp add: worker_ok_def)
  with w show ?thesis
    by (auto simp: spawn_local_future_def worker_panics_def set_thread_def Let_def)
qed

theorem spawn_local_borrow_witness:
  "fst (spawn_local_future 0 (scheduled_pool 2 local_polled)) = ProcessExits"
proof -
  have at: "wpc (threads (scheduled_pool 2 local_polled) ! 0) = DoPoll LocalKind 1 (Polling 1)"
    by (simp add: pool_defs)
  moreover have "pool_enabled (SpawnLocal 0) (scheduled_pool 2 local_polled)"
    by (simp add: pool_defs)
  ultimately show ?thesis
    using spawn_local_borrow [OF local_polled_reachable, of 0] by auto
qed

text \<open>
  A worker that leaves finds itself in the registry, so the \<open>expect("worker reference removed
  prematurely")\<close> does not fire; \<open>swap_remove\<close> takes out that worker and no other.
\<close>

theorem worker_exit_removes_itself:
  assumes "pool_reachable p" and "w < length (threads p)" and "wpc (threads p ! w) = Removing"
  shows "\<exists>p'. run_worker w st answer p = (Continues, p') \<and> wpc (threads p' ! w) = Gone \<and>
    distinct (workers p') \<and> set (workers p') = set (workers p) - {w}"
proof -
  have "pool_wf p" using pool_reachable_inv [OF assms(1)] by blast
  then have "distinct (workers p)" "w \<in> set (workers p)"
    using assms(2,3) by (auto simp: pool_wf_def)
  then show ?thesis
    using swap_remove_position [of "workers p" w] assms(2,3)
    by (simp add: run_worker_def Let_def set_thread_def)
qed

definition leaving_worker :: "pool_action list" where
  "leaving_worker = [SpawnFuture True None, go 0, go 0, go 0, DeliverRemote (Some 0), BeginShutdown,
     go 0, go 0]"

theorem worker_exit_removes_itself_witness:
  "\<exists>p'. run_worker 0 StealEmpty (Inr NotReady) (scheduled_pool 2 leaving_worker) = (Continues, p') \<and>
     set (workers p') = {1}"
proof -
  have "pool_reachable (scheduled_pool 2 leaving_worker)"
    by (rule scheduled_pool_reachable) (simp add: leaving_worker_def pool_defs)
  moreover have "wpc (threads (scheduled_pool 2 leaving_worker) ! 0) = Removing"
    "0 < length (threads (scheduled_pool 2 leaving_worker))"
    "set (workers (scheduled_pool 2 leaving_worker)) - {0} = {1}"
    by (simp_all add: leaving_worker_def pool_defs)
  ultimately show ?thesis using worker_exit_removes_itself by metis
qed

text \<open>A pool whose workers all wait for events without a timeout, with nothing posted.\<close>

definition blocked :: "pool \<Rightarrow> bool" where
  "blocked p \<longleftrightarrow> posted p = [] \<and> (\<forall>x \<in> set (threads p). wpc x = Turning None False \<or> wpc x = Gone)"

fun brings_event :: "pool_action \<Rightarrow> bool" where
  "brings_event (KernelEvent _) = True"
| "brings_event (KernelError _) = True"
| "brings_event (SpawnFuture _ None) = True"
| "brings_event _ = False"

lemma blocked_step:
  assumes "blocked p" and "pool_enabled a p" and "\<not> brings_event a"
    and "pool_perform a p = (r, p')"
  shows "blocked p' \<and> threads p' = threads p"
proof -
  have waits: "\<not> in_handler (wpc (threads p ! w)) \<and> \<not> in_future (wpc (threads p ! w)) \<and>
      \<not> pool_enabled (WorkerStep w st answer) p" if "w < length (threads p)" for w st answer
  proof -
    have "threads p ! w \<in> set (threads p)" using that by simp
    then have "wpc (threads p ! w) = Turning None False \<or> wpc (threads p ! w) = Gone"
      using assms(1) by (simp add: blocked_def)
    then show ?thesis by auto
  qed
  show ?thesis
  proof (cases a)
    case (WorkerStep w st answer)
    then show ?thesis using assms(2) waits [of w st answer] by (metis pool_enabled.simps(1))
  next
    case (PoolNotify ow t)
    then have "ow = None" using assms(2) waits by (cases ow) (auto simp: can_call_def)
    then show ?thesis
      using assms(1,4) PoolNotify
      by (auto simp: blocked_def notify_def set_task_def Let_def split: if_splits task_kind.splits)
  next
    case (SpawnFuture posts ow)
    then show ?thesis using assms(2,3) waits by (cases ow) (auto simp: can_call_def)
  next
    case (SpawnLocal w)
    then show ?thesis using assms(2) waits by (auto simp: can_call_def)
  qed (use assms in \<open>auto simp: blocked_def begin_shutdown_def\<close>)
qed

text \<open>
  \<open>begin_shutdown\<close>, and dropping the pool, only clears a flag: workers blocked in \<open>turn(None)\<close> stay
  there.  Until an event comes from outside (a kernel event or a newly posted future), no sequence of
  actions makes any worker move, so none of them exits.
\<close>

theorem shutdown_leaves_blocked_workers:
  assumes "blocked p" and "pool_schedule as (begin_shutdown p) = Some p'"
    and "list_all (\<lambda>a. \<not> brings_event a) as"
  shows "threads p' = threads p"
proof -
  have "threads p' = threads q" if "blocked q" "pool_schedule as q = Some p'" for q
    using assms(3) that
  proof (induction as arbitrary: q)
    case (Cons a as)
    then obtain q1 where "pool_enabled a q" "pool_perform a q = (Continues, q1)"
      "pool_schedule as q1 = Some p'"
      by (auto split: if_splits prod.splits outcome.splits)
    moreover from this have "blocked q1 \<and> threads q1 = threads q"
      using Cons.prems blocked_step [of q a Continues q1] by simp
    ultimately show ?case using Cons.IH [of q1] Cons.prems by simp
  qed simp
  moreover have "blocked (begin_shutdown p)" using assms(1) by (simp add: blocked_def begin_shutdown_def)
  ultimately show ?thesis using assms(2) by (simp add: begin_shutdown_def)
qed

theorem shutdown_leaves_blocked_workers_witness:
  "pool_reachable (scheduled_pool 2 all_blocked) \<and>
   threads (begin_shutdown (scheduled_pool 2 all_blocked)) = threads (scheduled_pool 2 all_blocked)"
proof -
  have "blocked (scheduled_pool 2 all_blocked)" by (simp add: blocked_def pool_defs)
  from shutdown_leaves_blocked_workers [OF this, of "[]"] show ?thesis
    using all_blocked_reachable by simp
qed

lemma stranded_step:
  assumes "pool_reachable p" and "w < length (threads p)" and "wpc (threads p ! w) = Gone"
    and t: "t \<in> set (work_queue (threads p ! w)) \<union> set (local_work_queue (threads p ! w))"
    and en: "pool_enabled a p" and res: "pool_perform a p = (Continues, p')"
  shows "threads p' ! w = threads p ! w \<and> length (threads p') = length (threads p) \<and>
    c_polls (tasks p' ! t) = c_polls (tasks p ! t) \<and> c_done (tasks p' ! t) = c_done (tasks p ! t)"
proof -
  have tl: "t < length (tasks p)"
    using pool_reachable_inv [OF assms(1)] pool_wf_worker [OF _ assms(2)] t
    by (auto simp: worker_ok_def)
  show ?thesis
  proof (cases a)
    case (WorkerStep v st answer)
    then have v: "v < length (threads p)" "v \<noteq> w" using en assms(3) by auto
    show ?thesis
    proof (cases "wpc (threads p ! v)")
      case (DoPoll k u ph)
      then have "u \<noteq> t"
        using future_polled_by_one_worker [OF assms(1) v(1) DoPoll assms(2)] t by blast
      then show ?thesis
        using res WorkerStep v DoPoll
        by (auto simp: run_worker_def do_poll_def poll_returns_def set_thread_def set_task_def
            worker_panics_def Let_def split: phase.splits sum.splits Async.splits if_splits)
    qed (use res WorkerStep v in \<open>auto simp: run_worker_def set_thread_def worker_panics_def Let_def
        split: list.splits steal.splits if_splits\<close>)
  next
    case (PoolNotify ow u)
    then have "\<And>v. ow = Some v \<Longrightarrow> v \<noteq> w" using en assms(3) by (auto simp: can_call_def)
    then show ?thesis
      using res PoolNotify tl
      by (cases "u = t") (auto simp: notify_def set_thread_def set_task_def worker_panics_def Let_def
          split: if_splits option.splits task_kind.splits)
  next
    case (DeliverRemote ow)
    then have "\<And>v. ow = Some v \<Longrightarrow> v \<noteq> w" using en assms(3) by auto
    then show ?thesis
      using res DeliverRemote
      by (cases ow) (auto simp: handle_remote_spawn_def set_thread_def Let_def)
  next
    case (SpawnLocal v)
    then have "v \<noteq> w" using en assms(3) by (auto simp: can_call_def)
    then show ?thesis
      using res SpawnLocal tl by (auto simp: spawn_local_future_def set_thread_def worker_panics_def
          Let_def nth_append split: if_splits)
  next
    case (SpawnFuture posts ow)
    then show ?thesis
      using res tl by (auto simp: spawn_future_def worker_panics_def Let_def nth_append
          split: if_splits option.splits)
  next
    case (KernelEvent v)
    then have "v \<noteq> w" using en assms(3) by auto
    then show ?thesis using res KernelEvent by (auto simp: set_thread_def)
  qed (use res in \<open>auto simp: worker_panics_def begin_shutdown_def\<close>)
qed


text \<open>
  A task left in a queue of a worker that has exited is stranded: it is never polled again and
  never completes, whatever the rest of the pool does.
\<close>

theorem exited_worker_strands_tasks:
  assumes "pool_reachable p" and "w < length (threads p)" and "wpc (threads p ! w) = Gone"
    and "t \<in> set (work_queue (threads p ! w)) \<union> set (local_work_queue (threads p ! w))"
    and "pool_schedule as p = Some p'"
  shows "c_polls (tasks p' ! t) = c_polls (tasks p ! t) \<and> c_done (tasks p' ! t) = c_done (tasks p ! t)"
  using assms
proof (induction as arbitrary: p)
  case (Cons a as)
  then obtain q where q: "pool_enabled a p" "pool_perform a p = (Continues, q)"
    "pool_schedule as q = Some p'" "pool_schedule [a] p = Some q"
    by (auto split: if_splits prod.splits outcome.splits)
  note same = stranded_step [OF Cons.prems(1-4) q(1,2)]
  have "pool_reachable q" using q(4) Cons.prems(1) pool_schedule_reachable by blast
  from Cons.IH [OF this _ _ _ q(3)] show ?case using same Cons.prems(2-4) by simp
qed simp

theorem exited_worker_strands_tasks_witness:
  "c_polls (tasks (begin_shutdown (scheduled_pool 2 (leaving_worker @ [go 0]))) ! 0) = 0 \<and>
   \<not> c_done (tasks (begin_shutdown (scheduled_pool 2 (leaving_worker @ [go 0]))) ! 0)"
proof -
  let ?p = "scheduled_pool 2 (leaving_worker @ [go 0])"
  have "pool_reachable ?p"
    by (rule scheduled_pool_reachable) (simp add: leaving_worker_def pool_defs)
  moreover have "0 < length (threads ?p)" "wpc (threads ?p ! 0) = Gone"
    "0 \<in> set (work_queue (threads ?p ! 0)) \<union> set (local_work_queue (threads ?p ! 0))"
    by (simp_all add: leaving_worker_def pool_defs)
  moreover have "pool_schedule [BeginShutdown] ?p = Some (begin_shutdown ?p)"
    "c_polls (tasks ?p ! 0) = 0" "\<not> c_done (tasks ?p ! 0)"
    by (simp_all add: leaving_worker_def pool_defs)
  ultimately show ?thesis using exited_worker_strands_tasks by metis
qed

end
