(* ===== verification/RemoteSpawn.thy ===== *)
theory RemoteSpawn
  imports PoolSafety
begin

text \<open>
  How a future that is spawned reaches a worker: \<open>Handle::spawn_future\<close> and \<open>handle_remote_spawn\<close> of
  \<open>src/src/evloop/threadpool/mod.rs\<close> over the custom event of \<open>src/src/epoll/mod.rs\<close>, for a pool whose event
  queue is an epoll instance.

  The threads are interleaved, one atomic operation or system call per step.  Spawning pushes the address of
  the task and then writes to the eventfd; a worker whose wait returns the event reads the eventfd, pops words
  until the queue is empty, and arms the event again.  In \<open>ThreadPool\<close> a spawned task is \<open>posted\<close> and
  delivered in one step each; here it is shown that this is what the steps come to, and that no word waits
  without a thread, or the kernel, knowing of it.
\<close>

subsection \<open>The kernel\<close>

text \<open>An eventfd in semaphore mode that does not block: a new one, readiness, a write of 1 and a read.\<close>

record 'k eventfd =
  ef_new :: 'k
  ef_ready :: "'k \<Rightarrow> bool"
  ef_write :: "'k \<Rightarrow> io_error + 'k"
  ef_read :: "'k \<Rightarrow> io_error + u64 \<times> 'k"

text \<open>
  \<open>eventfd(2)\<close>: it is readable when its counter is not 0; a read takes 1 off the counter and answers 1, or
  fails with \<open>EAGAIN\<close>; a write of 1 fails only when the counter is at its maximum.
\<close>

definition eventfd_ok :: "'k eventfd \<Rightarrow> bool" where
  "eventfd_ok K \<longleftrightarrow>
     (\<forall>k. ef_ready K k \<longrightarrow> (\<exists>k'. ef_read K k = Inr (1, k'))) \<and>
     (\<forall>k. \<not> ef_ready K k \<longrightarrow> (\<exists>e. ef_read K k = Inl e \<and> kind e = WouldBlock)) \<and>
     (\<forall>k k'. ef_write K k = Inr k' \<longrightarrow> ef_ready K k') \<and>
     (\<forall>k e. ef_write K k = Inl e \<longrightarrow> ef_ready K k)"

text \<open>One that satisfies this: the counter of Linux.\<close>

definition eagain :: io_error where
  "eagain = \<lparr>kind = WouldBlock, raw_os_error = Some 11\<rparr>"

definition linux_eventfd :: "nat eventfd" where
  "linux_eventfd = \<lparr>ef_new = 0, ef_ready = (\<lambda>k. 0 < k),
     ef_write = (\<lambda>k. if k < 2 ^ 64 - 2 then Inr (k + 1) else Inl eagain),
     ef_read = (\<lambda>k. if 0 < k then Inr (1, k - 1) else Inl eagain)\<rparr>"

lemma eventfd_ok_linux [simp]: "eventfd_ok linux_eventfd"
  by (simp add: eventfd_ok_def linux_eventfd_def eagain_def)

subsection \<open>State\<close>

text \<open>
  A worker that the wait has given the event of the pool: before it calls the handler, in the loop over
  \<open>try_pop\<close>, and before the event is armed again.
\<close>

datatype event_pc = GotEvent | Draining | Rearming

text \<open>
  \<open>pf_pool\<close> is the pool, with nothing in its \<open>posted\<close>: that is now the queue of the custom event, a list of
  addresses.  \<open>raw\<close> gives the task last allocated at an address, \<open>writing\<close> the calls of \<open>spawn_future\<close> between
  the push and the write, each with the worker it is made on, if any.
\<close>

record 'k platform =
  pf_pool :: pool
  raw :: "usize \<rightharpoonup> nat"
  word_queue :: "usize list"
  efd :: 'k
  event_armed :: bool
  writing :: "nat option list"
  at_event :: "nat \<Rightarrow> event_pc option"

definition new_platform :: "'k eventfd \<Rightarrow> nat \<Rightarrow> 'k platform" where
  "new_platform K n = \<lparr>pf_pool = with_concurrency n, raw = Map.empty, word_queue = [], efd = ef_new K,
     event_armed = True, writing = [], at_event = (\<lambda>_. None)\<rparr>"

text \<open>The abstraction: the pool with the tasks whose addresses are in the queue as its posted tasks.\<close>

definition task_at :: "'k platform \<Rightarrow> usize \<Rightarrow> nat" where
  "task_at s a = the (raw s a)"

definition pool_of :: "'k platform \<Rightarrow> pool" where
  "pool_of s = (pf_pool s)\<lparr>posted := map (task_at s) (word_queue s)\<rparr>"

subsection \<open>Operations\<close>

text \<open>
  \<open>spawn_future\<close> up to the push: the task is allocated at \<open>a\<close>, \<open>Arc::into_raw\<close> gives up the reference to it,
  and the address goes into the queue.
\<close>

definition push_remote :: "nat option \<Rightarrow> usize \<Rightarrow> 'k platform \<Rightarrow> 'k platform" where
  "push_remote by a s =
     (let p = pf_pool s
      in s\<lparr>pf_pool := p\<lparr>tasks := tasks p @ [new_cell GlobalKind]\<rparr>, raw := (raw s)(a \<mapsto> length (tasks p)),
           word_queue := word_queue s @ [a], writing := writing s @ [by]\<rparr>)"

text \<open>The write, and the \<open>expect\<close> on what \<open>post_custom_event\<close> returns; the word stays in the queue.\<close>

definition write_remote :: "'k eventfd \<Rightarrow> nat \<Rightarrow> 'k platform \<Rightarrow> outcome \<times> 'k platform" where
  "write_remote K i s =
     (let s1 = s\<lparr>writing := take i (writing s) @ drop (Suc i) (writing s)\<rparr>
      in case ef_write K (efd s) of
           Inr k \<Rightarrow> (Continues, s1\<lparr>efd := k\<rparr>)
         | Inl e \<Rightarrow>
             (case writing s ! i of
                None \<Rightarrow> (ThreadPanics, s1)
              | Some w \<Rightarrow> (ProcessExits, s1\<lparr>pf_pool := snd (worker_panics (pf_pool s))\<rparr>)))"

text \<open>The wait of worker \<open>w\<close> returns the event, which is registered with \<open>EPOLLONESHOT\<close>.\<close>

definition wait_returns :: "nat \<Rightarrow> 'k platform \<Rightarrow> 'k platform" where
  "wait_returns w s =
     s\<lparr>pf_pool := snd (pool_perform (KernelEvent w) (pf_pool s)), event_armed := False,
       at_event := (at_event s)(w \<mapsto> GotEvent)\<rparr>"

definition handler_panics :: "'k platform \<Rightarrow> outcome \<times> 'k platform" where
  "handler_panics s = (ProcessExits, s\<lparr>pf_pool := snd (worker_panics (pf_pool s))\<rparr>)"

text \<open>\<open>handle_event\<close> of \<open>CustomEventRegistrationHandler\<close>: the read, one turn of the loop, \<open>modify\<close>.\<close>

definition read_event :: "'k eventfd \<Rightarrow> nat \<Rightarrow> 'k platform \<Rightarrow> outcome \<times> 'k platform" where
  "read_event K w s =
     (case ef_read K (efd s) of
        Inl e \<Rightarrow>
          if kind e = WouldBlock then (Continues, s\<lparr>at_event := (at_event s)(w \<mapsto> Rearming)\<rparr>)
          else handler_panics s
      | Inr (n, k) \<Rightarrow>
          (Continues, s\<lparr>efd := k,
             at_event := (at_event s)(w \<mapsto> if n \<noteq> 0 then Draining else Rearming)\<rparr>))"

definition pop_event :: "nat \<Rightarrow> 'k platform \<Rightarrow> outcome \<times> 'k platform" where
  "pop_event w s =
     (case word_queue s of
        [] \<Rightarrow> (Continues, s\<lparr>at_event := (at_event s)(w \<mapsto> Rearming)\<rparr>)
      | d # ds \<Rightarrow>
          (let (r, p) = handle_remote_spawn (Some w) ((pf_pool s)\<lparr>posted := [task_at s d]\<rparr>)
           in (r, s\<lparr>pf_pool := p, word_queue := ds\<rparr>)))"

definition rearm_remote :: "nat \<Rightarrow> bool \<Rightarrow> 'k platform \<Rightarrow> outcome \<times> 'k platform" where
  "rearm_remote w ok s =
     (if ok then (Continues, s\<lparr>event_armed := True, at_event := (at_event s)(w := None)\<rparr>)
      else handler_panics s)"

subsection \<open>Interleaving\<close>

datatype platform_action =
    PoolAction pool_action
  | PushRemote "nat option" usize
  | WriteRemote nat
  | WaitReturns nat
  | ReadEvent nat
  | PopEvent nat
  | RearmEvent nat bool

text \<open>
  The actions of the pool that do not go through the custom event, and the worker that takes each.  A
  worker does nothing else while it is in \<open>spawn_future\<close> or in the handler of the event, and does not
  leave its turn before it has called that handler.
\<close>

fun own_action :: "pool_action \<Rightarrow> bool" where
  "own_action (SpawnFuture _ _) = False"
| "own_action (DeliverRemote _) = False"
| "own_action _ = True"

fun actor :: "pool_action \<Rightarrow> nat option" where
  "actor (WorkerStep w _ _) = Some w"
| "actor (SpawnLocal w) = Some w"
| "actor (PoolNotify by _) = by"
| "actor (KernelEvent w) = Some w"
| "actor (KernelError w) = Some w"
| "actor _ = None"

definition busy :: "'k platform \<Rightarrow> nat \<Rightarrow> bool" where
  "busy s w \<longleftrightarrow> Some w \<in> set (writing s) \<or> at_event s w = Some Draining \<or> at_event s w = Some Rearming"

fun leaves_turn :: "pool_action \<Rightarrow> nat option" where
  "leaves_turn (WorkerStep w _ _) = Some w"
| "leaves_turn (KernelError w) = Some w"
| "leaves_turn _ = None"

fun waits :: "worker_pc \<Rightarrow> bool" where
  "waits (Turning _ ev) = (\<not> ev)"
| "waits _ = False"

lemma waitsE [elim!]:
  assumes "waits pc"
  obtains d where "pc = Turning d False"
  using assms by (cases pc) auto

text \<open>
  \<open>PushRemote\<close>: an allocator does not hand out an address that is in use, and that of a task whose address
  is in the queue is.  \<open>WaitReturns\<close>: \<open>epoll_wait\<close> reports the event when it is armed and readable.
\<close>

fun platform_enabled :: "'k eventfd \<Rightarrow> platform_action \<Rightarrow> 'k platform \<Rightarrow> bool" where
  "platform_enabled K (PoolAction a) s = (own_action a \<and> pool_enabled a (pf_pool s) \<and>
     (case actor a of None \<Rightarrow> True | Some w \<Rightarrow> \<not> busy s w) \<and>
     (case leaves_turn a of None \<Rightarrow> True | Some w \<Rightarrow> at_event s w = None))"
| "platform_enabled K (PushRemote by a) s = (can_call by (pf_pool s) \<and> a \<notin> set (word_queue s) \<and>
     (case by of None \<Rightarrow> True | Some w \<Rightarrow> \<not> busy s w))"
| "platform_enabled K (WriteRemote i) s = (i < length (writing s))"
| "platform_enabled K (WaitReturns w) s = (w < length (threads (pf_pool s)) \<and>
     waits (wpc (threads (pf_pool s) ! w)) \<and> at_event s w = None \<and>
     event_armed s \<and> ef_ready K (efd s))"
| "platform_enabled K (ReadEvent w) s = (at_event s w = Some GotEvent \<and> \<not> busy s w)"
| "platform_enabled K (PopEvent w) s = (at_event s w = Some Draining)"
| "platform_enabled K (RearmEvent w ok) s = (at_event s w = Some Rearming)"

fun platform_perform :: "'k eventfd \<Rightarrow> platform_action \<Rightarrow> 'k platform \<Rightarrow> outcome \<times> 'k platform" where
  "platform_perform K (PoolAction a) s = (let (r, p) = pool_perform a (pf_pool s) in (r, s\<lparr>pf_pool := p\<rparr>))"
| "platform_perform K (PushRemote by a) s = (Continues, push_remote by a s)"
| "platform_perform K (WriteRemote i) s = write_remote K i s"
| "platform_perform K (WaitReturns w) s = (Continues, wait_returns w s)"
| "platform_perform K (ReadEvent w) s = read_event K w s"
| "platform_perform K (PopEvent w) s = pop_event w s"
| "platform_perform K (RearmEvent w ok) s = rearm_remote w ok s"

text \<open>A thread that is not a worker may panic in \<open>spawn_future\<close>, and the others go on.\<close>

fun goes_on :: "platform_action \<Rightarrow> outcome \<Rightarrow> bool" where
  "goes_on (WriteRemote i) r = (r \<noteq> ProcessExits)"
| "goes_on a r = (r = Continues)"

inductive platform_step :: "'k eventfd \<Rightarrow> 'k platform \<Rightarrow> platform_action \<times> outcome \<Rightarrow> 'k platform \<Rightarrow> bool" for K where
  step: "platform_enabled K a s \<Longrightarrow> platform_perform K a s = (r, s') \<Longrightarrow> \<not> process_exited (pf_pool s) \<Longrightarrow>
    (\<forall>c \<in> set (tasks (pf_pool s')). c_level c < 2 ^ 64) \<Longrightarrow> platform_step K s (a, r) s'"

inductive_cases platform_stepE: "platform_step K s (a, r) s'"

inductive platform_reachable :: "'k eventfd \<Rightarrow> 'k platform \<Rightarrow> bool" for K where
  new: "platform_reachable K (new_platform K n)"
| step: "platform_reachable K s \<Longrightarrow> platform_step K s (a, r) s' \<Longrightarrow> goes_on a r \<Longrightarrow> platform_reachable K s'"

subsection \<open>The pool that the steps come to\<close>

text \<open>What is in \<open>posted\<close> does not matter to actions that do not go through the custom event.\<close>

lemma set_thread_posted [simp]: "set_thread w x (p\<lparr>posted := q\<rparr>) = (set_thread w x p)\<lparr>posted := q\<rparr>"
  by (simp add: set_thread_def)

lemma set_task_posted [simp]: "set_task t c (p\<lparr>posted := q\<rparr>) = (set_task t c p)\<lparr>posted := q\<rparr>"
  by (simp add: set_task_def)

lemma poll_returns_posted [simp]: "poll_returns w k (p\<lparr>posted := q\<rparr>) = (poll_returns w k p)\<lparr>posted := q\<rparr>"
  by (simp add: poll_returns_def)

lemma do_poll_posted:
  "do_poll w k t ph answer (p\<lparr>posted := q\<rparr>) = (let (r, p') = do_poll w k t ph answer p in (r, p'\<lparr>posted := q\<rparr>))"
  by (cases ph) (auto simp: do_poll_def Let_def worker_panics_def split: sum.splits Async.splits)

lemma pool_perform_posted:
  assumes "own_action a"
  shows "pool_perform a (p\<lparr>posted := q\<rparr>) = (let (r, p') = pool_perform a p in (r, p'\<lparr>posted := q\<rparr>))"
proof (cases a)
  case (WorkerStep w st answer)
  then show ?thesis
    by (cases "wpc (threads p ! w)")
      (auto simp: run_worker_def Let_def worker_panics_def do_poll_posted split: list.splits steal.splits)
qed (use assms in \<open>auto simp: spawn_local_future_def notify_def worker_panics_def begin_shutdown_def Let_def
    set_thread_def set_task_def split: task_kind.splits option.splits\<close>)

lemma pool_enabled_posted: "own_action a \<Longrightarrow> pool_enabled a (p\<lparr>posted := q\<rparr>) = pool_enabled a p"
  by (cases a) (auto simp: can_call_def split: option.splits worker_pc.splits)

lemma pool_perform_keeps_posted:
  assumes "own_action a" and "pool_perform a p = (r, p')"
  shows "posted p' = posted p"
proof -
  have "pool_perform a (p\<lparr>posted := posted p\<rparr>) = (r, p'\<lparr>posted := posted p\<rparr>)"
    by (simp only: pool_perform_posted [OF assms(1)] assms(2) Let_def prod.case)
  then have "p' = p'\<lparr>posted := posted p\<rparr>" using assms(2) by simp
  then show ?thesis by (metis pool.select_convs(5) pool.surjective pool.update_convs(5))
qed

subsection \<open>The invariant\<close>

text \<open>
  Either the event is armed and no worker is in its handler, or exactly one worker has it, in its turn; if it
  has not read the eventfd yet, that is readable.
\<close>

definition handler_ok :: "'k eventfd \<Rightarrow> 'k platform \<Rightarrow> bool" where
  "handler_ok K s \<longleftrightarrow>
     (if event_armed s then at_event s = Map.empty
      else \<exists>w pc d. at_event s = [w \<mapsto> pc] \<and> w < length (threads (pf_pool s)) \<and>
        wpc (threads (pf_pool s) ! w) = Turning d True \<and> (pc = GotEvent \<longrightarrow> ef_ready K (efd s)))"

text \<open>A worker is in at most one call of \<open>spawn_future\<close>.\<close>

definition writers_ok :: "'k platform \<Rightarrow> bool" where
  "writers_ok s \<longleftrightarrow> (\<forall>w. count_list (writing s) (Some w) \<le> 1)"

lemma writers_ok_upd [simp]:
  "writers_ok (s\<lparr>pf_pool := p\<rparr>) = writers_ok s" "writers_ok (s\<lparr>at_event := f\<rparr>) = writers_ok s"
  "writers_ok (s\<lparr>efd := k\<rparr>) = writers_ok s" "writers_ok (s\<lparr>word_queue := ws\<rparr>) = writers_ok s"
  "writers_ok (s\<lparr>event_armed := b\<rparr>) = writers_ok s" "writers_ok (s\<lparr>raw := m\<rparr>) = writers_ok s"
  by (simp_all add: writers_ok_def)

text \<open>A word in the queue has been announced: by a write that is still to come, by the eventfd, or by a worker.\<close>

definition announced :: "'k eventfd \<Rightarrow> 'k platform \<Rightarrow> bool" where
  "announced K s \<longleftrightarrow> word_queue s = [] \<or> writing s \<noteq> [] \<or> ef_ready K (efd s) \<or>
     (\<exists>w. at_event s w = Some Draining)"

definition platform_inv :: "'k eventfd \<Rightarrow> 'k platform \<Rightarrow> bool" where
  "platform_inv K s \<longleftrightarrow> posted (pf_pool s) = [] \<and> distinct (word_queue s) \<and>
     set (word_queue s) \<subseteq> dom (raw s) \<and> handler_ok K s \<and> writers_ok s \<and> announced K s"

lemma handler_okE:
  assumes "handler_ok K s" and "at_event s w = Some pc"
  obtains d where "\<not> event_armed s" "at_event s = [w \<mapsto> pc]" "w < length (threads (pf_pool s))"
    "wpc (threads (pf_pool s) ! w) = Turning d True" "pc = GotEvent \<longrightarrow> ef_ready K (efd s)"
  using assms by (auto simp: handler_ok_def split: if_splits)

lemma handler_okI:
  "\<not> event_armed s \<Longrightarrow> at_event s = [w \<mapsto> pc] \<Longrightarrow> w < length (threads (pf_pool s)) \<Longrightarrow>
   wpc (threads (pf_pool s) ! w) = Turning d True \<Longrightarrow> (pc = GotEvent \<longrightarrow> ef_ready K (efd s)) \<Longrightarrow> handler_ok K s"
  unfolding handler_ok_def by simp blast

lemma handler_ok_armed: "handler_ok K s \<Longrightarrow> event_armed s \<longleftrightarrow> at_event s = Map.empty"
  by (auto simp: handler_ok_def split: if_splits) (metis map_upd_nonempty)+

lemma wpc_update: "wpc x = wpc (xs ! v) \<Longrightarrow> wpc (xs[v := x] ! w) = wpc (xs ! w)"
  by (cases "v = w"; cases "v < length xs") (auto simp: not_less list_update_beyond)

text \<open>A worker stays in its turn while others act, and while it calls into the pool from a handler.\<close>

lemma do_poll_frame:
  "do_poll v k t ph answer p = (Continues, p') \<Longrightarrow>
   length (threads p') = length (threads p) \<and> (\<forall>w. w \<noteq> v \<longrightarrow> threads p' ! w = threads p ! w)"
  by (cases ph) (auto simp: do_poll_def poll_returns_def set_thread_def set_task_def worker_panics_def Let_def
      split: sum.splits Async.splits if_splits)

lemma run_worker_frame:
  assumes "run_worker v st answer p = (Continues, p')"
  shows "length (threads p') = length (threads p) \<and> (\<forall>w. w \<noteq> v \<longrightarrow> threads p' ! w = threads p ! w)"
proof (cases "wpc (threads p ! v)")
  case (DoPoll k t ph)
  then show ?thesis using assms do_poll_frame by (simp add: run_worker_def)
qed (use assms in \<open>auto simp: run_worker_def set_thread_def worker_panics_def Let_def
    split: list.splits steal.splits if_splits\<close>)

lemma own_action_stays:
  assumes "pool_perform a p = (Continues, p')" and "own_action a" and "leaves_turn a \<noteq> Some w"
    and "w < length (threads p)" and "wpc (threads p ! w) = Turning d True"
  shows "w < length (threads p') \<and> wpc (threads p' ! w) = Turning d True"
proof (cases a)
  case (WorkerStep v st answer)
  then show ?thesis using assms run_worker_frame [of v st answer p p'] by simp
next
  case (PoolNotify ow t)
  then show ?thesis
    using assms by (auto simp: notify_def set_thread_def set_task_def worker_panics_def Let_def wpc_update
        split: if_splits task_kind.splits option.splits)
next
  case (SpawnLocal v)
  then show ?thesis
    using assms by (auto simp: spawn_local_future_def set_thread_def worker_panics_def Let_def wpc_update
        split: if_splits)
next
  case (KernelEvent v)
  then show ?thesis using assms by (cases "v = w") (auto simp: set_thread_def)
qed (use assms in \<open>auto simp: worker_panics_def begin_shutdown_def\<close>)

lemma inv_pool_action:
  assumes inv: "platform_inv K s" and en: "platform_enabled K (PoolAction a) s"
    and res: "pool_perform a (pf_pool s) = (Continues, p)"
  shows "platform_inv K (s\<lparr>pf_pool := p\<rparr>)"
proof -
  have own: "own_action a" using en by simp
  have "handler_ok K (s\<lparr>pf_pool := p\<rparr>)"
  proof (cases "event_armed s")
    case True
    then show ?thesis using inv by (simp add: platform_inv_def handler_ok_def)
  next
    case False
    then obtain w pc where "at_event s = [w \<mapsto> pc]"
      using inv by (auto simp: platform_inv_def handler_ok_def)
    then have w: "at_event s w = Some pc" by simp
    have "handler_ok K s" using inv by (simp add: platform_inv_def)
    then obtain d where d: "at_event s = [w \<mapsto> pc]" "w < length (threads (pf_pool s))"
      "wpc (threads (pf_pool s) ! w) = Turning d True" "pc = GotEvent \<longrightarrow> ef_ready K (efd s)"
      using w by (rule handler_okE)
    have "leaves_turn a \<noteq> Some w" using en w by auto
    from own_action_stays [OF res own this d(2,3)] show ?thesis
      using d False by (simp add: handler_ok_def) blast
  qed
  then show ?thesis
    using inv pool_perform_keeps_posted [OF own res] by (simp add: platform_inv_def announced_def)
qed

lemma inv_push:
  assumes "platform_inv K s" and "platform_enabled K (PushRemote by a) s"
  shows "platform_inv K (push_remote by a s)"
  using assms by (cases "by") (auto simp: platform_inv_def push_remote_def Let_def handler_ok_def announced_def
      writers_ok_def busy_def count_list_0_iff)

lemma handler_ok_ready:
  "handler_ok K s \<Longrightarrow> ef_ready K k \<Longrightarrow> handler_ok K (s\<lparr>writing := wr, efd := k\<rparr>)"
  by (cases "event_armed s") (simp_all add: handler_ok_def, blast)

lemma inv_write:
  assumes "eventfd_ok K" and inv: "platform_inv K s" and res: "write_remote K i s = (r, s')" and "r \<noteq> ProcessExits"
    and i: "i < length (writing s)"
  shows "platform_inv K s' \<and> pf_pool s' = pf_pool s"
proof -
  let ?wr = "take i (writing s) @ drop (Suc i) (writing s)"
  obtain k where s': "s' = s\<lparr>writing := ?wr, efd := k\<rparr>" and k: "ef_ready K k"
    using res assms(1,4) by (auto simp: write_remote_def eventfd_ok_def Let_def worker_panics_def
        split: sum.splits option.splits) (metis platform.surjective platform.update_convs(4,6))+
  have "writers_ok s'"
    using inv count_list_remove [OF i] unfolding s' platform_inv_def writers_ok_def
    by (simp del: count_list_append)
  then show ?thesis
    using inv handler_ok_ready [of K s k ?wr] s' k by (simp add: platform_inv_def announced_def)
qed

lemma inv_wait:
  assumes inv: "platform_inv K s" and en: "platform_enabled K (WaitReturns w) s"
  shows "platform_inv K (wait_returns w s)"
  using assms
  by (auto simp: platform_inv_def wait_returns_def handler_ok_def announced_def set_thread_def)

lemma inv_read:
  assumes "eventfd_ok K" and inv: "platform_inv K s" and en: "platform_enabled K (ReadEvent w) s"
    and res: "read_event K w s = (Continues, s')"
  shows "platform_inv K s' \<and> pf_pool s' = pf_pool s \<and> at_event s' = [w \<mapsto> Draining]"
proof -
  have "handler_ok K s" "at_event s w = Some GotEvent"
    using inv en by (simp_all add: platform_inv_def)
  then obtain d where h: "\<not> event_armed s" "at_event s = [w \<mapsto> GotEvent]" "w < length (threads (pf_pool s))"
    "wpc (threads (pf_pool s) ! w) = Turning d True" "ef_ready K (efd s)"
    by (auto elim!: handler_okE)
  then obtain k where "ef_read K (efd s) = Inr (1, k)"
    using assms(1) by (auto simp: eventfd_ok_def)
  then have s': "s' = s\<lparr>efd := k, at_event := [w \<mapsto> Draining]\<rparr>"
    using res h(2) by (simp add: read_event_def)
  then show ?thesis
    using inv h by (auto simp: platform_inv_def handler_ok_def announced_def)
qed

definition popped :: "nat \<Rightarrow> nat \<Rightarrow> nat option \<Rightarrow> pool \<Rightarrow> pool" where
  "popped w t d p = set_thread w ((threads p ! w)
     \<lparr>work_queue := work_queue (threads p ! w) @ [t], wpc := Turning d True\<rparr>) (p\<lparr>posted := []\<rparr>)"

lemma pop_event_Cons:
  "word_queue s = a # as \<Longrightarrow> wpc (threads (pf_pool s) ! w) = Turning d True \<Longrightarrow>
   pop_event w s = (Continues, s\<lparr>pf_pool := popped w (task_at s a) d (pf_pool s), word_queue := as\<rparr>)"
  by (simp add: pop_event_def handle_remote_spawn_def popped_def set_thread_def Let_def)

lemma inv_pop:
  assumes inv: "platform_inv K s" and en: "platform_enabled K (PopEvent w) s"
    and res: "pop_event w s = (Continues, s')"
  shows "platform_inv K s'"
proof -
  have "handler_ok K s" "at_event s w = Some Draining"
    using inv en by (simp_all add: platform_inv_def)
  then obtain d where h: "\<not> event_armed s" "at_event s = [w \<mapsto> Draining]" "w < length (threads (pf_pool s))"
    "wpc (threads (pf_pool s) ! w) = Turning d True"
    by (auto elim!: handler_okE)
  show ?thesis
  proof (cases "word_queue s")
    case Nil
    then have s': "s' = s\<lparr>at_event := [w \<mapsto> Rearming]\<rparr>" using res h(2) by (simp add: pop_event_def)
    have "handler_ok K s'" using h by (intro handler_okI [of _ w Rearming d]) (simp_all add: s')
    then show ?thesis using inv Nil by (simp add: platform_inv_def announced_def s')
  next
    case (Cons a as)
    let ?p = "popped w (task_at s a) d (pf_pool s)"
    have s': "s' = s\<lparr>pf_pool := ?p, word_queue := as\<rparr>"
      using res pop_event_Cons [OF Cons h(4)] by simp
    have p: "posted ?p = []" "length (threads ?p) = length (threads (pf_pool s))"
      "wpc (threads ?p ! w) = Turning d True"
      using h(3) by (simp_all add: popped_def set_thread_def)
    have "handler_ok K s'" using h p by (intro handler_okI [of _ w Draining d]) (simp_all add: s')
    then show ?thesis using inv h(2) Cons p(1) by (auto simp: platform_inv_def announced_def s')
  qed
qed

lemma inv_rearm:
  assumes inv: "platform_inv K s" and en: "platform_enabled K (RearmEvent w ok) s"
    and res: "rearm_remote w ok s = (Continues, s')"
  shows "platform_inv K s' \<and> pf_pool s' = pf_pool s"
proof -
  have "handler_ok K s" "at_event s w = Some Rearming"
    using inv en by (simp_all add: platform_inv_def)
  then have "at_event s = [w \<mapsto> Rearming]" by (auto elim!: handler_okE)
  then show ?thesis
    using res inv
    by (auto simp: rearm_remote_def handler_panics_def platform_inv_def handler_ok_def announced_def
        split: if_splits)
qed

lemma platform_inv_step:
  assumes "eventfd_ok K" and "platform_inv K s" and st: "platform_step K s (a, r) s'" and "goes_on a r"
  shows "platform_inv K s'"
proof -
  have en: "platform_enabled K a s" and res: "platform_perform K a s = (r, s')"
    using st by (auto elim: platform_stepE)
  show ?thesis
  proof (cases a)
    case (PoolAction b)
    then show ?thesis
      using inv_pool_action [OF assms(2), of b] en res assms(4) by (auto split: prod.splits)
  next
    case (PushRemote ow d)
    then show ?thesis using inv_push [OF assms(2), of ow d] en res by simp
  next
    case (WriteRemote i)
    then show ?thesis using inv_write [OF assms(1,2), of i r s'] en res assms(4) by simp
  next
    case (WaitReturns w)
    then show ?thesis using inv_wait [OF assms(2), of w] en res by simp
  next
    case (ReadEvent w)
    then show ?thesis using inv_read [OF assms(1,2), of w s'] en res assms(4) by simp
  next
    case (PopEvent w)
    then show ?thesis using inv_pop [OF assms(2), of w s'] en res assms(4) by simp
  next
    case (RearmEvent w ok)
    then show ?thesis using inv_rearm [OF assms(2), of w ok s'] en res assms(4) by simp
  qed
qed

lemma platform_inv_new: "platform_inv K (new_platform K n)"
  by (simp add: platform_inv_def new_platform_def handler_ok_def announced_def writers_ok_def with_concurrency_def)

lemma platform_reachable_inv: "platform_reachable K s \<Longrightarrow> eventfd_ok K \<Longrightarrow> platform_inv K s"
  by (induction rule: platform_reachable.induct) (auto intro: platform_inv_new platform_inv_step)

subsection \<open>The simulation\<close>

lemma pool_of_simps [simp]:
  "tasks (pool_of s) = tasks (pf_pool s)" "threads (pool_of s) = threads (pf_pool s)"
  "process_exited (pool_of s) = process_exited (pf_pool s)"
  "posted (pool_of s) = map (task_at s) (word_queue s)"
  by (simp_all add: pool_of_def)

text \<open>A step that leaves the pool and the queue alone.\<close>

lemma pool_of_same:
  "pf_pool s' = pf_pool s \<Longrightarrow> raw s' = raw s \<Longrightarrow> word_queue s' = word_queue s \<Longrightarrow> pool_of s' = pool_of s"
  by (simp add: pool_of_def task_at_def [abs_def])

lemma push_simulates:
  assumes "platform_enabled K (PushRemote by a) s"
  shows "pool_enabled (SpawnFuture True by) (pool_of s) \<and>
    pool_perform (SpawnFuture True by) (pool_of s) = (Continues, pool_of (push_remote by a s))"
proof -
  have "map (task_at (push_remote by a s)) (word_queue s) = map (task_at s) (word_queue s)"
    using assms by (auto simp: push_remote_def task_at_def Let_def)
  moreover have "task_at (push_remote by a s) a = length (tasks (pf_pool s))"
    by (simp add: push_remote_def task_at_def Let_def)
  ultimately have "pool_of (push_remote by a s) = (pf_pool s)
      \<lparr>tasks := tasks (pf_pool s) @ [new_cell GlobalKind], posted := map (task_at s) (word_queue s) @ [length (tasks (pf_pool s))]\<rparr>"
    by (simp add: pool_of_def) (simp add: push_remote_def Let_def)
  then show ?thesis
    using assms by (simp add: spawn_future_def can_call_def Let_def cong: option.case_cong) (simp add: pool_of_def)
qed

lemma pop_simulates:
  assumes "platform_inv K s" and "at_event s w = Some Draining" and "pop_event w s = (Continues, s')"
    and q: "word_queue s = a # as"
  shows "pool_enabled (DeliverRemote (Some w)) (pool_of s) \<and>
    pool_perform (DeliverRemote (Some w)) (pool_of s) = (Continues, pool_of s')"
proof -
  have "handler_ok K s" using assms(1) by (simp add: platform_inv_def)
  then obtain d where w: "w < length (threads (pf_pool s))" "wpc (threads (pf_pool s) ! w) = Turning d True"
    using assms(2) by (rule handler_okE)
  have "s' = s\<lparr>pf_pool := popped w (task_at s a) d (pf_pool s), word_queue := as\<rparr>"
    using pop_event_Cons [OF q w(2)] assms(3) by simp
  then show ?thesis
    using q w by (simp add: handle_remote_spawn_def Let_def)
      (simp add: pool_of_def popped_def set_thread_def task_at_def [abs_def])
qed

lemma own_action_simulates:
  assumes "own_action b" and "pool_enabled b (pf_pool s)" and "pool_perform b (pf_pool s) = (Continues, p)"
  shows "pool_enabled b (pool_of s) \<and> pool_perform b (pool_of s) = (Continues, pool_of (s\<lparr>pf_pool := p\<rparr>))"
  using assms pool_perform_posted [OF assms(1), where p = "pf_pool s" and q = "map (task_at s) (word_queue s)"]
    pool_enabled_posted [OF assms(1), where p = "pf_pool s" and q = "map (task_at s) (word_queue s)"]
  by (simp add: pool_of_def task_at_def [abs_def])

lemma wait_simulates:
  assumes "platform_enabled K (WaitReturns w) s"
  shows "pool_enabled (KernelEvent w) (pool_of s) \<and>
    pool_perform (KernelEvent w) (pool_of s) = (Continues, pool_of (wait_returns w s))"
proof -
  have "pool_of (wait_returns w s) = pool_of (s\<lparr>pf_pool := snd (pool_perform (KernelEvent w) (pf_pool s))\<rparr>)"
    by (rule pool_of_same) (simp_all add: wait_returns_def)
  then show ?thesis
    using own_action_simulates [of "KernelEvent w" s "snd (pool_perform (KernelEvent w) (pf_pool s))"] assms
    by auto
qed

text \<open>Each step is a step of the pool, or none.\<close>

lemma platform_simulates:
  assumes "eventfd_ok K" and inv: "platform_inv K s" and st: "platform_step K s (a, r) s'" and on: "goes_on a r"
  shows "pool_of s' = pool_of s \<or> (\<exists>b. pool_step (pool_of s) (b, Continues) (pool_of s'))"
proof -
  have en: "platform_enabled K a s" and res: "platform_perform K a s = (r, s')"
    and lv: "\<not> process_exited (pool_of s)" "\<forall>c \<in> set (tasks (pool_of s')). c_level c < 2 ^ 64"
    using st by (auto elim: platform_stepE)
  have step: "pool_enabled b (pool_of s) \<and> pool_perform b (pool_of s) = (Continues, pool_of s') \<Longrightarrow> ?thesis" for b
    using pool_step.step [OF _ _ lv] by blast
  show ?thesis
  proof (cases a)
    case (PoolAction b)
    then show ?thesis
      using own_action_simulates [of b s] en res on by (intro step [of b]) (auto split: prod.splits)
  next
    case (PushRemote ow d)
    then show ?thesis using push_simulates [of K ow d s] en res by (intro step [of "SpawnFuture True ow"]) simp
  next
    case (WriteRemote i)
    then show ?thesis
      using res on by (auto simp: write_remote_def Let_def intro!: pool_of_same split: sum.splits option.splits)
  next
    case (WaitReturns w)
    then show ?thesis using wait_simulates [of K w s] en res by (intro step [of "KernelEvent w"]) simp
  next
    case (ReadEvent w)
    then show ?thesis
      using res on by (auto simp: read_event_def handler_panics_def intro!: pool_of_same split: sum.splits if_splits)
  next
    case (PopEvent w)
    show ?thesis
    proof (cases "word_queue s")
      case Nil
      then show ?thesis using PopEvent res by (auto simp: pop_event_def intro!: pool_of_same)
    next
      case (Cons d ds)
      then show ?thesis using pop_simulates [OF inv, of w s' d ds] PopEvent en res on
        by (intro step [of "DeliverRemote (Some w)"]) simp
    qed
  next
    case (RearmEvent w ok)
    then show ?thesis
      using res on by (auto simp: rearm_remote_def handler_panics_def intro!: pool_of_same split: if_splits)
  qed
qed

lemma pool_of_new: "pool_of (new_platform K n) = with_concurrency n"
  by (simp add: pool_of_def new_platform_def with_concurrency_def)

lemma platform_pool_reachable: "platform_reachable K s \<Longrightarrow> eventfd_ok K \<Longrightarrow> pool_reachable (pool_of s)"
proof (induction rule: platform_reachable.induct)
  case (new n)
  then show ?case by (simp add: pool_of_new pool_reachable.init)
next
  case (step s a r s')
  then show ?case
    using platform_simulates [of K s a r s'] platform_reachable_inv pool_reachable.step by metis
qed

end
