(* ===== verification/RemoteDelivery.thy ===== *)
theory RemoteDelivery
  imports RemoteSpawn
begin

text \<open>
  A future spawned into a pool over an epoll instance (\<open>src/src/evloop/threadpool/mod.rs\<close> over
  \<open>src/src/epoll/mod.rs\<close>) reaches a worker: the schedules that deliver what is in the queue, and the
  properties of \<open>RemoteSpawn\<close>.
\<close>

subsection \<open>Schedules\<close>

fun platform_schedule :: "'k eventfd \<Rightarrow> platform_action list \<Rightarrow> 'k platform \<Rightarrow> 'k platform option" where
  "platform_schedule K [] s = Some s"
| "platform_schedule K (a # as) s =
     (if platform_enabled K a s \<and> \<not> process_exited (pf_pool s) then
        (let (r, s') = platform_perform K a s
         in if goes_on a r \<and> list_all (\<lambda>c. c_level c < 2 ^ 64) (tasks (pf_pool s'))
            then platform_schedule K as s' else None)
      else None)"

lemma platform_schedule_ConsE:
  assumes "platform_schedule K (a # as) s = Some s'"
  obtains r s1 where "platform_enabled K a s" "platform_perform K a s = (r, s1)" "platform_step K s (a, r) s1"
    "goes_on a r" "platform_schedule K as s1 = Some s'"
proof -
  obtain r s1 where p: "platform_perform K a s = (r, s1)" by fastforce
  then have s: "platform_enabled K a s" "\<not> process_exited (pf_pool s)" "goes_on a r"
    "\<forall>c \<in> set (tasks (pf_pool s1)). c_level c < 2 ^ 64" "platform_schedule K as s1 = Some s'"
    using assms by (simp_all add: list_all_iff split: if_splits)
  show thesis using that [OF s(1) p platform_step.step [OF s(1) p s(2,4)] s(3,5)] .
qed

lemma platform_schedule_reachable:
  "platform_schedule K as s = Some s' \<Longrightarrow> platform_reachable K s \<Longrightarrow> platform_reachable K s'"
proof (induction as arbitrary: s)
  case (Cons a as)
  then show ?case by (blast elim: platform_schedule_ConsE intro: platform_reachable.step)
qed simp

lemma platform_schedule_inv:
  "platform_schedule K as s = Some s' \<Longrightarrow> eventfd_ok K \<Longrightarrow> platform_inv K s \<Longrightarrow> platform_inv K s'"
proof (induction as arbitrary: s)
  case (Cons a as)
  then show ?case by (blast elim: platform_schedule_ConsE intro: platform_inv_step)
qed simp

subsection \<open>Delivering what is in the queue\<close>

text \<open>The steps that bring a word from \<open>spawn_future\<close> to a worker: none of them runs a future.\<close>

fun delivers :: "platform_action \<Rightarrow> bool" where
  "delivers (WriteRemote _) = True"
| "delivers (WaitReturns _) = True"
| "delivers (ReadEvent _) = True"
| "delivers (PopEvent _) = True"
| "delivers (RearmEvent _ _) = True"
| "delivers _ = False"

text \<open>Where a task is that waits for its first poll: in the queue of the event, or in that of a worker.\<close>

definition queued_tasks :: "pool \<Rightarrow> nat set" where
  "queued_tasks p = (\<Union>x \<in> set (threads p). set (work_queue x))"

definition places :: "'k platform \<Rightarrow> nat set" where
  "places s = set (posted (pool_of s)) \<union> queued_tasks (pf_pool s)"

text \<open>Worker \<open>w\<close> waits for events, or has the event and has not emptied the queue yet.\<close>

definition serves :: "nat \<Rightarrow> 'k platform \<Rightarrow> bool" where
  "serves w s \<longleftrightarrow> w < length (threads (pf_pool s)) \<and> at_event s w \<noteq> Some Rearming \<and>
     (at_event s w = None \<longrightarrow> waits (wpc (threads (pf_pool s) ! w)))"

text \<open>The writes that are due, and the steps of the handler until the queue is empty.\<close>

definition delivery_distance :: "'k platform \<Rightarrow> nat" where
  "delivery_distance s = length (writing s) + length (word_queue s) +
     (if event_armed s then 2 else if Rearming \<in> ran (at_event s) then 3
      else if GotEvent \<in> ran (at_event s) then 1 else 0)"

definition nearer :: "nat \<Rightarrow> 'k platform \<Rightarrow> 'k platform \<Rightarrow> bool" where
  "nearer w s s' \<longleftrightarrow> Suc (delivery_distance s') = delivery_distance s \<and>
     (word_queue s' = [] \<or> serves w s') \<and> places s \<subseteq> places s'"

definition healthy :: "'k platform \<Rightarrow> bool" where
  "healthy s \<longleftrightarrow> \<not> process_exited (pf_pool s) \<and> list_all (\<lambda>c. c_level c < 2 ^ 64) (tasks (pf_pool s))"

text \<open>What a worker in the loop over \<open>try_pop\<close> does: it moves the words to its own queue.\<close>

lemma places_popped:
  assumes "word_queue s = a # as" and "w < length (threads (pf_pool s))"
  shows "places s \<subseteq> places (s\<lparr>pf_pool := popped w (task_at s a) d (pf_pool s), word_queue := as\<rparr>)"
proof -
  let ?x = "(threads (pf_pool s) ! w)\<lparr>work_queue := work_queue (threads (pf_pool s) ! w) @ [task_at s a],
    wpc := Turning d True\<rparr>"
  have thr: "threads (popped w (task_at s a) d (pf_pool s)) = (threads (pf_pool s))[w := ?x]"
    by (simp add: popped_def set_thread_def)
  have "queued_tasks (pf_pool s) \<union> {task_at s a} \<subseteq> queued_tasks (popped w (task_at s a) d (pf_pool s))"
  proof
    fix t
    assume t: "t \<in> queued_tasks (pf_pool s) \<union> {task_at s a}"
    have x: "?x \<in> set ((threads (pf_pool s))[w := ?x])" using assms(2) by (rule set_update_memI)
    consider v where "v < length (threads (pf_pool s))" "v \<noteq> w" "t \<in> set (work_queue (threads (pf_pool s) ! v))"
      | "t \<in> set (work_queue ?x)"
      using t by (force simp: queued_tasks_def in_set_conv_nth)
    then show "t \<in> queued_tasks (popped w (task_at s a) d (pf_pool s))"
    proof cases
      case (1 v)
      then have "threads (pf_pool s) ! v \<in> set ((threads (pf_pool s))[w := ?x])"
        by (metis length_list_update nth_list_update_neq nth_mem)
      then show ?thesis unfolding queued_tasks_def thr using 1(3) by blast
    next
      case 2
      then show ?thesis unfolding queued_tasks_def thr using x by blast
    qed
  qed
  then show ?thesis using assms(1) by (auto simp: places_def task_at_def)
qed

text \<open>The other steps of a delivery leave the tasks where they are.\<close>

lemma places_same:
  "pf_pool s' = pf_pool s \<Longrightarrow> raw s' = raw s \<Longrightarrow> word_queue s' = word_queue s \<Longrightarrow> places s' = places s"
  by (simp add: places_def task_at_def [abs_def])

lemma places_wait:
  assumes "platform_enabled K (WaitReturns w) s"
  shows "places (wait_returns w s) = places s"
proof -
  have "work_queue (threads (pf_pool (wait_returns w s)) ! v) = work_queue (threads (pf_pool s) ! v)" for v
    using assms by (cases "v = w") (auto simp: wait_returns_def set_thread_def)
  moreover have "length (threads (pf_pool (wait_returns w s))) = length (threads (pf_pool s))"
    by (simp add: wait_returns_def set_thread_def)
  ultimately have "queued_tasks (pf_pool (wait_returns w s)) = queued_tasks (pf_pool s)"
    unfolding queued_tasks_def set_conv_nth [of "threads _"] by auto
  then show ?thesis by (simp add: places_def) (simp add: wait_returns_def task_at_def)
qed

subsection \<open>Each step brings the words nearer\<close>

lemma write_nearer:
  assumes "write_remote K i s = (r, s')" and "r \<noteq> ProcessExits" and "i < length (writing s)" and "serves w s"
  shows "nearer w s s' \<and> pf_pool s' = pf_pool s"
proof -
  obtain k where s': "s' = s\<lparr>writing := take i (writing s) @ drop (Suc i) (writing s), efd := k\<rparr>"
    using assms(1,2) by (auto simp: write_remote_def Let_def worker_panics_def split: sum.splits option.splits)
      (metis platform.surjective platform.update_convs(4,6))+
  have "places s' = places s" by (rule places_same) (simp_all add: s')
  moreover have "writing s \<noteq> []" using assms(3) by auto
  ultimately show ?thesis using assms(3,4) by (simp add: s' nearer_def delivery_distance_def serves_def)
qed

lemma wait_nearer:
  assumes "handler_ok K s" and "platform_enabled K (WaitReturns v) s" and "serves w s"
  shows "nearer w s (wait_returns v s)"
proof -
  have "at_event s = Map.empty" using assms(1,2) by (simp add: handler_ok_def)
  then have "at_event (wait_returns v s) = [v \<mapsto> GotEvent]" by (simp add: wait_returns_def)
  moreover have "serves w (wait_returns v s)"
    using assms(2,3) by (cases "v = w") (auto simp: serves_def wait_returns_def set_thread_def)
  ultimately show ?thesis
    using assms(2) places_wait [OF assms(2)] by (simp add: nearer_def delivery_distance_def) (simp add: wait_returns_def)
qed

lemma read_nearer:
  assumes "eventfd_ok K" and "handler_ok K s" and "at_event s v = Some GotEvent" and "read_event K v s = (r, s')"
    and "serves w s"
  shows "nearer w s s' \<and> pf_pool s' = pf_pool s \<and> r = Continues"
proof -
  obtain d where h: "\<not> event_armed s" "at_event s = [v \<mapsto> GotEvent]" "ef_ready K (efd s)"
    using assms(2,3) by (auto elim!: handler_okE)
  then obtain k where "ef_read K (efd s) = Inr (1, k)" using assms(1) by (auto simp: eventfd_ok_def)
  then have s': "s' = s\<lparr>efd := k, at_event := [v \<mapsto> Draining]\<rparr>" "r = Continues"
    using assms(4) h(2) by (simp_all add: read_event_def)
  have "places s' = places s" by (rule places_same) (simp_all add: s')
  then show ?thesis using h assms(5) by (auto simp: s' nearer_def delivery_distance_def serves_def split: if_splits)
qed

lemma pop_nearer:
  assumes "handler_ok K s" and "at_event s v = Some Draining" and "pop_event v s = (r, s')" and "serves w s"
    and "word_queue s \<noteq> []"
  shows "nearer w s s' \<and> tasks (pf_pool s') = tasks (pf_pool s) \<and>
    process_exited (pf_pool s') = process_exited (pf_pool s) \<and> r = Continues"
proof -
  obtain d where h: "\<not> event_armed s" "at_event s = [v \<mapsto> Draining]" "v < length (threads (pf_pool s))"
    "wpc (threads (pf_pool s) ! v) = Turning d True"
    using assms(1,2) by (auto elim!: handler_okE)
  obtain a as where q: "word_queue s = a # as" using assms(5) by (cases "word_queue s") auto
  have s': "s' = s\<lparr>pf_pool := popped v (task_at s a) d (pf_pool s), word_queue := as\<rparr>" "r = Continues"
    using pop_event_Cons [OF q h(4)] assms(3) by simp_all
  have "serves w s'"
    using h assms(4) by (cases "v = w") (auto simp: s' serves_def popped_def set_thread_def)
  moreover have "places s \<subseteq> places s'" unfolding s'(1) by (rule places_popped [OF q h(3)])
  moreover have "Suc (delivery_distance s') = delivery_distance s" using h(1,2) q by (simp add: s' delivery_distance_def)
  ultimately show ?thesis by (simp add: nearer_def s' popped_def set_thread_def)
qed

lemma rearm_nearer:
  assumes "handler_ok K s" and "at_event s v = Some Rearming" and "rearm_remote v True s = (r, s')" and "serves w s"
  shows "nearer w s s' \<and> pf_pool s' = pf_pool s \<and> r = Continues"
proof -
  have h: "\<not> event_armed s" "at_event s = [v \<mapsto> Rearming]"
    using assms(1,2) by (auto elim!: handler_okE)
  have s': "s' = s\<lparr>event_armed := True, at_event := Map.empty\<rparr>" "r = Continues"
    using assms(3) h(2) by (simp_all add: rearm_remote_def)
  have "places s' = places s" by (rule places_same) (simp_all add: s')
  then show ?thesis using h assms(4) by (auto simp: s' nearer_def delivery_distance_def serves_def split: if_splits)
qed

text \<open>Two of them may end the process: a write that fails on a worker, and a failed re-arming of the event.\<close>

lemma delivers_nearer:
  assumes "eventfd_ok K" and inv: "platform_inv K s" and w: "serves w s" and q: "word_queue s \<noteq> []"
    and en: "platform_enabled K a s" and res: "platform_perform K a s = (r, s')" and a: "delivers a"
  shows "if goes_on a r
    then nearer w s s' \<and> tasks (pf_pool s') = tasks (pf_pool s) \<and>
      process_exited (pf_pool s') = process_exited (pf_pool s)
    else r = ProcessExits \<and>
      ((\<exists>i v e. a = WriteRemote i \<and> writing s ! i = Some v \<and> ef_write K (efd s) = Inl e) \<or>
       (\<exists>v. a = RearmEvent v False))"
proof -
  have ok: "handler_ok K s" using inv by (simp add: platform_inv_def)
  show ?thesis
  proof (cases a)
    case (WriteRemote i)
    then have w1: "write_remote K i s = (r, s')" "i < length (writing s)" using en res by simp_all
    show ?thesis
    proof (cases "r = ProcessExits")
      case True
      then show ?thesis
        using w1(1) WriteRemote by (simp add: write_remote_def Let_def split: sum.splits option.splits)
    next
      case False
      then show ?thesis using write_nearer [OF w1(1) _ w1(2) w] WriteRemote by simp
    qed
  next
    case (WaitReturns v)
    then show ?thesis using wait_nearer [OF ok _ w, of v] en res by (auto simp: wait_returns_def set_thread_def)
  next
    case (ReadEvent v)
    then show ?thesis using read_nearer [OF assms(1) ok _ _ w, of v r s'] en res by simp
  next
    case (PopEvent v)
    then show ?thesis using pop_nearer [OF ok _ _ w q, of v r s'] en res by simp
  next
    case (RearmEvent v b)
    then have at: "at_event s v = Some Rearming" and res1: "rearm_remote v b s = (r, s')" using en res by simp_all
    show ?thesis
    proof (cases b)
      case True
      then have "rearm_remote v True s = (r, s')" using res1 by simp
      then show ?thesis using rearm_nearer [OF ok at _ w] RearmEvent by simp
    next
      case False
      then show ?thesis using res1 RearmEvent by (simp add: rearm_remote_def handler_panics_def)
    qed
  qed (use a in simp_all)
qed

lemma delivers_enabled:
  assumes inv: "platform_inv K s" and w: "serves w s" and "word_queue s \<noteq> []"
  shows "\<exists>a. delivers a \<and> platform_enabled K a s \<and> (\<forall>v. a \<noteq> RearmEvent v False)"
proof (cases "writing s")
  case (Cons x xs)
  then show ?thesis by (intro exI [of _ "WriteRemote 0"]) simp
next
  case Nil
  have ok: "handler_ok K s" and an: "announced K s" using inv by (simp_all add: platform_inv_def)
  show ?thesis
  proof (cases "event_armed s")
    case True
    then have at: "at_event s = Map.empty" using ok by (simp add: handler_ok_def)
    then have "ef_ready K (efd s)" using an assms(3) Nil by (simp add: announced_def)
    then show ?thesis using True at w by (intro exI [of _ "WaitReturns w"]) (simp add: serves_def)
  next
    case False
    then obtain v pc where "at_event s = [v \<mapsto> pc]" using ok by (auto simp: handler_ok_def)
    then have v: "at_event s v = Some pc" by simp
    show ?thesis
    proof (cases pc)
      case GotEvent
      then show ?thesis using v Nil by (intro exI [of _ "ReadEvent v"]) (simp add: busy_def)
    next
      case Draining
      then show ?thesis using v by (intro exI [of _ "PopEvent v"]) simp
    next
      case Rearming
      then show ?thesis using v by (intro exI [of _ "RearmEvent v True"]) simp
    qed
  qed
qed

text \<open>Once no write is due, the schedules of such steps lead to an empty queue.\<close>

lemma delivered:
  assumes "eventfd_ok K"
  shows "platform_inv K s \<Longrightarrow> healthy s \<Longrightarrow> serves w s \<Longrightarrow> writing s = [] \<Longrightarrow>
    \<exists>as s'. platform_schedule K as s = Some s' \<and> list_all delivers as \<and> word_queue s' = [] \<and> places s \<subseteq> places s'"
proof (induction "delivery_distance s" arbitrary: s rule: less_induct)
  case less
  show ?case
  proof (cases "word_queue s = []")
    case True
    then show ?thesis by (intro exI [of _ "[]"]) simp
  next
    case False
    obtain a where a: "delivers a" "platform_enabled K a s" and ok: "\<And>v. a \<noteq> RearmEvent v False"
      using delivers_enabled [OF less.prems(1,3) False] by blast
    obtain r s1 where res: "platform_perform K a s = (r, s1)" by fastforce
    have on: "goes_on a r" and near: "nearer w s s1" and "healthy s1"
      using delivers_nearer [OF assms less.prems(1,3) False a(2) res a(1)] less.prems(2,4) a(2) ok
      by (auto simp: healthy_def split: if_splits)
    have sched: "platform_schedule K (a # as) s = platform_schedule K as s1" for as
      using a(2) res on \<open>healthy s1\<close> less.prems(2) by (simp add: healthy_def)
    show ?thesis
    proof (cases "word_queue s1 = []")
      case True
      then show ?thesis
        using sched [of "[]"] a(1) near by (intro exI [of _ "[a]"] exI [of _ s1]) (simp add: nearer_def)
    next
      case False
      have "platform_inv K s1"
        using platform_schedule_inv [OF _ assms less.prems(1), of "[a]" s1] sched [of "[]"] by simp
      moreover have "writing s1 = []"
        using a res less.prems(4) by (cases a)
          (auto simp: wait_returns_def read_event_def pop_event_def rearm_remote_def handler_panics_def Let_def
            split: sum.splits if_splits list.splits prod.splits)
      ultimately obtain as s' where "platform_schedule K as s1 = Some s'" "list_all delivers as"
        "word_queue s' = []" "places s1 \<subseteq> places s'"
        using less.hyps [of s1] near False \<open>healthy s1\<close> by (auto simp: nearer_def)
      then show ?thesis
        using sched [of as] a(1) near by (intro exI [of _ "a # as"] exI [of _ s']) (auto simp: nearer_def)
    qed
  qed
qed

subsection \<open>The properties\<close>

lemma platform_healthy:
  assumes "platform_reachable K s" and "eventfd_ok K"
  shows "healthy s"
proof -
  have p: "pool_wf (pool_of s) \<and> tasks_ok (pool_of s) \<and> \<not> process_exited (pool_of s)"
    using pool_reachable_inv [OF platform_pool_reachable [OF assms]] .
  have "c_level c < 2 ^ 64" if "c \<in> set (tasks (pool_of s))" for c
  proof -
    obtain t where "t < length (tasks (pool_of s))" "tasks (pool_of s) ! t = c"
      using \<open>c \<in> set _\<close> by (auto simp: in_set_conv_nth)
    then show ?thesis using p tasks_okD [of "pool_of s" t] by (auto simp: task_inv_def task_of_def Let_def)
  qed
  then show ?thesis using p by (simp add: healthy_def list_all_iff)
qed

text \<open>A schedule of two workers: a thread spawns a future, and worker 0 takes it out of the queue.\<close>

definition spawned_remotely :: "platform_action list" where
  "spawned_remotely = [PushRemote None 4096, PoolAction (go 0), PoolAction (go 0),
     PoolAction (WorkerStep 0 StealEmpty (Inr NotReady))]"

definition spawned_platform :: "nat platform" where
  "spawned_platform = the (platform_schedule linux_eventfd spawned_remotely (new_platform linux_eventfd 2))"

lemmas platform_defs = pool_defs spawned_remotely_def spawned_platform_def new_platform_def push_remote_def
  busy_def task_at_def linux_eventfd_def write_remote_def serves_def

lemma spawned_platform_reachable: "platform_reachable linux_eventfd spawned_platform"
proof -
  have "platform_schedule linux_eventfd spawned_remotely (new_platform linux_eventfd 2) = Some spawned_platform"
    by (simp add: platform_defs)
  then show ?thesis using platform_schedule_reachable platform_reachable.new by blast
qed

lemma spawned_platform_state:
  "word_queue spawned_platform = [4096] \<and> serves 0 spawned_platform \<and> raw spawned_platform 4096 = Some 0 \<and>
   writing spawned_platform = [None] \<and> efd spawned_platform = 0 \<and> event_armed spawned_platform"
  by (simp add: platform_defs)

text \<open>
  C4. A pool over an epoll instance implements the pool: whatever the threads do, and wherever they are between
  the push, the write to the eventfd, the read and the pops, what they make of the pool (its tasks and
  workers, and as posted the tasks whose addresses are in the queue) is a state that the pool reaches; and each
  step is one step of the pool or none.
\<close>

theorem platform_implements_pool:
  assumes "eventfd_ok K" and "platform_reachable K s"
  shows "pool_reachable (pool_of s) \<and>
    (\<forall>a r s'. platform_step K s (a, r) s' \<longrightarrow> goes_on a r \<longrightarrow>
       pool_of s' = pool_of s \<or> (\<exists>b. pool_step (pool_of s) (b, Continues) (pool_of s')))"
  using platform_pool_reachable [OF assms(2,1)] platform_reachable_inv [OF assms(2,1)]
    platform_simulates [OF assms(1)] by blast

theorem platform_implements_pool_witness:
  "pool_reachable (pool_of spawned_platform) \<and> posted (pool_of spawned_platform) = [0]"
  using platform_implements_pool [OF eventfd_ok_linux spawned_platform_reachable] spawned_platform_state
  by (simp add: task_at_def)

text \<open>
  C8. No spawned future is overlooked: while an address is in the queue, a call of \<open>spawn_future\<close> is about to
  write to the eventfd, or a worker is taking addresses out of the queue, or the eventfd is readable and
  the event armed, or in the hands of one worker that has still to read it or to arm it again.  And at most one
  worker is in the handler, which always finds the eventfd readable.
\<close>

theorem spawned_futures_announced:
  assumes "eventfd_ok K" and "platform_reachable K s"
  shows "(word_queue s \<noteq> [] \<longrightarrow> writing s \<noteq> [] \<or> (\<exists>w. at_event s w = Some Draining) \<or>
       ef_ready K (efd s) \<and> (event_armed s \<or> (\<exists>w. at_event s w = Some GotEvent \<or> at_event s w = Some Rearming))) \<and>
    (event_armed s \<longleftrightarrow> (\<forall>w. at_event s w = None)) \<and>
    (\<forall>v w. at_event s v \<noteq> None \<longrightarrow> at_event s w \<noteq> None \<longrightarrow> v = w) \<and>
    (\<forall>w. at_event s w = Some GotEvent \<longrightarrow> ef_ready K (efd s))"
proof -
  have inv: "handler_ok K s" "announced K s"
    using platform_reachable_inv [OF assms(2,1)] by (simp_all add: platform_inv_def)
  show ?thesis
  proof (cases "event_armed s")
    case True
    then show ?thesis using inv by (auto simp: handler_ok_def announced_def)
  next
    case False
    then obtain w pc where w: "at_event s = [w \<mapsto> pc]" "pc = GotEvent \<longrightarrow> ef_ready K (efd s)"
      using inv(1) by (auto simp: handler_ok_def)
    have at: "at_event s v = Some x \<longleftrightarrow> v = w \<and> x = pc" for v x using w(1) by auto
    have one: "at_event s v \<noteq> None \<longleftrightarrow> v = w" for v using w(1) by auto
    have "word_queue s \<noteq> [] \<longrightarrow> writing s \<noteq> [] \<or> (\<exists>w. at_event s w = Some Draining) \<or>
       ef_ready K (efd s) \<and> (\<exists>w. at_event s w = Some GotEvent \<or> at_event s w = Some Rearming)"
      using inv(2) unfolding announced_def at by (cases pc) auto
    then show ?thesis using False w(2) one at by metis
  qed
qed

theorem spawned_futures_announced_witness:
  "word_queue spawned_platform \<noteq> [] \<and> event_armed spawned_platform = (\<forall>w. at_event spawned_platform w = None)"
  using spawned_futures_announced [OF eventfd_ok_linux spawned_platform_reachable] spawned_platform_state by simp

text \<open>
  C12. A spawned future reaches a worker.  While an address is in the queue and one worker waits for events or
  has the event, some write, wait or step of the handler can be taken; each of them takes one off the
  \<open>delivery_distance\<close> (which is 0 only with an empty queue), leaves a worker that serves the queue, and
  each task that was posted or queued is posted or in the work queue of a worker after it.  The
  exceptions are a write that fails in a future or handler of a worker, and an \<open>EPOLL_CTL_MOD\<close> that fails when
  the handler arms the event again: their panics end the process.
\<close>

theorem spawned_futures_reach_worker:
  assumes "eventfd_ok K" and "platform_reachable K s" and "serves w s" and "word_queue s \<noteq> []"
  shows "(\<exists>a r s'. delivers a \<and> platform_step K s (a, r) s') \<and>
    (\<forall>a r s'. delivers a \<longrightarrow> platform_step K s (a, r) s' \<longrightarrow>
       (if goes_on a r then Suc (delivery_distance s') = delivery_distance s \<and>
          (word_queue s' = [] \<or> serves w s') \<and> places s \<subseteq> places s'
        else r = ProcessExits \<and>
          ((\<exists>i v e. a = WriteRemote i \<and> writing s ! i = Some v \<and> ef_write K (efd s) = Inl e) \<or>
           (\<exists>v. a = RearmEvent v False))))"
proof -
  have inv: "platform_inv K s" using platform_reachable_inv [OF assms(2,1)] .
  note near = delivers_nearer [OF assms(1) inv assms(3,4)]
  obtain a r s' where a: "delivers a" "platform_enabled K a s" "platform_perform K a s = (r, s')"
    and ok: "\<And>v. a \<noteq> RearmEvent v False"
    using delivers_enabled [OF inv assms(3,4)] by (metis surj_pair)
  have "tasks (pf_pool s') = tasks (pf_pool s)"
    using near [OF a(2,3,1)] a(3) ok by (auto simp: write_remote_def worker_panics_def Let_def split: if_splits)
  then have "platform_step K s (a, r) s'"
    using platform_healthy [OF assms(2,1)] a by (intro platform_step.step) (simp_all add: healthy_def list_all_iff)
  moreover have "if goes_on a r then Suc (delivery_distance s') = delivery_distance s \<and>
        (word_queue s' = [] \<or> serves w s') \<and> places s \<subseteq> places s'
      else r = ProcessExits \<and>
        ((\<exists>i v e. a = WriteRemote i \<and> writing s ! i = Some v \<and> ef_write K (efd s) = Inl e) \<or>
         (\<exists>v. a = RearmEvent v False))"
    if "delivers a" and "platform_step K s (a, r) s'" for a r s'
  proof -
    have "platform_enabled K a s" "platform_perform K a s = (r, s')"
      using that(2) by (auto elim: platform_stepE)
    from near [OF this that(1)] show ?thesis by (auto simp: nearer_def split: if_splits)
  qed
  ultimately show ?thesis using a(1) by blast
qed

theorem spawned_futures_reach_worker_witness:
  "(\<exists>a r s'. delivers a \<and> platform_step linux_eventfd spawned_platform (a, r) s') \<and>
   delivery_distance spawned_platform = 4"
proof -
  have "serves 0 spawned_platform" "word_queue spawned_platform \<noteq> []" "delivery_distance spawned_platform = 4"
    using spawned_platform_state by (simp_all add: delivery_distance_def)
  then show ?thesis
    using spawned_futures_reach_worker [OF eventfd_ok_linux spawned_platform_reachable] by blast
qed

text \<open>A local task is never posted.\<close>

lemma local_never_posted: "task_reachable k s \<Longrightarrow> k = LocalKind \<Longrightarrow> posted_refs s = 0"
proof (induction rule: task_reachable.induct)
  case (step s a s')
  then show ?case
    by (cases a) (auto simp: LocalTask_notify_def fetch_add_def do_poll_step_def compare_exchange_def goto_def
        return_from_def elim!: task_stepE split: phase.splits sum.splits Async.splits if_splits)
qed (simp add: new_task_def)

text \<open>
  C15. The casts of \<open>handle_remote_spawn\<close> are sound: each word in the queue of the pool's custom event is the
  address of a task that \<open>spawn_future\<close> has made, a global one that is not complete, no two words are the same
  task, and no worker has the task in a queue or polls it: \<open>Arc::from_raw\<close> takes back the one reference that
  \<open>Arc::into_raw\<close> gave up.
\<close>

theorem remote_words_are_tasks:
  assumes "eventfd_ok K" and "platform_reachable K s"
  shows "distinct (map (task_at s) (word_queue s)) \<and>
    (\<forall>a \<in> set (word_queue s). \<exists>t. raw s a = Some t \<and> t < length (tasks (pf_pool s)) \<and>
       c_kind (tasks (pf_pool s) ! t) = GlobalKind \<and> \<not> c_done (tasks (pf_pool s) ! t) \<and>
       (\<forall>x \<in> set (threads (pf_pool s)). t \<notin> set (work_queue x) \<union> set (local_work_queue x) \<and> phases_of t x = []))"
proof -
  let ?p = "pool_of s"
  have reach: "pool_reachable ?p" using platform_pool_reachable [OF assms(2,1)] .
  have one: "posted_refs (task_of t ?p) = 1 \<and> queued (task_of t ?p) = 0 \<and> polls (task_of t ?p) = [] \<and>
      t < length (tasks ?p) \<and> \<not> completed (task_of t ?p)" if t: "t \<in> set (posted ?p)" for t
  proof -
    have "t < length (tasks ?p)"
      using t pool_reachable_inv [OF reach] by (auto simp: pool_wf_def)
    moreover from pool_task_inv [OF reach this] have "task_inv (task_of t ?p)" .
    moreover have "0 < posted_refs (task_of t ?p)"
      using t count_list_0_iff [of "posted ?p" t] by (auto simp: task_of_def Let_def)
    ultimately have o: "owners (task_of t ?p) = 1" "\<not> completed (task_of t ?p)" "0 < posted_refs (task_of t ?p)"
        "t < length (tasks ?p)"
      by (auto simp: task_inv_def owners_def split: if_splits)
    have "posted_refs (task_of t ?p) = 1" "queued (task_of t ?p) = 0" "length (polls (task_of t ?p)) = 0"
      using o(1,3) unfolding owners_def by linarith+
    then show ?thesis using o by simp
  qed
  have "count_list (posted ?p) t \<le> 1" for t
    using one [of t] count_list_0_iff [of "posted ?p" t] by (cases "t \<in> set (posted ?p)") (auto simp: task_of_def Let_def)
  then have "distinct (posted ?p)" by (rule distinct_count_list)
  moreover have "\<exists>t. raw s a = Some t \<and> t < length (tasks (pf_pool s)) \<and>
       c_kind (tasks (pf_pool s) ! t) = GlobalKind \<and> \<not> c_done (tasks (pf_pool s) ! t) \<and>
       (\<forall>x \<in> set (threads (pf_pool s)). t \<notin> set (work_queue x) \<union> set (local_work_queue x) \<and> phases_of t x = [])"
    if a: "a \<in> set (word_queue s)" for a
  proof -
    have "a \<in> dom (raw s)" using a platform_reachable_inv [OF assms(2,1)] by (auto simp: platform_inv_def)
    then obtain t where t: "raw s a = Some t" by blast
    then have "t \<in> set (posted ?p)" using a by (force simp: task_at_def)
    note o = one [OF this]
    moreover have "c_kind (tasks ?p ! t) \<noteq> LocalKind"
      using pool_implements_protocol [OF reach, of t] o local_never_posted by force
    moreover have "queue_refs t x = 0 \<and> phases_of t x = []" if "x \<in> set (threads ?p)" for x
      using o that by (auto simp: task_of_def Let_def)
    ultimately show ?thesis
      using t by (cases "c_kind (tasks ?p ! t)")
        (auto simp: queue_refs_def count_list_0_iff task_of_def Let_def)
  qed
  ultimately show ?thesis by simp
qed

theorem remote_words_are_tasks_witness:
  "\<exists>t. raw spawned_platform 4096 = Some t \<and> c_kind (tasks (pf_pool spawned_platform) ! t) = GlobalKind"
  using remote_words_are_tasks [OF eventfd_ok_linux spawned_platform_reachable] spawned_platform_state by auto

text \<open>An eventfd that takes one write only.\<close>

definition small_eventfd :: "nat eventfd" where
  "small_eventfd = linux_eventfd\<lparr>ef_write := (\<lambda>k. if k < 1 then Inr (k + 1) else Inl eagain)\<rparr>"

lemma eventfd_ok_small: "eventfd_ok small_eventfd"
  by (simp add: eventfd_ok_def small_eventfd_def linux_eventfd_def eagain_def)


definition spawned_twice :: "platform_action list" where
  "spawned_twice = [PushRemote None 4096, WriteRemote 0, PushRemote None 8192, PoolAction (go 0), PoolAction (go 0),
     PoolAction (WorkerStep 0 StealEmpty (Inr NotReady))]"


end
