(* ===== verification/PlatformPool.thy ===== *)
theory PlatformPool
  imports EventRuns RemoteDelivery
begin

text \<open>
  The pool over an epoll instance as a whole, \<open>ThreadPool<Epoll>\<close>: its constructors, its end, and what the
  loop over the queue of its custom event does in the instance (\<open>CustomEvents\<close>) and in the pool (\<open>RemoteSpawn\<close>)
  (\<open>src/src/evloop/threadpool/mod.rs\<close>, \<open>src/src/epoll/mod.rs\<close>).
\<close>

subsection \<open>Constructors\<close>

definition empty_pool :: pool where
  "empty_pool = \<lparr>active = True, workers = [], threads = [], tasks = [], pool.posted = [], process_exited = False\<rparr>"

text \<open>
  The loop that creates the workers, with the lock on \<open>workers\<close> held; \<open>creates i\<close>: whether the system creates
  the thread.  \<open>False\<close>: the \<open>expect("failed to create worker thread")\<close> of worker \<open>i\<close>; those before it run.
\<close>

fun run_workers :: "(nat \<Rightarrow> bool) \<Rightarrow> nat \<Rightarrow> nat \<Rightarrow> pool \<Rightarrow> bool \<times> pool" where
  "run_workers creates i 0 p = (True, p)"
| "run_workers creates i (Suc n) p =
     (if creates i then run_workers creates (Suc i) n
        (p\<lparr>workers := workers p @ [i], threads := threads p @ [new_worker]\<rparr>)
      else (False, p))"

text \<open>
  When \<open>new_custom_event\<close> fails the handler and then \<open>inner\<close> are dropped, and with them the \<open>Epoll\<close>.  A panic
  leaves the pool as it is: its handler and its workers hold references to it.
\<close>

definition ThreadPool_with_concurrency ::
  "env \<Rightarrow> (nat \<Rightarrow> bool) \<Rightarrow> nat \<Rightarrow> epoll \<Rightarrow> outcome \<times> (io_error + event_tag \<times> pool) \<times> epoll" where
  "ThreadPool_with_concurrency E creates n s =
     (case new_custom_event E s of
        (Inl e, s1) \<Rightarrow> (Continues, Inl e, drop_inner E s1)
      | (Inr tag, s1) \<Rightarrow>
          (let (ok, p) = run_workers creates 0 n empty_pool
           in (if ok then Continues else ThreadPanics, Inr (tag, p), s1)))"

definition ThreadPool_new ::
  "env \<Rightarrow> (nat \<Rightarrow> bool) \<Rightarrow> nat \<Rightarrow> epoll \<Rightarrow> outcome \<times> (io_error + event_tag \<times> pool) \<times> epoll" where
  "ThreadPool_new E creates num_cpus s = ThreadPool_with_concurrency E creates num_cpus s"

definition platform_default_with_concurrency ::
  "env \<Rightarrow> (nat \<Rightarrow> bool) \<Rightarrow> nat \<Rightarrow> trace \<Rightarrow> io_error + outcome \<times> (io_error + event_tag \<times> pool) \<times> epoll" where
  "platform_default_with_concurrency E creates n tr =
     (case Epoll_new E tr of
        Inl e \<Rightarrow> Inl e
      | Inr s \<Rightarrow> Inr (ThreadPool_with_concurrency E creates n s))"

definition platform_default ::
  "env \<Rightarrow> (nat \<Rightarrow> bool) \<Rightarrow> nat \<Rightarrow> trace \<Rightarrow> io_error + outcome \<times> (io_error + event_tag \<times> pool) \<times> epoll" where
  "platform_default E creates num_cpus tr = platform_default_with_concurrency E creates num_cpus tr"

subsection \<open>The end of a pool\<close>

definition ThreadPool_drop :: "pool \<Rightarrow> pool" where
  "ThreadPool_drop p = begin_shutdown p"

text \<open>\<open>stop\<close> panics with \<open>unimplemented!()\<close>, and unwinding drops the pool.\<close>

definition ThreadPool_stop :: "pool \<Rightarrow> outcome \<times> pool" where
  "ThreadPool_stop p = (ThreadPanics, ThreadPool_drop (begin_shutdown p))"

text \<open>The other operations that are not implemented; \<open>by\<close>: the worker whose future or handler calls, if any.\<close>

definition unimplemented :: "nat option \<Rightarrow> pool \<Rightarrow> outcome \<times> pool" where
  "unimplemented by p = (case by of None \<Rightarrow> (ThreadPanics, p) | Some _ \<Rightarrow> worker_panics p)"

definition ThreadPool_run_future :: "nat option \<Rightarrow> pool \<Rightarrow> outcome \<times> pool" where
  "ThreadPool_run_future by p = unimplemented by p"

definition spawn_locked :: "nat option \<Rightarrow> pool \<Rightarrow> outcome \<times> pool" where
  "spawn_locked by p = unimplemented by p"

subsection \<open>What the constructors make\<close>

lemma run_workers_all:
  "\<forall>j < n. creates (i + j) \<Longrightarrow> run_workers creates i n p =
   (True, p\<lparr>workers := workers p @ [i..<i + n], threads := threads p @ replicate n new_worker\<rparr>)"
proof (induction n arbitrary: i p)
  case (Suc n)
  have "creates i" "\<forall>j < n. creates (Suc i + j)" using Suc.prems by force+
  then show ?case using Suc.IH [of "Suc i"] by (simp add: upt_conv_Cons)
qed simp

lemma run_workers_fails:
  "k < n \<Longrightarrow> \<forall>j < k. creates (i + j) \<Longrightarrow> \<not> creates (i + k) \<Longrightarrow> run_workers creates i n p =
   (False, p\<lparr>workers := workers p @ [i..<i + k], threads := threads p @ replicate k new_worker\<rparr>)"
proof (induction n arbitrary: i k p)
  case (Suc n)
  show ?case
  proof (cases k)
    case 0
    then show ?thesis using Suc.prems by simp
  next
    case (Suc m)
    have "creates i" "\<forall>j < m. creates (Suc i + j)" using Suc.prems(2) Suc by force+
    then show ?thesis using Suc.IH [of m "Suc i"] Suc.prems Suc by (simp add: upt_conv_Cons)
  qed
qed simp

text \<open>All threads are created and there is the pool of \<open>ThreadPool\<close>, or the first that is not ends it there.\<close>

lemma run_workers_cases:
  obtains "\<forall>i < n. creates i" "run_workers creates 0 n empty_pool = (True, with_concurrency n)"
  | k where "k < n" "\<forall>i < k. creates i" "\<not> creates k" "run_workers creates 0 n empty_pool = (False, with_concurrency k)"
proof (cases "\<forall>i < n. creates i")
  case True
  then show ?thesis
    using that(1) run_workers_all [of n creates 0 empty_pool] by (simp add: empty_pool_def with_concurrency_def)
next
  case False
  define k where "k = (LEAST i. \<not> creates i)"
  from False obtain i where i: "i < n" "\<not> creates i" by blast
  have k: "\<not> creates k" "\<forall>i < k. creates i"
    using LeastI [of "\<lambda>i. \<not> creates i", OF i(2)] not_less_Least unfolding k_def by blast+
  have "k \<le> i" using i(2) unfolding k_def by (rule Least_le)
  then have "k < n" using i(1) by simp
  then show ?thesis
    using that(2) k run_workers_fails [of k n creates 0 empty_pool] by (simp add: empty_pool_def with_concurrency_def)
qed

lemma Epoll_new_fields:
  "Epoll_new E [] = Inr s \<Longrightarrow> trace s = [(EpollCreate1, True)] \<and> inner_refs s = 1 \<and> reg_inv s"
  using Epoll_new_reg_inv by (auto simp: Epoll_new_def split: sum.splits)

text \<open>
  C18. A pool over a new epoll instance is what \<open>ThreadPool\<close>, \<open>RemoteSpawn\<close> and the theories of the instance start
  from: the instance is one its operations reach, the tag of the custom event can be posted to, its queue is
  empty and the kernel watches its eventfd, once; and there are \<open>n\<close> workers.  If the system does not create
  thread \<open>k\<close> the constructor panics, and the workers created before it run on, in a pool that is active and that
  nobody can shut down.
\<close>

theorem pool_creation:
  assumes "platform_default_with_concurrency E creates n [] = Inr (r, Inr (tag, p), s)"
  shows "epoll_reachable E (1, s) \<and> tag_epoll_fd tag = epfd s \<and> seg_contents (tag_ptr tag) (trace s) = [] \<and>
    (\<exists>ce. events s (tag_ptr tag) = Some ce \<and> armed (ce_registration ce) (trace s) = Some (READ E OR ONE_SHOT E)) \<and>
    (if \<forall>i < n. creates i then r = Continues \<and> p = with_concurrency n
     else r = ThreadPanics \<and> (\<exists>k < n. \<not> creates k \<and> p = with_concurrency k))"
proof -
  obtain s0 where s0: "Epoll_new E [] = Inr s0"
    and new: "new_custom_event E s0 = (Inr tag, s)"
    and res: "r = (if fst (run_workers creates 0 n empty_pool) then Continues else ThreadPanics)"
      "p = snd (run_workers creates 0 n empty_pool)"
    using assms by (auto simp: platform_default_with_concurrency_def ThreadPool_with_concurrency_def Let_def
        split: sum.splits prod.splits)
  have "epoll_reachable E (1, s)"
    using epoll_reachable.Step [OF epoll_reachable.Init [OF s0] epoll_step.NewCustomEvent [OF _ new]] by simp
  moreover have "tag_epoll_fd tag = epfd s \<and> seg_contents (tag_ptr tag) (trace s) = [] \<and>
    (\<exists>ce. events s (tag_ptr tag) = Some ce \<and> armed (ce_registration ce) (trace s) = Some (READ E OR ONE_SHOT E))"
    using new Epoll_new_fields [OF s0]
    by (auto simp: new_custom_event_def register_fd_raw_def sys_def Let_def drop_inner_def handle_def
        seg_contents_def armed_def asked_def kernel_table_def ran_def split: sum.splits)
  moreover have "if \<forall>i < n. creates i then r = Continues \<and> p = with_concurrency n
     else r = ThreadPanics \<and> (\<exists>k < n. \<not> creates k \<and> p = with_concurrency k)"
    by (rule run_workers_cases [of n creates]) (auto simp: res)
  ultimately show ?thesis by blast
qed

theorem pool_creation_witness:
  "\<exists>tag p s. platform_default_with_concurrency linux (\<lambda>i. i \<noteq> 2) 4 [] = Inr (ThreadPanics, Inr (tag, p), s) \<and>
     epoll_reachable linux (1, s) \<and> p = with_concurrency 2"
proof -
  have "run_workers (\<lambda>i. i \<noteq> 2) 0 4 empty_pool = (False, with_concurrency 2)"
    using run_workers_fails [of 2 4 "\<lambda>i. i \<noteq> 2" 0 empty_pool]
    by (simp add: empty_pool_def with_concurrency_def upt_rec)
  then obtain tag s where
    made: "platform_default_with_concurrency linux (\<lambda>i. i \<noteq> 2) 4 [] = Inr (ThreadPanics, Inr (tag, with_concurrency 2), s)"
    by (simp add: platform_default_with_concurrency_def ThreadPool_with_concurrency_def Epoll_new_def linux_def
        new_custom_event_def register_fd_raw_def sys_def handle_def Let_def)
  then show ?thesis using pool_creation [OF made] by blast
qed

text \<open>
  C36. A constructor that fails with an error has made no pool: if the eventfd cannot be made the instance is
  closed; if it cannot be registered, the instance and the eventfd both stay open for ever.
\<close>

theorem pool_creation_error:
  assumes "platform_default_with_concurrency E creates n [] = Inr (r, Inl e, s)"
  shows "r = Continues \<and>
    ((\<exists>ok. trace s = [(EpollCreate1, True), (CreateEventfd, False), (CloseFd (epfd s), ok)] \<and> inner_refs s = 0) \<or>
     (\<exists>fd d. trace s = [(EpollCreate1, True), (CreateEventfd, True), (EpollCtl (epfd s) EPOLL_CTL_ADD fd d, False)] \<and>
        inner_refs s = 1))"
proof -
  obtain s0 s1 where s0: "Epoll_new E [] = Inr s0" and new: "new_custom_event E s0 = (Inl e, s1)"
    and res: "r = Continues" "s = drop_inner E s1"
    using assms by (auto simp: platform_default_with_concurrency_def ThreadPool_with_concurrency_def Let_def
        split: sum.splits prod.splits)
  then show ?thesis
    using new Epoll_new_fields [OF s0]
    by (auto simp: new_custom_event_def register_fd_raw_def sys_def Let_def drop_inner_def handle_def split: sum.splits)
qed

text \<open>A system that has no descriptors left for an eventfd, and one that does not register it.\<close>

definition out_of_memory :: io_error where
  "out_of_memory = \<lparr>kind = OtherKind, raw_os_error = Some 12\<rparr>"

definition linux_full :: env where
  "linux_full = linux\<lparr>os_int := (\<lambda>_ c. case c of EpollCtl _ _ _ _ \<Rightarrow> Inl out_of_memory | _ \<Rightarrow> Inr (linux_int c))\<rparr>"

theorem pool_creation_error_witness:
  "\<exists>r e s. platform_default_with_concurrency linux_full (\<lambda>i. True) 4 [] = Inr (r, Inl e, s) \<and> r = Continues"
proof -
  obtain r e s where made: "platform_default_with_concurrency linux_full (\<lambda>i. True) 4 [] = Inr (r, Inl e, s)"
    by (simp add: platform_default_with_concurrency_def ThreadPool_with_concurrency_def Epoll_new_def linux_full_def linux_def
        new_custom_event_def register_fd_raw_def sys_def handle_def Let_def)
  then show ?thesis using pool_creation_error [OF made] by blast
qed

subsection \<open>The loop over the queue, twice\<close>

lemma schedule_step:
  assumes "platform_enabled K a s" and "healthy s" and "platform_perform K a s = (Continues, s')"
    and "process_exited (pf_pool s') = process_exited (pf_pool s)" and "tasks (pf_pool s') = tasks (pf_pool s)"
  shows "platform_schedule K (a # as) s = platform_schedule K as s' \<and> healthy s'"
proof -
  have "goes_on a Continues" by (cases a) simp_all
  then show ?thesis using assms by (simp add: healthy_def)
qed

lemma pops_run:
  "healthy s \<Longrightarrow> at_event s w = Some Draining \<Longrightarrow> w < length (threads (pf_pool s)) \<Longrightarrow>
   wpc (threads (pf_pool s) ! w) = Turning d True \<Longrightarrow>
   \<exists>s'. platform_schedule K (replicate (Suc (length (word_queue s))) (PopEvent w)) s = Some s' \<and> word_queue s' = [] \<and>
     at_event s' w = Some Rearming \<and>
     work_queue (threads (pf_pool s') ! w) = work_queue (threads (pf_pool s) ! w) @ map (task_at s) (word_queue s)"
proof (induction "word_queue s" arbitrary: s)
  case Nil
  let ?s = "s\<lparr>at_event := (at_event s)(w \<mapsto> Rearming)\<rparr>"
  have "pop_event w s = (Continues, ?s)" using Nil.hyps by (simp add: pop_event_def)
  then have "platform_schedule K [PopEvent w] s = Some ?s"
    using schedule_step [of K "PopEvent w" s ?s "[]"] Nil.prems by simp
  then show ?case using Nil.hyps by (intro exI [of _ ?s]) simp
next
  case (Cons a as)
  have q: "word_queue s = a # as" using Cons.hyps(2) by simp
  let ?s = "s\<lparr>pf_pool := popped w (task_at s a) d (pf_pool s), word_queue := as\<rparr>"
  have pop: "pop_event w s = (Continues, ?s)" using q Cons.prems(4) by (rule pop_event_Cons)
  have step: "platform_schedule K (PopEvent w # bs) s = platform_schedule K bs ?s \<and> healthy ?s" for bs
    using Cons.prems pop by (intro schedule_step) (simp_all add: popped_def set_thread_def)
  have thr: "work_queue (threads (pf_pool ?s) ! w) = work_queue (threads (pf_pool s) ! w) @ [task_at s a]"
    "wpc (threads (pf_pool ?s) ! w) = Turning d True" "w < length (threads (pf_pool ?s))"
    using Cons.prems(3) by (simp_all add: popped_def set_thread_def)
  obtain s' where s': "platform_schedule K (replicate (Suc (length as)) (PopEvent w)) ?s = Some s'"
    "word_queue s' = []" "at_event s' w = Some Rearming"
    "work_queue (threads (pf_pool s') ! w) = work_queue (threads (pf_pool ?s) ! w) @ map (task_at ?s) as"
    using Cons.hyps(1) [of ?s] step [THEN conjunct2] thr(2,3) Cons.prems(2) by auto
  have "map (task_at ?s) as = map (task_at s) as" by (simp add: task_at_def)
  moreover have "platform_schedule K (replicate (Suc (length (word_queue s))) (PopEvent w)) s =
      platform_schedule K (replicate (Suc (length as)) (PopEvent w)) ?s"
    using step by (simp add: q)
  ultimately show ?case using s' thr(1) q by (intro exI [of _ s']) simp
qed

text \<open>
  C19. The loop \<open>while let Some(data) = custom_event.queue.try_pop()\<close> is modelled in the instance, as a function
  on its trace, and in the pool, as steps of a worker, and they agree: from the same queue both
  empty it, and the words that the instance hands to the handler, in order, are the tasks that are then at the
  end of the worker's queue.
\<close>

theorem drain_agrees:
  assumes "seg_queue_ok E" and "eventfd_ok K" and "platform_reachable K st" and "at_event st w = Some Draining"
    and "word_queue st = seg_contents p (trace s)"
  shows "\<exists>s' st'. drain E p tag s = Some s' \<and>
    platform_schedule K (replicate (Suc (length (word_queue st))) (PopEvent w)) st = Some st' \<and>
    word_queue st' = [] \<and> seg_contents p (trace s') = [] \<and> at_event st' w = Some Rearming \<and>
    handled p (trace s') = handled p (trace s) @ word_queue st \<and>
    work_queue (threads (pf_pool st') ! w) = work_queue (threads (pf_pool st) ! w) @ map (task_at st) (word_queue st)"
proof -
  let ?s = "s\<lparr>trace := trace s @ drain_trace p tag (seg_contents p (trace s))\<rparr>"
  have "drain E p tag s = Some ?s" using drain_total [OF assms(1) HOL.refl] .
  moreover have "seg_contents p (trace ?s) = []" "handled p (trace ?s) = handled p (trace s) @ word_queue st"
    using seg_contents_drain assms(5) by simp_all
  moreover have "handler_ok K st" using platform_reachable_inv [OF assms(3,2)] by (simp add: platform_inv_def)
  then obtain d where "w < length (threads (pf_pool st))" "wpc (threads (pf_pool st) ! w) = Turning d True"
    using assms(4) by (rule handler_okE)
  then obtain st' where "platform_schedule K (replicate (Suc (length (word_queue st))) (PopEvent w)) st = Some st'"
    "word_queue st' = []" "at_event st' w = Some Rearming"
    "work_queue (threads (pf_pool st') ! w) = work_queue (threads (pf_pool st) ! w) @ map (task_at st) (word_queue st)"
    using pops_run [OF platform_healthy [OF assms(3,2)] assms(4)] by blast
  ultimately show ?thesis by metis
qed

text \<open>Worker 0 has read the eventfd, and an instance with the same queue.\<close>

definition draining_schedule :: "platform_action list" where
  "draining_schedule = spawned_remotely @ [WriteRemote 0, WaitReturns 0, ReadEvent 0]"

theorem drain_agrees_witness:
  "\<exists>s s' (st :: nat platform). drain linux 7 \<lparr>tag_ptr = 7, tag_epoll_fd = 3\<rparr> s = Some s' \<and> word_queue st = [4096] \<and>
     at_event st 0 = Some Draining \<and> seg_contents 7 (trace s') = [] \<and> handled 7 (trace s') = [4096]"
proof -
  obtain st where st: "platform_schedule linux_eventfd draining_schedule (new_platform linux_eventfd 2) = Some st"
    "at_event st 0 = Some Draining" "word_queue st = [4096]"
    by (simp add: draining_schedule_def platform_defs wait_returns_def read_event_def)
  then have reach: "platform_reachable linux_eventfd st"
    using platform_schedule_reachable platform_reachable.new by blast
  obtain s0 :: epoll where "Epoll_new linux [] = Inr s0" by (simp add: Epoll_new_def linux_def)
  define s where "s = s0\<lparr>trace := [(SegPush 7 4096, True)]\<rparr>"
  have "word_queue st = seg_contents 7 (trace s)" "handled 7 (trace s) = []"
    using st(3) by (simp_all add: s_def seg_contents_def handled_def)
  then obtain s' where "drain linux 7 \<lparr>tag_ptr = 7, tag_epoll_fd = 3\<rparr> s = Some s'" "seg_contents 7 (trace s') = []"
    "handled 7 (trace s') = handled 7 (trace s) @ word_queue st"
    using drain_agrees [OF seg_queue_ok_linux eventfd_ok_linux reach st(2), of 7 s] by blast
  then show ?thesis using st(2,3) \<open>handled 7 (trace s) = []\<close> by auto
qed

end
