(* ===== verification/Iocp.thy ===== *)
theory Iocp
  imports Environment
begin

text \<open>
  The completion port of the Windows backend (\<open>src/src/iocp/mod.rs\<close>) as it is written: the port with its
  table of custom events, and the overlapped tasks that operations of the kernel hold a reference to.

  The functions of \<open>miow\<close>, \<open>winapi\<close>, \<open>kernel32\<close> and \<open>ws2_32\<close> are not in the repository: the record \<open>wenv\<close> has
  them, as functions of the trace of all calls, and \<open>winapi\<close>'s constants.
\<close>

subsection \<open>Calls that leave the program\<close>

type_synonym socket = int

datatype overlapped_op =
    OpAccept socket
  | OpConnect sockaddr
  | OpRead
  | OpWrite
  | OpRecvFrom
  | OpSendTo sockaddr

text \<open>
  \<open>Submit\<close> starts an overlapped operation with the memory it uses; \<open>ReadInternal\<close> reads the status the
  kernel keeps in the \<open>OVERLAPPED\<close>, and succeeds when it is no longer \<open>STATUS_PENDING\<close>; \<open>Dequeued\<close> is a
  packet that the port has returned.
\<close>

datatype wcall =
    CreatePort u32
  | ClosePort
  | AddSocket socket
  | PostStatus addr usize
  | GetQueuedStatus u32
  | Dequeued addr nat
  | Submit overlapped_op socket addr "addr list"
  | ReadInternal addr
  | GetOverlappedResult socket addr
  | CancelIoEx socket addr
  | RegisterTask addr task
  | NotifyTask addr
  | CallHandler addr usize
  | CloseSocket socket
  | IsIpv4 socket
  | GetV6Only socket
  | NewTcp bool
  | BindAny socket
  | AcceptComplete socket socket
  | ConnectComplete socket
  | ParseAddrs addr socket
  | ConnectUdp socket sockaddr

type_synonym wtrace = "(wcall \<times> bool) list"

record wenv =
  w_call :: "wtrace \<Rightarrow> wcall \<Rightarrow> io_error + int"
  w_submit :: "wtrace \<Rightarrow> wcall \<Rightarrow> io_error + nat option"
  w_status :: "wtrace \<Rightarrow> addr \<Rightarrow> i32"
  w_result :: "wtrace \<Rightarrow> wcall \<Rightarrow> io_error + nat \<times> u32"
  w_wait :: "wtrace \<Rightarrow> wcall \<Rightarrow> u32 + (addr \<times> nat) list"
  w_addr :: "wtrace \<Rightarrow> addr \<Rightarrow> sockaddr option"
  is_ipv4 :: "sockaddr \<Rightarrow> bool"
  STATUS_PENDING :: i32
  WAIT_TIMEOUT :: u32
  WAIT_IO_COMPLETION :: u32
  INFINITE :: u32

subsection \<open>State\<close>

datatype ip_version = V4Only | V6Only | DualStack

record wsock =
  wrefs :: nat
  raw :: socket
  ip_version :: "ip_version option"

text \<open>
  \<open>port_refs\<close> counts the \<open>Arc<Inner>\<close>s, \<open>event_table\<close> has the addresses of the boxed handlers, \<open>cells\<close> the
  count of each allocated \<open>_OverlappedTask\<close>, \<open>bufs\<close> the heap memory that buffers own.
\<close>

record iocp =
  wtrace :: wtrace
  port :: int
  port_refs :: nat
  event_table :: "addr list"
  cells :: "addr \<rightharpoonup> nat"
  bufs :: "addr \<rightharpoonup> u8 list"
  wsocks :: "nat \<rightharpoonup> wsock"
  wfresh :: addr

definition wemit :: "wcall \<Rightarrow> iocp \<Rightarrow> iocp" where
  "wemit c s = s\<lparr>wtrace := wtrace s @ [(c, True)]\<rparr>"

definition wsys :: "wenv \<Rightarrow> wcall \<Rightarrow> iocp \<Rightarrow> (io_error + int) \<times> iocp" where
  "wsys E c s = (let r = w_call E (wtrace s) c in (r, s\<lparr>wtrace := wtrace s @ [(c, is_ok r)]\<rparr>))"

subsection \<open>The port and its events\<close>

text \<open>The first address is that of a word: no box is at the address that is the token of the futures.\<close>

definition CompletionPort_new :: "wenv \<Rightarrow> u32 \<Rightarrow> io_error + iocp" where
  "CompletionPort_new E max_concurrency =
     (case w_call E [] (CreatePort max_concurrency) of
        Inl e \<Rightarrow> Inl e
      | Inr h \<Rightarrow> Inr \<lparr>wtrace = [(CreatePort max_concurrency, True)], port = h, port_refs = 1,
          event_table = [], cells = Map.empty, bufs = Map.empty, wsocks = Map.empty, wfresh = 8\<rparr>)"

definition CompletionPort_handle :: "iocp \<Rightarrow> iocp" where
  "CompletionPort_handle s = s\<lparr>port_refs := port_refs s + 1\<rparr>"

definition drop_port :: "iocp \<Rightarrow> iocp" where
  "drop_port s =
     (let s1 = s\<lparr>port_refs := port_refs s - 1\<rparr> in if port_refs s1 = 0 then wemit ClosePort s1 else s1)"

record wtag =
  callback_ptr :: addr
  iocp_id :: int

definition new_custom_event_iocp :: "iocp \<Rightarrow> wtag \<times> iocp" where
  "new_custom_event_iocp s =
     (let p = wfresh s
      in (\<lparr>callback_ptr = p, iocp_id = port s\<rparr>,
          s\<lparr>wfresh := p + 1, event_table := event_table s @ [p]\<rparr>))"

definition add_socket :: "wenv \<Rightarrow> socket \<Rightarrow> iocp \<Rightarrow> (io_error + int) \<times> iocp" where
  "add_socket E fd s = wsys E (AddSocket fd) s"

definition post_custom_event_iocp :: "wenv \<Rightarrow> wtag \<Rightarrow> usize \<Rightarrow> iocp \<Rightarrow> ((io_error + int) \<times> iocp) rust" where
  "post_custom_event_iocp E tag d s =
     (if iocp_id tag \<noteq> port s then Panic else Val (wsys E (PostStatus (callback_ptr tag) d) s))"

subsection \<open>Overlapped tasks\<close>

definition task_clone :: "addr \<Rightarrow> iocp \<Rightarrow> iocp" where
  "task_clone a s = s\<lparr>cells := (cells s)(a := map_option (\<lambda>n. n + 1) (cells s a))\<rparr>"

definition task_drop :: "addr \<Rightarrow> iocp \<Rightarrow> iocp" where
  "task_drop a s = s\<lparr>cells := (cells s)(a := (case cells s a of
     None \<Rightarrow> None | Some n \<Rightarrow> if n = 1 then None else Some (n - 1)))\<rparr>"

definition register_iocp :: "addr \<Rightarrow> task \<Rightarrow> iocp \<Rightarrow> iocp" where
  "register_iocp a t s = wemit (RegisterTask a t) s"

definition OverlappedTask_new :: "task \<Rightarrow> iocp \<Rightarrow> addr \<times> iocp" where
  "OverlappedTask_new t s =
     (let a = wfresh s in (a, register_iocp a t (s\<lparr>wfresh := a + 1, cells := (cells s)(a \<mapsto> 1)\<rparr>)))"

text \<open>
  The closure of \<open>for_operation\<close> wraps one system call.  When it succeeds the reference is forgotten: it
  is the kernel's, to be taken back when the packet of the operation is dequeued.
\<close>

definition for_operation :: "wenv \<Rightarrow> addr \<Rightarrow> wcall \<Rightarrow> iocp \<Rightarrow> (io_error + nat option) \<times> iocp" where
  "for_operation E a c s =
     (case w_submit E (wtrace s) c of
        Inr r \<Rightarrow> (Inr r, s\<lparr>wtrace := wtrace s @ [(c, True)]\<rparr>)
      | Inl e \<Rightarrow> (Inl e, task_drop a (s\<lparr>wtrace := wtrace s @ [(c, False)]\<rparr>)))"

definition poll_socket :: "wenv \<Rightarrow> socket \<Rightarrow> addr \<Rightarrow> iocp \<Rightarrow> (nat \<times> u32) io_poll \<times> iocp" where
  "poll_socket E fd a s =
     (if w_status E (wtrace s) a = STATUS_PENDING E
      then (Inr NotReady, s\<lparr>wtrace := wtrace s @ [(ReadInternal a, False)]\<rparr>)
      else let s1 = wemit (ReadInternal a) s; r = w_result E (wtrace s1) (GetOverlappedResult fd a);
               s2 = s1\<lparr>wtrace := wtrace s1 @ [(GetOverlappedResult fd a, is_ok r)]\<rparr>
           in (map_sum id Ready r, s2))"

text \<open>On an error the task is handed back to the caller.\<close>

definition cancel_socket :: "wenv \<Rightarrow> socket \<Rightarrow> addr \<Rightarrow> iocp \<Rightarrow> (io_error + unit) \<times> iocp" where
  "cancel_socket E fd a s =
     (case wsys E (CancelIoEx fd a) s of
        (Inl e, s1) \<Rightarrow> (Inl e, s1)
      | (Inr _, s1) \<Rightarrow> (Inr (), task_drop a s1))"

subsection \<open>One turn\<close>

definition FUTURE_NOTIFY_IOCP_TOKEN :: addr where "FUTURE_NOTIFY_IOCP_TOKEN = 1"

definition timeout_iocp :: "wenv \<Rightarrow> bool \<Rightarrow> duration option \<Rightarrow> u32 rust" where
  "timeout_iocp E chk timeout =
     (case timeout of
        None \<Rightarrow> Val (INFINITE E)
      | Some (secs, nanos) \<Rightarrow>
          (case mul_u64 chk secs 1000 of
             Val ms \<Rightarrow> add_u32 chk (ucast ms) (nanos div 1000000)
           | Panic \<Rightarrow> Panic | UB \<Rightarrow> UB))"

text \<open>
  The packet of an overlapped operation gives the reference back; \<open>UB\<close> is an \<open>Arc\<close> made of freed memory,
  or a call through a pointer to no handler.
\<close>

definition complete_one :: "addr \<times> nat \<Rightarrow> iocp \<Rightarrow> iocp rust" where
  "complete_one c s =
     (let (token, overlapped) = c in
      if token = FUTURE_NOTIFY_IOCP_TOKEN
      then case cells s overlapped of
          None \<Rightarrow> UB
        | Some _ \<Rightarrow> Val (task_drop overlapped (wemit (NotifyTask overlapped) s))
      else if token \<in> set (event_table s)
      then Val (wemit (CallHandler token (of_nat overlapped)) s)
      else UB)"

fun complete_all :: "(addr \<times> nat) list \<Rightarrow> iocp \<Rightarrow> iocp rust" where
  "complete_all [] s = Val s"
| "complete_all (c # cs) s =
     (case complete_one c s of Val s1 \<Rightarrow> complete_all cs s1 | Panic \<Rightarrow> Panic | UB \<Rightarrow> UB)"

text \<open>The buffer has room for one packet; the slice of a longer answer panics.\<close>

definition poll_iocp :: "wenv \<Rightarrow> bool \<Rightarrow> duration option \<Rightarrow> iocp \<Rightarrow> ((io_error + nat) \<times> iocp) rust" where
  "poll_iocp E chk timeout s =
     (case timeout_iocp E chk timeout of
        Panic \<Rightarrow> Panic
      | UB \<Rightarrow> UB
      | Val ms \<Rightarrow>
          (case w_wait E (wtrace s) (GetQueuedStatus ms) of
             Inl error \<Rightarrow>
               let s1 = s\<lparr>wtrace := wtrace s @ [(GetQueuedStatus ms, False)]\<rparr> in
               if error = WAIT_TIMEOUT E \<and> timeout \<noteq> None then Val (Inr 0, s1)
               else if error = WAIT_IO_COMPLETION E then Panic
               else Val (Inl \<lparr>kind = OtherKind, raw_os_error = Some (sint error)\<rparr>, s1)
           | Inr cs \<Rightarrow>
               let s1 = s\<lparr>wtrace := wtrace s @ (GetQueuedStatus ms, True) #
                     map (\<lambda>(token, ov). (Dequeued token ov, True)) cs\<rparr> in
               if 1 < length cs then Panic
               else case complete_all cs s1 of
                   Val s2 \<Rightarrow> Val (Inr (length cs), s2)
                 | Panic \<Rightarrow> Panic
                 | UB \<Rightarrow> UB))"

definition turn_iocp :: "wenv \<Rightarrow> bool \<Rightarrow> duration option \<Rightarrow> iocp \<Rightarrow> ((io_error + nat) \<times> iocp) rust" where
  "turn_iocp E chk max_wait s = poll_iocp E chk max_wait s"

end
