(* ===== verification/IocpNet.thy ===== *)
theory IocpNet
  imports Iocp Futures
begin

text \<open>
  Sockets over the completion port (\<open>src/src/iocp/net.rs\<close>): constructors, the six futures, and what
  dropping a future does to an operation the kernel still works on.

  A buffer is \<open>Inline\<close> bytes of the value itself or memory of the heap; the crate \<open>bytes\<close> is not in the
  repository, and of it the model has where the bytes are and how many.  A \<open>Bytes\<close> is taken to have no
  clones, so that dropping it frees its memory.  The kernel writes into the memory of an operation; what
  it writes is the outside world's.
\<close>

subsection \<open>Buffers\<close>

datatype wbuf = Inline "u8 list" | Heap addr

definition alloc :: "u8 list \<Rightarrow> iocp \<Rightarrow> addr \<times> iocp" where
  "alloc bs s = (wfresh s, s\<lparr>wfresh := wfresh s + 1, bufs := (bufs s)(wfresh s \<mapsto> bs)\<rparr>)"

definition free :: "addr \<Rightarrow> iocp \<Rightarrow> iocp" where
  "free a s = s\<lparr>bufs := (bufs s)(a := None)\<rparr>"

fun buf_drop :: "wbuf \<Rightarrow> iocp \<Rightarrow> iocp" where
  "buf_drop (Inline _) s = s"
| "buf_drop (Heap a) s = free a s"

fun mem_of :: "wbuf \<Rightarrow> addr list" where
  "mem_of (Inline _) = []"
| "mem_of (Heap a) = [a]"

definition buf_len :: "wbuf \<Rightarrow> iocp \<Rightarrow> nat" where
  "buf_len b s = (case b of Inline bs \<Rightarrow> length bs
     | Heap a \<Rightarrow> (case bufs s a of None \<Rightarrow> 0 | Some bs \<Rightarrow> length bs))"

fun ensure_bytes_safe :: "wbuf \<Rightarrow> iocp \<Rightarrow> wbuf \<times> iocp" where
  "ensure_bytes_safe (Heap a) s = (Heap a, s)"
| "ensure_bytes_safe (Inline bs) s = (let (a, s1) = alloc bs s in (Heap a, s1))"

fun ensure_bytesmut_safe :: "wbuf \<Rightarrow> iocp \<Rightarrow> wbuf \<times> iocp" where
  "ensure_bytesmut_safe (Heap a) s = (Heap a, s)"
| "ensure_bytesmut_safe (Inline bs) s = (let (a, s1) = alloc bs s in (Heap a, s1))"

subsection \<open>Sockets\<close>

definition raw_of :: "nat \<Rightarrow> iocp \<Rightarrow> socket" where
  "raw_of k s = (case wsocks s k of Some x \<Rightarrow> raw x | None \<Rightarrow> - 1)"

definition wsock_clone :: "nat \<Rightarrow> iocp \<Rightarrow> iocp" where
  "wsock_clone k s = s\<lparr>wsocks := (wsocks s)(k := map_option (\<lambda>x. x\<lparr>wrefs := wrefs x + 1\<rparr>) (wsocks s k))\<rparr>"

definition close_socket :: "socket \<Rightarrow> iocp \<Rightarrow> iocp" where
  "close_socket fd s = wemit (CloseSocket fd) s"

definition wsock_drop :: "nat \<Rightarrow> iocp \<Rightarrow> iocp" where
  "wsock_drop k s =
     (case wsocks s k of
        None \<Rightarrow> s
      | Some x \<Rightarrow>
          if wrefs x \<noteq> 1 then s\<lparr>wsocks := (wsocks s)(k \<mapsto> x\<lparr>wrefs := wrefs x - 1\<rparr>)\<rparr>
          else drop_port (close_socket (raw x) (s\<lparr>wsocks := (wsocks s)(k := None)\<rparr>)))"

definition add_wsock :: "socket \<Rightarrow> ip_version option \<Rightarrow> iocp \<Rightarrow> nat \<times> iocp" where
  "add_wsock fd v s =
     (wfresh s, (CompletionPort_handle s)\<lparr>wfresh := wfresh s + 1,
        wsocks := (wsocks s)(wfresh s \<mapsto> \<lparr>wrefs = 1, raw = fd, ip_version = v\<rparr>)\<rparr>)"

definition TcpListener_from_listener_iocp :: "wenv \<Rightarrow> socket \<Rightarrow> iocp \<Rightarrow> (io_error + nat) \<times> iocp" where
  "TcpListener_from_listener_iocp E fd s =
     (case add_socket E fd s of
        (Inl e, s1) \<Rightarrow> (Inl e, close_socket fd s1)
      | (Inr _, s1) \<Rightarrow>
          (case wsys E (IsIpv4 fd) s1 of
             (Inl e, s2) \<Rightarrow> (Inl e, close_socket fd s2)
           | (Inr v4, s2) \<Rightarrow>
               if v4 \<noteq> 0 then map_prod Inr id (add_wsock fd (Some V4Only) s2)
               else (case wsys E (GetV6Only fd) s2 of
                   (Inl e, s3) \<Rightarrow> (Inl e, close_socket fd s3)
                 | (Inr value, s3) \<Rightarrow>
                     map_prod Inr id (add_wsock fd (Some (if value = 0 then DualStack else V6Only)) s3))))"

definition TcpStream_from_stream_iocp :: "wenv \<Rightarrow> socket \<Rightarrow> iocp \<Rightarrow> (io_error + nat) \<times> iocp" where
  "TcpStream_from_stream_iocp E fd s =
     (case add_socket E fd s of
        (Inl e, s1) \<Rightarrow> (Inl e, close_socket fd s1)
      | (Inr _, s1) \<Rightarrow> map_prod Inr id (add_wsock fd None s1))"

definition UdpSocket_from_socket_iocp :: "wenv \<Rightarrow> socket \<Rightarrow> iocp \<Rightarrow> (io_error + nat) \<times> iocp" where
  "UdpSocket_from_socket_iocp E fd s =
     (case add_socket E fd s of
        (Inl e, s1) \<Rightarrow> (Inl e, close_socket fd s1)
      | (Inr _, s1) \<Rightarrow> map_prod Inr id (add_wsock fd None s1))"

definition UdpSocket_connect_iocp :: "wenv \<Rightarrow> nat \<Rightarrow> sockaddr \<Rightarrow> iocp \<Rightarrow> (io_error + int) \<times> iocp" where
  "UdpSocket_connect_iocp E k a s = wsys E (ConnectUdp (raw_of k s) a) s"

definition from_accepted_stream :: "wenv \<Rightarrow> socket \<Rightarrow> nat \<Rightarrow> iocp \<Rightarrow> (io_error + nat) \<times> iocp" where
  "from_accepted_stream E fd l s =
     (case wsys E (AcceptComplete (raw_of l s) fd) s of
        (Inl e, s1) \<Rightarrow> (Inl e, close_socket fd s1)
      | (Inr _, s1) \<Rightarrow>
          (case add_socket E fd s1 of
             (Inl e, s2) \<Rightarrow> (Inl e, close_socket fd s2)
           | (Inr _, s2) \<Rightarrow> map_prod Inr id (add_wsock fd None s2)))"

definition from_connected_stream :: "wenv \<Rightarrow> nat \<Rightarrow> iocp \<Rightarrow> (io_error + nat) \<times> iocp" where
  "from_connected_stream E k s =
     (case wsys E (ConnectComplete (raw_of k s)) s of
        (Inl e, s1) \<Rightarrow> (Inl e, wsock_drop k s1)
      | (Inr _, s1) \<Rightarrow> (Inr k, s1))"

subsection \<open>Starting an operation\<close>

text \<open>
  \<open>OverlappedTask::new\<close>, then \<open>for_operation\<close> on a clone.  When the submission fails the \<open>?\<close> drops the
  task too.
\<close>

definition start_op ::
  "wenv \<Rightarrow> task \<Rightarrow> (addr \<Rightarrow> wcall) \<Rightarrow> iocp \<Rightarrow> (io_error + addr \<times> nat option) \<times> iocp" where
  "start_op E t call s =
     (let (a, s1) = OverlappedTask_new t s in
      case for_operation E a (call a) (task_clone a s1) of
        (Inl e, s2) \<Rightarrow> (Inl e, task_drop a s2)
      | (Inr r, s2) \<Rightarrow> (Inr (a, r), s2))"

subsection \<open>Accept\<close>

datatype accept_iocp =
    WAcceptNone
  | WAcceptInitial nat
  | WAcceptPending nat socket addr addr

text \<open>
  The end of an accept: the stream is made, then the addresses are taken out of the buffer.  The
  buffer, the task and the listener are dropped on every way out.
\<close>

definition accept_done :: "addr \<Rightarrow> addr \<Rightarrow> nat \<Rightarrow> iocp \<Rightarrow> iocp" where
  "accept_done ab a l s = wsock_drop l (task_drop a (free ab s))"

definition accept_finish ::
  "wenv \<Rightarrow> nat \<Rightarrow> socket \<Rightarrow> addr \<Rightarrow> addr \<Rightarrow> iocp \<Rightarrow> ((nat \<times> sockaddr) io_poll \<times> accept_iocp \<times> iocp) rust" where
  "accept_finish E l fd ab a s =
     (case from_accepted_stream E fd l s of
        (Inl e, s1) \<Rightarrow> Val (Inl e, WAcceptNone, accept_done ab a l s1)
      | (Inr k, s1) \<Rightarrow>
          (case wsys E (ParseAddrs ab (raw_of l s1)) s1 of
             (Inl e, s2) \<Rightarrow> Val (Inl e, WAcceptNone, accept_done ab a l (wsock_drop k s2))
           | (Inr _, s2) \<Rightarrow>
               (case w_addr E (wtrace s2) ab of
                  None \<Rightarrow> Panic
                | Some p \<Rightarrow> Val (Inr (Ready (k, p)), WAcceptNone, accept_done ab a l s2))))"

definition Accept_initiate ::
  "wenv \<Rightarrow> bool \<Rightarrow> task \<Rightarrow> nat \<Rightarrow> iocp \<Rightarrow> ((nat \<times> sockaddr) io_poll \<times> accept_iocp \<times> iocp) rust" where
  "Accept_initiate E v4 t l s =
     (case wsys E (NewTcp v4) s of
        (Inl e, s1) \<Rightarrow> Val (Inl e, WAcceptNone, wsock_drop l s1)
      | (Inr fd, s1) \<Rightarrow>
          let (ab, s2) = alloc [] s1 in
          (case start_op E t (\<lambda>a. Submit (OpAccept fd) (raw_of l s2) a [ab]) s2 of
             (Inl e, s3) \<Rightarrow> Val (Inl e, WAcceptNone, wsock_drop l (close_socket fd (free ab s3)))
           | (Inr (a, Some _), s3) \<Rightarrow> accept_finish E l fd ab a s3
           | (Inr (a, None), s3) \<Rightarrow> Val (Inr NotReady, WAcceptPending l fd ab a, s3)))"

definition initiate_v4 ::
  "wenv \<Rightarrow> task \<Rightarrow> nat \<Rightarrow> iocp \<Rightarrow> ((nat \<times> sockaddr) io_poll \<times> accept_iocp \<times> iocp) rust" where
  "initiate_v4 E t l s = Accept_initiate E True t l s"

definition initiate_v6 ::
  "wenv \<Rightarrow> task \<Rightarrow> nat \<Rightarrow> iocp \<Rightarrow> ((nat \<times> sockaddr) io_poll \<times> accept_iocp \<times> iocp) rust" where
  "initiate_v6 E t l s = Accept_initiate E False t l s"

definition TcpListener_accept_iocp :: "nat \<Rightarrow> iocp \<Rightarrow> accept_iocp \<times> iocp" where
  "TcpListener_accept_iocp l s = (WAcceptInitial l, wsock_clone l s)"

definition Accept_poll_iocp ::
  "wenv \<Rightarrow> task \<Rightarrow> accept_iocp \<Rightarrow> iocp \<Rightarrow> ((nat \<times> sockaddr) io_poll \<times> accept_iocp \<times> iocp) rust" where
  "Accept_poll_iocp E t st s =
     (case st of
        WAcceptNone \<Rightarrow> Panic
      | WAcceptInitial l \<Rightarrow>
          (case Option.bind (wsocks s l) ip_version of
             Some V4Only \<Rightarrow> initiate_v4 E t l s
           | _ \<Rightarrow> initiate_v6 E t l s)
      | WAcceptPending l fd ab a \<Rightarrow>
          (case poll_socket E (raw_of l s) a (register_iocp a t s) of
             (Inl e, s1) \<Rightarrow> Val (Inl e, WAcceptNone, wsock_drop l (close_socket fd (free ab (task_drop a s1))))
           | (Inr NotReady, s1) \<Rightarrow> Val (Inr NotReady, WAcceptPending l fd ab a, s1)
           | (Inr (Ready _), s1) \<Rightarrow> accept_finish E l fd ab a s1))"

text \<open>\<open>Accept\<close> and \<open>Connect\<close> have no \<open>Drop\<close>: their fields are dropped.\<close>

fun Accept_drop_iocp :: "accept_iocp \<Rightarrow> iocp \<Rightarrow> iocp" where
  "Accept_drop_iocp WAcceptNone s = s"
| "Accept_drop_iocp (WAcceptInitial l) s = wsock_drop l s"
| "Accept_drop_iocp (WAcceptPending l fd ab a) s = task_drop a (free ab (close_socket fd (wsock_drop l s)))"

subsection \<open>Connect\<close>

datatype connect_iocp =
    WConnectNone
  | WConnectInitial nat sockaddr
  | WConnectPending nat addr
  | WConnectError io_error

definition TcpStream_connect_iocp :: "wenv \<Rightarrow> sockaddr \<Rightarrow> iocp \<Rightarrow> connect_iocp \<times> iocp" where
  "TcpStream_connect_iocp E a s =
     (case wsys E (NewTcp (is_ipv4 E a)) s of
        (Inl e, s1) \<Rightarrow> (WConnectError e, s1)
      | (Inr fd, s1) \<Rightarrow>
          (case wsys E (BindAny fd) s1 of
             (Inl e, s2) \<Rightarrow> (WConnectError e, close_socket fd s2)
           | (Inr _, s2) \<Rightarrow>
               (case TcpStream_from_stream_iocp E fd s2 of
                  (Inl e, s3) \<Rightarrow> (WConnectError e, s3)
                | (Inr k, s3) \<Rightarrow> (WConnectInitial k a, s3))))"

definition connected ::
  "wenv \<Rightarrow> nat \<Rightarrow> iocp \<Rightarrow> (nat io_poll \<times> connect_iocp \<times> iocp) rust" where
  "connected E k s =
     (case from_connected_stream E k s of
        (Inl e, s1) \<Rightarrow> Val (Inl e, WConnectNone, s1)
      | (Inr k, s1) \<Rightarrow> Val (Inr (Ready k), WConnectNone, s1))"

definition Connect_poll_iocp ::
  "wenv \<Rightarrow> task \<Rightarrow> connect_iocp \<Rightarrow> iocp \<Rightarrow> (nat io_poll \<times> connect_iocp \<times> iocp) rust" where
  "Connect_poll_iocp E t st s =
     (case st of
        WConnectNone \<Rightarrow> Panic
      | WConnectError e \<Rightarrow> Val (Inl e, WConnectNone, s)
      | WConnectInitial k addr \<Rightarrow>
          (case start_op E t (\<lambda>a. Submit (OpConnect addr) (raw_of k s) a []) s of
             (Inl e, s1) \<Rightarrow> Val (Inl e, WConnectNone, wsock_drop k s1)
           | (Inr (a, Some _), s1) \<Rightarrow> connected E k (task_drop a s1)
           | (Inr (a, None), s1) \<Rightarrow> Val (Inr NotReady, WConnectPending k a, s1))
      | WConnectPending k a \<Rightarrow>
          (case poll_socket E (raw_of k s) a (register_iocp a t s) of
             (Inl e, s1) \<Rightarrow> Val (Inl e, WConnectNone, wsock_drop k (task_drop a s1))
           | (Inr NotReady, s1) \<Rightarrow> Val (Inr NotReady, WConnectPending k a, s1)
           | (Inr (Ready _), s1) \<Rightarrow> connected E k (task_drop a s1)))"

fun Connect_drop_iocp :: "connect_iocp \<Rightarrow> iocp \<Rightarrow> iocp" where
  "Connect_drop_iocp (WConnectInitial k _) s = wsock_drop k s"
| "Connect_drop_iocp (WConnectPending k a) s = task_drop a (wsock_drop k s)"
| "Connect_drop_iocp _ s = s"

subsection \<open>Reading and writing streams\<close>

text \<open>Giving up an operation that is not under way: socket and buffer are dropped.\<close>

definition give_up :: "nat \<Rightarrow> wbuf \<Rightarrow> iocp \<Rightarrow> iocp" where
  "give_up k b s = wsock_drop k (buf_drop b s)"

text \<open>
  \<open>Drop\<close> of a future with an operation under way: when the cancelation is accepted the buffer is dropped
  with the other fields, when it fails the buffer is leaked.
\<close>

definition cancel_and_drop :: "wenv \<Rightarrow> nat \<Rightarrow> wbuf \<Rightarrow> addr \<Rightarrow> iocp \<Rightarrow> iocp" where
  "cancel_and_drop E k b a s =
     (case cancel_socket E (raw_of k s) a s of
        (Inr _, s1) \<Rightarrow> give_up k b s1
      | (Inl _, s1) \<Rightarrow> wsock_drop k (task_drop a s1))"

datatype tcp_write_iocp = WWriteNone | WWriteInitial nat wbuf | WWritePending nat wbuf addr

definition TcpStream_write_iocp :: "nat \<Rightarrow> wbuf \<Rightarrow> iocp \<Rightarrow> tcp_write_iocp \<times> iocp" where
  "TcpStream_write_iocp k b s =
     (let (b1, s1) = ensure_bytes_safe b s in (WWriteInitial k b1, wsock_drop k (wsock_clone k s1)))"

definition TcpWrite_poll_iocp ::
  "wenv \<Rightarrow> task \<Rightarrow> tcp_write_iocp \<Rightarrow> iocp \<Rightarrow> ((nat \<times> wbuf \<times> nat) io_poll \<times> tcp_write_iocp \<times> iocp) rust" where
  "TcpWrite_poll_iocp E t st s =
     (case st of
        WWriteNone \<Rightarrow> Panic
      | WWriteInitial k b \<Rightarrow> Val
          (case start_op E t (\<lambda>a. Submit OpWrite (raw_of k s) a (mem_of b)) s of
             (Inl e, s1) \<Rightarrow> (Inl e, WWriteNone, give_up k b s1)
           | (Inr (a, Some n), s1) \<Rightarrow> (Inr (Ready (k, b, n)), WWriteNone, task_drop a s1)
           | (Inr (a, None), s1) \<Rightarrow> (Inr NotReady, WWritePending k b a, s1))
      | WWritePending k b a \<Rightarrow> Val
          (case poll_socket E (raw_of k s) a (register_iocp a t s) of
             (Inl e, s1) \<Rightarrow> (Inl e, WWriteNone, give_up k b (task_drop a s1))
           | (Inr (Ready (n, _)), s1) \<Rightarrow> (Inr (Ready (k, b, n)), WWriteNone, task_drop a s1)
           | (Inr NotReady, s1) \<Rightarrow> (Inr NotReady, WWritePending k b a, s1)))"

fun TcpWrite_drop_iocp :: "wenv \<Rightarrow> tcp_write_iocp \<Rightarrow> iocp \<Rightarrow> iocp" where
  "TcpWrite_drop_iocp E (WWritePending k b a) s = cancel_and_drop E k b a s"
| "TcpWrite_drop_iocp E (WWriteInitial k b) s = give_up k b s"
| "TcpWrite_drop_iocp E WWriteNone s = s"

datatype tcp_read_iocp = WReadNone | WReadInitial nat wbuf | WReadPending nat wbuf addr

definition TcpStream_read_iocp :: "nat \<Rightarrow> wbuf \<Rightarrow> iocp \<Rightarrow> tcp_read_iocp \<times> iocp" where
  "TcpStream_read_iocp k b s =
     (let (b1, s1) = ensure_bytesmut_safe b s in (WReadInitial k b1, wsock_drop k (wsock_clone k s1)))"

definition TcpRead_poll_iocp ::
  "wenv \<Rightarrow> task \<Rightarrow> tcp_read_iocp \<Rightarrow> iocp \<Rightarrow> ((nat \<times> wbuf \<times> nat) io_poll \<times> tcp_read_iocp \<times> iocp) rust" where
  "TcpRead_poll_iocp E t st s =
     (case st of
        WReadNone \<Rightarrow> Panic
      | WReadInitial k b \<Rightarrow> Val
          (case start_op E t (\<lambda>a. Submit OpRead (raw_of k s) a (mem_of b)) s of
             (Inl e, s1) \<Rightarrow> (Inl e, WReadNone, give_up k b s1)
           | (Inr (a, Some n), s1) \<Rightarrow> (Inr (Ready (k, b, n)), WReadNone, task_drop a s1)
           | (Inr (a, None), s1) \<Rightarrow> (Inr NotReady, WReadPending k b a, s1))
      | WReadPending k b a \<Rightarrow> Val
          (case poll_socket E (raw_of k s) a (register_iocp a t s) of
             (Inl e, s1) \<Rightarrow> (Inl e, WReadNone, give_up k b (task_drop a s1))
           | (Inr (Ready (n, _)), s1) \<Rightarrow> (Inr (Ready (k, b, n)), WReadNone, task_drop a s1)
           | (Inr NotReady, s1) \<Rightarrow> (Inr NotReady, WReadPending k b a, s1)))"

fun TcpRead_drop_iocp :: "wenv \<Rightarrow> tcp_read_iocp \<Rightarrow> iocp \<Rightarrow> iocp" where
  "TcpRead_drop_iocp E (WReadPending k b a) s = cancel_and_drop E k b a s"
| "TcpRead_drop_iocp E (WReadInitial k b) s = give_up k b s"
| "TcpRead_drop_iocp E WReadNone s = s"

subsection \<open>Datagrams\<close>

datatype recv_from_iocp =
    WRecvFromNone
  | WRecvFromInitial nat wbuf
  | WRecvFromPending nat wbuf addr addr

definition UdpSocket_recv_from_iocp :: "nat \<Rightarrow> wbuf \<Rightarrow> iocp \<Rightarrow> recv_from_iocp \<times> iocp" where
  "UdpSocket_recv_from_iocp k b s =
     (let (b1, s1) = ensure_bytesmut_safe b s in (WRecvFromInitial k b1, s1))"

text \<open>\<open>addr_buf.to_socket_addr().unwrap()\<close>, then the task and the address buffer are dropped.\<close>

definition received ::
  "wenv \<Rightarrow> nat \<Rightarrow> wbuf \<Rightarrow> nat \<Rightarrow> addr \<Rightarrow> addr \<Rightarrow> iocp \<Rightarrow>
     ((nat \<times> wbuf \<times> nat \<times> sockaddr) io_poll \<times> recv_from_iocp \<times> iocp) rust" where
  "received E k b n ab a s =
     (case w_addr E (wtrace s) ab of
        None \<Rightarrow> Panic
      | Some p \<Rightarrow> Val (Inr (Ready (k, b, n, p)), WRecvFromNone, free ab (task_drop a s)))"

definition RecvFrom_poll_iocp ::
  "wenv \<Rightarrow> task \<Rightarrow> recv_from_iocp \<Rightarrow> iocp \<Rightarrow>
     ((nat \<times> wbuf \<times> nat \<times> sockaddr) io_poll \<times> recv_from_iocp \<times> iocp) rust" where
  "RecvFrom_poll_iocp E t st s =
     (case st of
        WRecvFromNone \<Rightarrow> Panic
      | WRecvFromInitial k b \<Rightarrow>
          let (ab, s1) = alloc [] s in
          (case start_op E t (\<lambda>a. Submit OpRecvFrom (raw_of k s1) a (ab # mem_of b)) s1 of
             (Inl e, s2) \<Rightarrow> Val (Inl e, WRecvFromNone, give_up k b (free ab s2))
           | (Inr (a, Some n), s2) \<Rightarrow> received E k b n ab a s2
           | (Inr (a, None), s2) \<Rightarrow> Val (Inr NotReady, WRecvFromPending k b ab a, s2))
      | WRecvFromPending k b ab a \<Rightarrow>
          (case poll_socket E (raw_of k s) a (register_iocp a t s) of
             (Inl e, s1) \<Rightarrow> Val (Inl e, WRecvFromNone, give_up k b (free ab (task_drop a s1)))
           | (Inr (Ready (n, _)), s1) \<Rightarrow> received E k b n ab a s1
           | (Inr NotReady, s1) \<Rightarrow> Val (Inr NotReady, WRecvFromPending k b ab a, s1)))"

fun RecvFrom_drop_iocp :: "wenv \<Rightarrow> recv_from_iocp \<Rightarrow> iocp \<Rightarrow> iocp" where
  "RecvFrom_drop_iocp E (WRecvFromPending k b ab a) s =
     (case cancel_socket E (raw_of k s) a s of
        (Inr _, s1) \<Rightarrow> free ab (give_up k b s1)
      | (Inl _, s1) \<Rightarrow> wsock_drop k (task_drop a s1))"
| "RecvFrom_drop_iocp E (WRecvFromInitial k b) s = give_up k b s"
| "RecvFrom_drop_iocp E WRecvFromNone s = s"

datatype send_to_iocp =
    WSendToNone
  | WSendToInitial nat wbuf sockaddr
  | WSendToPending nat wbuf addr

definition UdpSocket_send_to_iocp :: "nat \<Rightarrow> wbuf \<Rightarrow> sockaddr \<Rightarrow> iocp \<Rightarrow> send_to_iocp \<times> iocp" where
  "UdpSocket_send_to_iocp k b p s =
     (let (b1, s1) = ensure_bytes_safe b s in (WSendToInitial k b1 p, s1))"

definition write_zero_iocp :: io_error where
  "write_zero_iocp = \<lparr>kind = WriteZero, raw_os_error = None\<rparr>"

definition sent ::
  "nat \<Rightarrow> wbuf \<Rightarrow> nat \<Rightarrow> addr \<Rightarrow> iocp \<Rightarrow> (nat \<times> wbuf) io_poll \<times> send_to_iocp \<times> iocp" where
  "sent k b n a s =
     (if n = buf_len b s then (Inr (Ready (k, b)), WSendToNone, task_drop a s)
      else (Inl write_zero_iocp, WSendToNone, give_up k b (task_drop a s)))"

definition SendTo_poll_iocp ::
  "wenv \<Rightarrow> task \<Rightarrow> send_to_iocp \<Rightarrow> iocp \<Rightarrow> ((nat \<times> wbuf) io_poll \<times> send_to_iocp \<times> iocp) rust" where
  "SendTo_poll_iocp E t st s =
     (case st of
        WSendToNone \<Rightarrow> Panic
      | WSendToInitial k b p \<Rightarrow> Val
          (case start_op E t (\<lambda>a. Submit (OpSendTo p) (raw_of k s) a (mem_of b)) s of
             (Inl e, s1) \<Rightarrow> (Inl e, WSendToNone, give_up k b s1)
           | (Inr (a, Some n), s1) \<Rightarrow> sent k b n a s1
           | (Inr (a, None), s1) \<Rightarrow> (Inr NotReady, WSendToPending k b a, s1))
      | WSendToPending k b a \<Rightarrow> Val
          (case poll_socket E (raw_of k s) a (register_iocp a t s) of
             (Inl e, s1) \<Rightarrow> (Inl e, WSendToNone, give_up k b (task_drop a s1))
           | (Inr (Ready (n, _)), s1) \<Rightarrow> sent k b n a s1
           | (Inr NotReady, s1) \<Rightarrow> (Inr NotReady, WSendToPending k b a, s1)))"

fun SendTo_drop_iocp :: "wenv \<Rightarrow> send_to_iocp \<Rightarrow> iocp \<Rightarrow> iocp" where
  "SendTo_drop_iocp E (WSendToPending k b a) s = cancel_and_drop E k b a s"
| "SendTo_drop_iocp E (WSendToInitial k b p) s = give_up k b s"
| "SendTo_drop_iocp E WSendToNone s = s"

subsection \<open>The contract of the futures\<close>

definition wlogged :: "addr \<Rightarrow> task \<Rightarrow> iocp \<Rightarrow> iocp \<Rightarrow> bool" where
  "wlogged a t s s' \<longleftrightarrow> (\<exists>tr. wtrace s' = wtrace s @ tr \<and> (RegisterTask a t, True) \<in> set tr)"

definition wgrows :: "iocp \<Rightarrow> iocp \<Rightarrow> bool" where
  "wgrows s s' \<longleftrightarrow> (\<exists>tr. wtrace s' = wtrace s @ tr)"

lemma wgrows_refl [simp]: "wgrows s s"
  by (simp add: wgrows_def)

lemma wgrows_wlogged: "wgrows s s1 \<Longrightarrow> wlogged a t s1 s2 \<Longrightarrow> wlogged a t s s2"
  by (auto simp: wgrows_def wlogged_def)

lemma wlogged_wgrows: "wlogged a t s s1 \<Longrightarrow> wgrows s1 s2 \<Longrightarrow> wlogged a t s s2"
  by (auto simp: wgrows_def wlogged_def)

lemma wgrows_sys: "wsys E c s = (r, s') \<Longrightarrow> wgrows s s'"
  by (auto simp: wsys_def wgrows_def Let_def)

lemma wgrows_alloc: "alloc bs s = (a, s') \<Longrightarrow> wgrows s s'"
  by (auto simp: alloc_def wgrows_def)

lemma poll_socket_registers:
  "poll_socket E fd a (register_iocp a t s) = (r, s') \<Longrightarrow> wlogged a t s s'"
  by (auto simp: poll_socket_def register_iocp_def wemit_def wlogged_def Let_def split: if_splits)

lemma start_op_registers:
  "start_op E t call s = (Inr (a, r), s') \<Longrightarrow> wlogged a t s s'"
  by (auto simp: start_op_def OverlappedTask_new_def for_operation_def register_iocp_def wemit_def
      task_clone_def task_drop_def wlogged_def Let_def split: sum.split_asm)

text \<open>The task a pending state waits on.\<close>

fun accept_task :: "accept_iocp \<Rightarrow> addr option" where
  "accept_task (WAcceptPending l fd ab a) = Some a"
| "accept_task _ = None"

fun connect_task :: "connect_iocp \<Rightarrow> addr option" where
  "connect_task (WConnectPending k a) = Some a"
| "connect_task _ = None"

fun read_task :: "tcp_read_iocp \<Rightarrow> addr option" where
  "read_task (WReadPending k b a) = Some a"
| "read_task _ = None"

fun write_task :: "tcp_write_iocp \<Rightarrow> addr option" where
  "write_task (WWritePending k b a) = Some a"
| "write_task _ = None"

fun recv_from_task :: "recv_from_iocp \<Rightarrow> addr option" where
  "recv_from_task (WRecvFromPending k b ab a) = Some a"
| "recv_from_task _ = None"

fun send_to_task :: "send_to_iocp \<Rightarrow> addr option" where
  "send_to_task (WSendToPending k b a) = Some a"
| "send_to_task _ = None"

lemma accept_finish_completes:
  "accept_finish E l fd ab a s = Val (r, st, s') \<Longrightarrow> r \<noteq> Inr NotReady \<and> st = WAcceptNone"
  by (auto simp: accept_finish_def split: prod.splits sum.splits option.splits)

lemma connected_completes:
  "connected E k s = Val (r, st, s') \<Longrightarrow> r \<noteq> Inr NotReady \<and> st = WConnectNone"
  by (auto simp: connected_def split: prod.splits sum.splits)

lemma received_completes:
  "received E k b n ab a s = Val (r, st, s') \<Longrightarrow> r \<noteq> Inr NotReady \<and> st = WRecvFromNone"
  by (auto simp: received_def split: option.splits)

lemma sent_completes: "sent k b n a s = (r, st, s') \<Longrightarrow> r \<noteq> Inr NotReady \<and> st = WSendToNone"
  by (auto simp: sent_def split: if_splits)

lemma initiate_cases:
  assumes "Accept_initiate E v4 t l s = Val (r, st, s')"
  obtains (finished) "r \<noteq> Inr NotReady" "st = WAcceptNone"
  | (waits) fd ab a where "r = Inr NotReady" "st = WAcceptPending l fd ab a" "wlogged a t s s'"
  using assms that
  by (auto simp: Accept_initiate_def split: prod.splits sum.splits option.splits
      dest: accept_finish_completes
      dest!: start_op_registers wgrows_sys wgrows_alloc)
    (meson wgrows_wlogged)

interpretation waccept: completing_future "Accept_poll_iocp E" accept_task wlogged WAcceptNone for E
proof
  show "st' = WAcceptNone" if "Accept_poll_iocp E t st s = Val (r, st', s')" "r \<noteq> Inr NotReady" for t st s r st' s'
    using that by (auto simp: Accept_poll_iocp_def initiate_v4_def initiate_v6_def
        split: accept_iocp.splits option.splits ip_version.splits prod.splits sum.splits Async.splits
        elim: initiate_cases dest: accept_finish_completes)
  show "st' \<noteq> WAcceptNone \<and> (\<exists>a. accept_task st' = Some a \<and> wlogged a t s s')"
    if "Accept_poll_iocp E t st s = Val (Inr NotReady, st', s')" for t st s st' s'
    using that by (auto simp: Accept_poll_iocp_def initiate_v4_def initiate_v6_def
        split: accept_iocp.splits option.splits ip_version.splits prod.splits sum.splits Async.splits
        elim!: initiate_cases dest: accept_finish_completes poll_socket_registers)
qed (simp add: Accept_poll_iocp_def)

interpretation wconnect: completing_future "Connect_poll_iocp E" connect_task wlogged WConnectNone for E
proof
  show "st' = WConnectNone" if "Connect_poll_iocp E t st s = Val (r, st', s')" "r \<noteq> Inr NotReady" for t st s r st' s'
    using that by (auto simp: Connect_poll_iocp_def dest: connected_completes
        split: connect_iocp.splits option.splits prod.splits sum.splits Async.splits)
  show "st' \<noteq> WConnectNone \<and> (\<exists>a. connect_task st' = Some a \<and> wlogged a t s s')"
    if "Connect_poll_iocp E t st s = Val (Inr NotReady, st', s')" for t st s st' s'
    using that by (auto simp: Connect_poll_iocp_def
        dest: connected_completes poll_socket_registers start_op_registers
        split: connect_iocp.splits option.splits prod.splits sum.splits Async.splits)
qed (simp add: Connect_poll_iocp_def)

interpretation wread: completing_future "TcpRead_poll_iocp E" read_task wlogged WReadNone for E
proof
  show "st' = WReadNone" if "TcpRead_poll_iocp E t st s = Val (r, st', s')" "r \<noteq> Inr NotReady" for t st s r st' s'
    using that by (auto simp: TcpRead_poll_iocp_def
        split: tcp_read_iocp.splits option.splits prod.splits sum.splits Async.splits)
  show "st' \<noteq> WReadNone \<and> (\<exists>a. read_task st' = Some a \<and> wlogged a t s s')"
    if "TcpRead_poll_iocp E t st s = Val (Inr NotReady, st', s')" for t st s st' s'
    using that by (auto simp: TcpRead_poll_iocp_def dest: poll_socket_registers start_op_registers
        split: tcp_read_iocp.splits option.splits prod.splits sum.splits Async.splits)
qed (simp add: TcpRead_poll_iocp_def)

interpretation wwrite: completing_future "TcpWrite_poll_iocp E" write_task wlogged WWriteNone for E
proof
  show "st' = WWriteNone" if "TcpWrite_poll_iocp E t st s = Val (r, st', s')" "r \<noteq> Inr NotReady" for t st s r st' s'
    using that by (auto simp: TcpWrite_poll_iocp_def
        split: tcp_write_iocp.splits option.splits prod.splits sum.splits Async.splits)
  show "st' \<noteq> WWriteNone \<and> (\<exists>a. write_task st' = Some a \<and> wlogged a t s s')"
    if "TcpWrite_poll_iocp E t st s = Val (Inr NotReady, st', s')" for t st s st' s'
    using that by (auto simp: TcpWrite_poll_iocp_def dest: poll_socket_registers start_op_registers
        split: tcp_write_iocp.splits option.splits prod.splits sum.splits Async.splits)
qed (simp add: TcpWrite_poll_iocp_def)

interpretation wrecv_from: completing_future "RecvFrom_poll_iocp E" recv_from_task wlogged WRecvFromNone for E
proof
  show "st' = WRecvFromNone" if "RecvFrom_poll_iocp E t st s = Val (r, st', s')" "r \<noteq> Inr NotReady"
    for t st s r st' s'
    using that by (auto simp: RecvFrom_poll_iocp_def Let_def dest: received_completes
        split: recv_from_iocp.splits option.splits prod.splits sum.splits Async.splits)
  show "st' \<noteq> WRecvFromNone \<and> (\<exists>a. recv_from_task st' = Some a \<and> wlogged a t s s')"
    if "RecvFrom_poll_iocp E t st s = Val (Inr NotReady, st', s')" for t st s st' s'
    using that by (auto simp: RecvFrom_poll_iocp_def Let_def
        dest: received_completes poll_socket_registers
        dest!: start_op_registers wgrows_alloc intro: wgrows_wlogged
        split: recv_from_iocp.splits option.splits prod.splits sum.splits Async.splits)
qed (simp add: RecvFrom_poll_iocp_def)

interpretation wsend_to: completing_future "SendTo_poll_iocp E" send_to_task wlogged WSendToNone for E
proof
  show "st' = WSendToNone" if "SendTo_poll_iocp E t st s = Val (r, st', s')" "r \<noteq> Inr NotReady"
    for t st s r st' s'
    using that by (auto simp: SendTo_poll_iocp_def dest: sent_completes
        split: send_to_iocp.splits option.splits prod.splits sum.splits Async.splits)
  show "st' \<noteq> WSendToNone \<and> (\<exists>a. send_to_task st' = Some a \<and> wlogged a t s s')"
    if "SendTo_poll_iocp E t st s = Val (Inr NotReady, st', s')" for t st s st' s'
    using that by (auto simp: SendTo_poll_iocp_def
        dest: sent_completes poll_socket_registers start_op_registers
        split: send_to_iocp.splits option.splits prod.splits sum.splits Async.splits)
qed (simp add: SendTo_poll_iocp_def)

end
