(* ===== verification/IocpRuns.thy ===== *)
theory IocpRuns
  imports IocpNet
begin

text \<open>
  References of overlapped tasks (\<open>src/src/iocp/mod.rs\<close>, \<open>src/src/iocp/net.rs\<close>): one for each future that
  waits and one for each packet the port still owes.  \<open>bal u s\<close> says that the counts are exact when the
  program holds \<open>u a\<close> references to each task \<open>a\<close>; every operation keeps it, and so do the programs that
  \<open>iocp_step\<close> makes of them.
\<close>

subsection \<open>What the port owes\<close>

text \<open>An operation that was started has its packet outstanding until the port returns it.\<close>

fun owed_step :: "addr \<Rightarrow> wcall \<times> bool \<Rightarrow> nat \<Rightarrow> nat" where
  "owed_step a (Submit _ _ b _, True) n = (if b = a then n + 1 else n)"
| "owed_step a (Dequeued tok b, _) n = (if tok = FUTURE_NOTIFY_IOCP_TOKEN \<and> b = a then n - 1 else n)"
| "owed_step a _ n = n"

definition owed :: "addr \<Rightarrow> wtrace \<Rightarrow> nat" where
  "owed a tr = fold (owed_step a) tr 0"

lemma owed_Nil [simp]: "owed a [] = 0"
  by (simp add: owed_def)

lemma owed_snoc [simp]: "owed a (tr @ [c]) = owed_step a c (owed a tr)"
  by (simp add: owed_def)

text \<open>
  \<open>GetQueuedCompletionStatusEx\<close> returns at most as many packets as the buffer holds, and a packet is that
  of an operation that was started, or one that was posted.
\<close>

definition packets_ok :: "wenv \<Rightarrow> bool" where
  "packets_ok E \<longleftrightarrow> (\<forall>tr ms cs. w_wait E tr (GetQueuedStatus ms) = Inr cs \<longrightarrow>
     length cs \<le> 1 \<and> (\<forall>(tok, ov) \<in> set cs.
       if tok = FUTURE_NOTIFY_IOCP_TOKEN then 0 < owed ov tr
       else (\<exists>d. ov = unat d \<and> (PostStatus tok d, True) \<in> set tr)))"

subsection \<open>The balance of references\<close>

text \<open>\<open>u a\<close> is the number of \<open>OverlappedTask\<close>s of \<open>a\<close> the program holds.\<close>

definition posted_tokens :: "wtrace \<Rightarrow> addr set" where
  "posted_tokens tr = {p. \<exists>d. (PostStatus p d, True) \<in> set tr}"

lemma posted_tokens_snoc:
  "posted_tokens (tr @ [c]) = (case c of (PostStatus p _, True) \<Rightarrow> insert p (posted_tokens tr) | _ \<Rightarrow> posted_tokens tr)"
  by (auto simp: posted_tokens_def split: wcall.splits bool.splits)

definition counted :: "nat \<Rightarrow> nat option" where
  "counted n = (if n = 0 then None else Some n)"

definition bal :: "(addr \<Rightarrow> nat) \<Rightarrow> iocp \<Rightarrow> bool" where
  "bal u s \<longleftrightarrow>
     (\<forall>a. cells s a = counted (u a + owed a (wtrace s))) \<and>
     (\<forall>a \<in> dom (cells s). a < wfresh s) \<and>
     1 < wfresh s \<and> FUTURE_NOTIFY_IOCP_TOKEN \<notin> set (event_table s) \<and>
     posted_tokens (wtrace s) \<subseteq> set (event_table s)"

text \<open>What does not concern the tasks.\<close>

fun idle :: "wcall \<Rightarrow> bool" where
  "idle (Submit _ _ _ _) = False"
| "idle (Dequeued _ _) = False"
| "idle (PostStatus _ _) = False"
| "idle (RegisterTask _ _) = False"
| "idle _ = True"

definition apart :: "iocp \<Rightarrow> iocp \<Rightarrow> bool" where
  "apart s s' \<longleftrightarrow> cells s' = cells s \<and> event_table s' = event_table s \<and> wfresh s \<le> wfresh s' \<and>
     (\<exists>tr. wtrace s' = wtrace s @ tr \<and> (\<forall>c \<in> set tr. idle (fst c)))"

lemma owed_idle: "\<forall>c \<in> set tr. idle (fst c) \<Longrightarrow> owed a (tr0 @ tr) = owed a tr0"
proof (induction tr rule: rev_induct)
  case (snoc c tr)
  have "owed_step a c n = n" for n
    using snoc.prems by (cases "(a, c, n)" rule: owed_step.cases) auto
  then show ?case using snoc by (simp flip: append_assoc)
qed simp

lemma bal_apart:
  assumes "bal u s" and "apart s s'"
  shows "bal u s'"
proof -
  obtain tr where tr: "wtrace s' = wtrace s @ tr" "\<forall>c \<in> set tr. idle (fst c)"
    using assms(2) by (auto simp: apart_def)
  have "posted_tokens (wtrace s') = posted_tokens (wtrace s)"
    using tr by (fastforce simp: posted_tokens_def)
  then show ?thesis
    using assms owed_idle [OF tr(2)] tr(1) unfolding bal_def apart_def
    by (metis less_le_trans)
qed

lemma apart_refl [simp]: "apart s s"
  by (simp add: apart_def)

lemma apart_trans [trans]: "apart s t \<Longrightarrow> apart t v \<Longrightarrow> apart s v"
  unfolding apart_def by (fastforce intro: order_trans)

lemma apart_emit: "idle c \<Longrightarrow> apart s (wemit c s)"
  by (simp add: apart_def wemit_def)

lemma apart_sys: "wsys E c s = (r, s') \<Longrightarrow> idle c \<Longrightarrow> apart s s'"
  by (auto simp: apart_def wsys_def Let_def)

lemma apart_upd [simp]:
  "apart s (s\<lparr>bufs := b\<rparr>)" "apart s (s\<lparr>wsocks := w\<rparr>)" "apart s (s\<lparr>port_refs := n\<rparr>)"
  by (simp_all add: apart_def)

lemma apart_drop_port: "apart s (drop_port s)"
  by (simp add: drop_port_def apart_def wemit_def Let_def)

lemma apart_close: "apart s (close_socket fd s)"
  by (simp add: close_socket_def apart_emit)

lemma apart_wsock_clone: "apart s (wsock_clone k s)"
  by (simp add: wsock_clone_def)

lemma apart_wsock_drop: "apart s (wsock_drop k s)"
proof (cases "wsocks s k")
  case None
  then show ?thesis by (simp add: wsock_drop_def)
next
  case (Some x)
  have "apart s (s\<lparr>wsocks := (wsocks s)(k := None)\<rparr>)" by simp
  also note apart_close
  also note apart_drop_port
  finally show ?thesis using Some by (simp add: wsock_drop_def)
qed

lemma apart_add_wsock: "add_wsock fd v s = (k, s') \<Longrightarrow> apart s s'"
  by (auto simp: add_wsock_def CompletionPort_handle_def apart_def)

lemma apart_free: "apart s (free a s)"
  by (simp add: free_def)

lemma apart_buf_drop: "apart s (buf_drop b s)"
  by (cases b) (simp_all add: apart_free)

lemma apart_give_up: "apart s (give_up k b s)"
  unfolding give_up_def by (rule apart_trans [OF apart_buf_drop apart_wsock_drop])

lemma apart_alloc: "alloc bs s = (a, s') \<Longrightarrow> apart s s'"
  by (auto simp: alloc_def apart_def)

lemma apart_ensure: "ensure_bytes_safe b s = (b', s') \<Longrightarrow> apart s s'"
  "ensure_bytesmut_safe b s = (b', s') \<Longrightarrow> apart s s'"
  by (cases b; auto simp: alloc_def apart_def)+

lemma bal_register: "bal u s \<Longrightarrow> bal u (register_iocp a t s)"
  by (auto simp: register_iocp_def wemit_def bal_def posted_tokens_snoc)

lemma apart_poll_socket: "poll_socket E fd a s = (r, s') \<Longrightarrow> apart s s'"
  by (auto simp: poll_socket_def Let_def wemit_def apart_def split: if_splits)

lemma apart_from_accepted: "from_accepted_stream E fd l s = (r, s') \<Longrightarrow> apart s s'"
  by (auto simp: from_accepted_stream_def add_socket_def map_prod_def split: prod.splits sum.splits
      dest!: apart_sys apart_add_wsock intro: apart_trans apart_close)

lemma apart_from_connected: "from_connected_stream E k s = (r, s') \<Longrightarrow> apart s s'"
  by (auto simp: from_connected_stream_def split: prod.splits sum.splits
      dest!: apart_sys intro: apart_trans apart_wsock_drop)

subsection \<open>The operations of a task\<close>

lemma bal_fresh:
  assumes "bal u s" and "wfresh s \<le> a"
  shows "u a = 0 \<and> owed a (wtrace s) = 0"
proof -
  have "a \<notin> dom (cells s)" using assms unfolding bal_def by (metis leD)
  then have "counted (u a + owed a (wtrace s)) = None" using assms(1) by (auto simp: bal_def)
  then show ?thesis by (simp add: counted_def split: if_splits)
qed

lemma bal_drop: "bal (u(a := Suc (u a))) s \<Longrightarrow> bal u (task_drop a s)"
  by (auto simp: bal_def task_drop_def counted_def fun_eq_iff split: if_splits)

lemma bal_clone: "bal u s \<Longrightarrow> 0 < u a \<Longrightarrow> bal (u(a := Suc (u a))) (task_clone a s)"
  by (auto simp: bal_def task_clone_def counted_def)

lemma bal_new:
  assumes "bal u s" and "OverlappedTask_new t s = (a, s')"
  shows "a = wfresh s \<and> bal (u(a := Suc (u a))) s' \<and> u a = 0 \<and> wtrace s' = wtrace s @ [(RegisterTask a t, True)]"
  using assms bal_fresh [OF assms(1), of "wfresh s"]
  by (auto simp: OverlappedTask_new_def register_iocp_def wemit_def bal_def counted_def Let_def less_Suc_eq
      posted_tokens_snoc)

lemma bal_for_operation:
  assumes "bal (u(a := Suc (u a))) s" and "for_operation E a (Submit op fd a bs) s = (r, s')"
  shows "bal u s' \<and> (\<forall>x. r = Inr x \<longrightarrow> wtrace s' = wtrace s @ [(Submit op fd a bs, True)])"
proof (cases "w_submit E (wtrace s) (Submit op fd a bs)")
  case (Inl e)
  have "bal (u(a := Suc (u a))) (s\<lparr>wtrace := wtrace s @ [(Submit op fd a bs, False)]\<rparr>)"
    using assms(1) by (auto simp: bal_def posted_tokens_snoc)
  then show ?thesis using assms(2) Inl bal_drop by (auto simp: for_operation_def)
next
  case (Inr x)
  then have "s' = s\<lparr>wtrace := wtrace s @ [(Submit op fd a bs, True)]\<rparr>" "r = Inr x"
    using assms(2) by (auto simp: for_operation_def)
  then show ?thesis using assms(1) by (auto simp: bal_def posted_tokens_snoc)
qed

lemma bal_start_op:
  assumes "bal u s" and "start_op E t (\<lambda>a. Submit op fd a bs) s = (r, s')"
  shows "(\<forall>e. r = Inl e \<longrightarrow> bal u s') \<and>
    (\<forall>a x. r = Inr (a, x) \<longrightarrow> bal (u(a := Suc (u a))) s' \<and> (Submit op fd a bs, True) \<in> set (wtrace s'))"
proof -
  obtain a s1 where new: "OverlappedTask_new t s = (a, s1)" by (cases "OverlappedTask_new t s")
  have b1: "bal (u(a := Suc (u a))) s1" using bal_new [OF assms(1) new] by blast
  obtain q s2 where sub: "for_operation E a (Submit op fd a bs) (task_clone a s1) = (q, s2)"
    by (cases "for_operation E a (Submit op fd a bs) (task_clone a s1)")
  have "bal ((u(a := Suc (u a)))(a := Suc ((u(a := Suc (u a))) a))) (task_clone a s1)"
    using bal_clone [OF b1, of a] by simp
  then have b2: "bal (u(a := Suc (u a))) s2 \<and>
      (\<forall>x. q = Inr x \<longrightarrow> wtrace s2 = wtrace (task_clone a s1) @ [(Submit op fd a bs, True)])"
    using sub by (rule bal_for_operation)
  show ?thesis
    using assms(2) new sub b2 by (auto simp: start_op_def bal_drop split: sum.split_asm)
qed

lemmas start_op_Inl = bal_start_op [THEN conjunct1, rule_format]
lemmas start_op_Inr = bal_start_op [THEN conjunct2, rule_format, THEN conjunct1]

text \<open>What leaves the balance alone, as rules for the polls.\<close>

lemma bal_same [intro]:
  "bal u s \<Longrightarrow> bal u (give_up k b s)" "bal u s \<Longrightarrow> bal u (wsock_drop k s)"
  "bal u s \<Longrightarrow> bal u (free a s)" "bal u s \<Longrightarrow> bal u (close_socket fd s)"
  "bal u s \<Longrightarrow> bal u (register_iocp a t s)" "bal u s \<Longrightarrow> bal u (wsock_clone k s)"
  by (auto intro: bal_register bal_apart apart_give_up apart_wsock_drop apart_free apart_close
      apart_wsock_clone)

lemma bal_calls:
  "poll_socket E fd a s = (r, s') \<Longrightarrow> bal u s \<Longrightarrow> bal u s'"
  "wsys E c s = (r', s') \<Longrightarrow> idle c \<Longrightarrow> bal u s \<Longrightarrow> bal u s'"
  "from_accepted_stream E fd l s = (r'', s') \<Longrightarrow> bal u s \<Longrightarrow> bal u s'"
  "from_connected_stream E k s = (r'', s') \<Longrightarrow> bal u s \<Longrightarrow> bal u s'"
  "alloc bs s = (a', s') \<Longrightarrow> bal u s \<Longrightarrow> bal u s'"
  "ensure_bytes_safe b s = (b', s') \<Longrightarrow> bal u s \<Longrightarrow> bal u s'"
  "ensure_bytesmut_safe b s = (b', s') \<Longrightarrow> bal u s \<Longrightarrow> bal u s'"
  "add_wsock fd v s = (k', s') \<Longrightarrow> bal u s \<Longrightarrow> bal u s'"
  by (auto intro: bal_apart apart_poll_socket apart_sys apart_from_accepted apart_from_connected
      apart_alloc apart_ensure apart_add_wsock)

subsection \<open>The futures\<close>

datatype wfuture =
    FAccept accept_iocp
  | FConnect connect_iocp
  | FRead tcp_read_iocp
  | FWrite tcp_write_iocp
  | FRecvFrom recv_from_iocp
  | FSendTo send_to_iocp

text \<open>The task a future holds.\<close>

fun task_of :: "wfuture \<Rightarrow> addr option" where
  "task_of (FAccept (WAcceptPending _ _ _ a)) = Some a"
| "task_of (FConnect (WConnectPending _ a)) = Some a"
| "task_of (FRead (WReadPending _ _ a)) = Some a"
| "task_of (FWrite (WWritePending _ _ a)) = Some a"
| "task_of (FRecvFrom (WRecvFromPending _ _ _ a)) = Some a"
| "task_of (FSendTo (WSendToPending _ _ a)) = Some a"
| "task_of _ = None"

fun bump :: "(addr \<Rightarrow> nat) \<Rightarrow> addr option \<Rightarrow> addr \<Rightarrow> nat" where
  "bump u None = u"
| "bump u (Some a) = u(a := Suc (u a))"

lemma bal_Write:
  assumes "TcpWrite_poll_iocp E t st s = Val (r, st', s')" and "bal (bump u (task_of (FWrite st))) s"
  shows "bal (bump u (task_of (FWrite st'))) s'"
  using assms
  by (cases st) (auto simp: TcpWrite_poll_iocp_def split: prod.splits sum.splits option.splits Async.splits
      dest: start_op_Inl start_op_Inr bal_calls(1) [OF _ bal_same(5)] intro!: bal_drop bal_same)

lemma bal_Read:
  assumes "TcpRead_poll_iocp E t st s = Val (r, st', s')" and "bal (bump u (task_of (FRead st))) s"
  shows "bal (bump u (task_of (FRead st'))) s'"
  using assms
  by (cases st) (auto simp: TcpRead_poll_iocp_def split: prod.splits sum.splits option.splits Async.splits
      dest: start_op_Inl start_op_Inr bal_calls(1) [OF _ bal_same(5)] intro!: bal_drop bal_same)

lemma bal_SendTo:
  assumes "SendTo_poll_iocp E t st s = Val (r, st', s')" and "bal (bump u (task_of (FSendTo st))) s"
  shows "bal (bump u (task_of (FSendTo st'))) s'"
  using assms
  by (cases st) (auto simp: SendTo_poll_iocp_def sent_def split: prod.splits sum.splits option.splits Async.splits
      if_splits dest: start_op_Inl start_op_Inr bal_calls(1) [OF _ bal_same(5)] intro!: bal_drop bal_same)

lemma bal_received:
  assumes "received E k b n ab a s = Val (r, st', s')" and "bal (u(a := Suc (u a))) s"
  shows "bal (bump u (task_of (FRecvFrom st'))) s'"
  using assms by (auto simp: received_def split: option.split_asm intro!: bal_drop bal_same)

lemma bal_RecvFrom:
  assumes "RecvFrom_poll_iocp E t st s = Val (r, st', s')" and "bal (bump u (task_of (FRecvFrom st))) s"
  shows "bal (bump u (task_of (FRecvFrom st'))) s'"
proof (cases st)
  case WRecvFromNone
  then show ?thesis using assms by (simp add: RecvFrom_poll_iocp_def)
next
  case (WRecvFromInitial k b)
  obtain ab s1 where al: "alloc [] s = (ab, s1)" by (cases "alloc [] s")
  have b: "bal u s1" using bal_calls(5) [OF al] assms(2) WRecvFromInitial by simp
  show ?thesis
    using assms(1) WRecvFromInitial al
    by (auto simp: RecvFrom_poll_iocp_def split: prod.splits sum.splits option.splits
        dest: start_op_Inl [OF b] start_op_Inr [OF b] intro: bal_received intro!: bal_same)
next
  case (WRecvFromPending k b ab a)
  then show ?thesis
    using assms
    by (auto simp: RecvFrom_poll_iocp_def split: prod.splits sum.splits Async.splits
        dest: bal_calls(1) [OF _ bal_same(5)] intro: bal_received intro!: bal_drop bal_same)
qed

lemma bal_connected:
  assumes "connected E k s = Val (r, st', s')" and "bal u s"
  shows "bal (bump u (task_of (FConnect st'))) s'"
  using assms by (auto simp: connected_def split: prod.splits sum.splits dest: bal_calls(4))

lemma bal_Connect:
  assumes "Connect_poll_iocp E t st s = Val (r, st', s')" and "bal (bump u (task_of (FConnect st))) s"
  shows "bal (bump u (task_of (FConnect st'))) s'"
proof (cases st)
  case (WConnectInitial k p)
  then have b: "bal u s" using assms(2) by simp
  show ?thesis
    using assms(1) WConnectInitial
    by (auto simp: Connect_poll_iocp_def split: prod.splits sum.splits option.splits
        dest: start_op_Inl [OF b] start_op_Inr [OF b] bal_connected intro!: bal_same bal_drop)
next
  case (WConnectPending k a)
  then show ?thesis
    using assms
    by (auto simp: Connect_poll_iocp_def split: prod.splits sum.splits Async.splits
        dest: bal_calls(1) [OF _ bal_same(5)] bal_connected intro!: bal_drop bal_same)
qed (use assms in \<open>auto simp: Connect_poll_iocp_def\<close>)

lemma bal_accept_finish:
  assumes "accept_finish E l fd ab a s = Val (r, st', s')" and "bal (u(a := Suc (u a))) s"
  shows "bal (bump u (task_of (FAccept st'))) s'"
proof -
  have ends: "bal (u(a := Suc (u a))) v \<Longrightarrow> bal u (accept_done ab a l v)" for v
    unfolding accept_done_def by (auto intro!: bal_same bal_drop)
  show ?thesis
    using assms
    by (auto simp: accept_finish_def split: prod.splits sum.splits option.splits
        dest!: bal_calls(3) dest: bal_calls(2) intro!: ends bal_same)
qed

lemma bal_initiate:
  assumes "Accept_initiate E v4 t l s = Val (r, st', s')" and "bal u s"
  shows "bal (bump u (task_of (FAccept st'))) s'"
proof -
  obtain q s1 where new: "wsys E (NewTcp v4) s = (q, s1)" by (cases "wsys E (NewTcp v4) s")
  have b1: "bal u s1" using bal_calls(2) [OF new] assms(2) by simp
  obtain ab s2 where al: "alloc [] s1 = (ab, s2)" by (cases "alloc [] s1")
  have b2: "bal u s2" using bal_calls(5) [OF al b1] .
  show ?thesis
    using assms(1) new al b1
    by (auto simp: Accept_initiate_def split: prod.splits sum.splits option.splits
        dest: start_op_Inl [OF b2] start_op_Inr [OF b2] intro: bal_accept_finish intro!: bal_same)
qed

lemma bal_Accept:
  assumes "Accept_poll_iocp E t st s = Val (r, st', s')" and "bal (bump u (task_of (FAccept st))) s"
  shows "bal (bump u (task_of (FAccept st'))) s'"
proof (cases st)
  case WAcceptNone
  then show ?thesis using assms by (simp add: Accept_poll_iocp_def)
next
  case (WAcceptInitial l)
  then show ?thesis
    using assms bal_initiate
    by (auto simp: Accept_poll_iocp_def initiate_v4_def initiate_v6_def
        split: option.splits ip_version.splits)
next
  case (WAcceptPending l fd ab a)
  then show ?thesis
    using assms
    by (auto simp: Accept_poll_iocp_def split: prod.splits sum.splits Async.splits
        dest: bal_calls(1) [OF _ bal_same(5)] intro: bal_accept_finish intro!: bal_drop bal_same)
qed

text \<open>Any future, as a program sees it: it can be polled and dropped.\<close>

fun keep :: "('s \<Rightarrow> wfuture) \<Rightarrow> ('a \<times> 's \<times> iocp) rust \<Rightarrow> (wfuture \<times> iocp) rust" where
  "keep F (Val (_, st, s)) = Val (F st, s)"
| "keep F Panic = Panic"
| "keep F UB = UB"

fun future_poll :: "wenv \<Rightarrow> task \<Rightarrow> wfuture \<Rightarrow> iocp \<Rightarrow> (wfuture \<times> iocp) rust" where
  "future_poll E t (FAccept st) s = keep FAccept (Accept_poll_iocp E t st s)"
| "future_poll E t (FConnect st) s = keep FConnect (Connect_poll_iocp E t st s)"
| "future_poll E t (FRead st) s = keep FRead (TcpRead_poll_iocp E t st s)"
| "future_poll E t (FWrite st) s = keep FWrite (TcpWrite_poll_iocp E t st s)"
| "future_poll E t (FRecvFrom st) s = keep FRecvFrom (RecvFrom_poll_iocp E t st s)"
| "future_poll E t (FSendTo st) s = keep FSendTo (SendTo_poll_iocp E t st s)"

fun future_drop :: "wenv \<Rightarrow> wfuture \<Rightarrow> iocp \<Rightarrow> iocp" where
  "future_drop E (FAccept st) s = Accept_drop_iocp st s"
| "future_drop E (FConnect st) s = Connect_drop_iocp st s"
| "future_drop E (FRead st) s = TcpRead_drop_iocp E st s"
| "future_drop E (FWrite st) s = TcpWrite_drop_iocp E st s"
| "future_drop E (FRecvFrom st) s = RecvFrom_drop_iocp E st s"
| "future_drop E (FSendTo st) s = SendTo_drop_iocp E st s"

lemma keep_Val: "keep F x = Val (f, s) \<longleftrightarrow> (\<exists>r st. x = Val (r, st, s) \<and> f = F st)"
  by (cases "(F, x)" rule: keep.cases) auto

lemma bal_future_poll:
  assumes "future_poll E t f s = Val (f', s')" and "bal (bump u (task_of f)) s"
  shows "bal (bump u (task_of f')) s'"
proof (cases f)
  case (FAccept st)
  then show ?thesis using assms bal_Accept by (auto simp: keep_Val)
next
  case (FConnect st)
  then show ?thesis using assms bal_Connect by (auto simp: keep_Val)
next
  case (FRead st)
  then show ?thesis using assms bal_Read by (auto simp: keep_Val)
next
  case (FWrite st)
  then show ?thesis using assms bal_Write by (auto simp: keep_Val)
next
  case (FRecvFrom st)
  then show ?thesis using assms bal_RecvFrom by (auto simp: keep_Val)
next
  case (FSendTo st)
  then show ?thesis using assms bal_SendTo by (auto simp: keep_Val)
qed

lemma bal_cancel:
  assumes "cancel_socket E fd a s = (r, s')" and "bal (u(a := Suc (u a))) s"
  shows "case r of Inl _ \<Rightarrow> bal u (task_drop a s') | Inr _ \<Rightarrow> bal u s'"
  using assms
  by (auto simp: cancel_socket_def split: prod.split_asm sum.split_asm intro!: bal_drop
      dest: bal_calls(2))

lemma bal_cancel_and_drop:
  "bal (u(a := Suc (u a))) s \<Longrightarrow> bal u (cancel_and_drop E k b a s)"
  using bal_cancel
  by (fastforce simp: cancel_and_drop_def split: prod.split sum.split)

lemma bal_RecvFrom_drop:
  "bal (bump u (task_of (FRecvFrom st))) s \<Longrightarrow> bal u (RecvFrom_drop_iocp E st s)"
  using bal_cancel
  by (cases st) (fastforce split: prod.split sum.split)+

lemma bal_future_drop:
  assumes "bal (bump u (task_of f)) s"
  shows "bal u (future_drop E f s)"
proof (cases f)
  case (FAccept st)
  then show ?thesis using assms by (cases st) (auto intro!: bal_same bal_drop)
next
  case (FConnect st)
  then show ?thesis using assms by (cases st) (auto intro!: bal_same bal_drop)
next
  case (FRead st)
  then show ?thesis using assms by (cases st) (auto intro: bal_same bal_cancel_and_drop)
next
  case (FWrite st)
  then show ?thesis using assms by (cases st) (auto intro: bal_same bal_cancel_and_drop)
next
  case (FRecvFrom st)
  then show ?thesis using assms bal_RecvFrom_drop by auto
next
  case (FSendTo st)
  then show ?thesis using assms by (cases st) (auto intro: bal_same bal_cancel_and_drop)
qed

subsection \<open>A turn\<close>

lemma bal_dequeue:
  assumes "bal u s" and "tok = FUTURE_NOTIFY_IOCP_TOKEN \<Longrightarrow> 0 < owed ov (wtrace s)"
    and "tok \<noteq> FUTURE_NOTIFY_IOCP_TOKEN \<Longrightarrow> tok \<in> posted_tokens (wtrace s)"
  shows "\<exists>s'. complete_one (tok, ov) (s\<lparr>wtrace := wtrace s @ [(GetQueuedStatus ms, True), (Dequeued tok ov, True)]\<rparr>)
    = Val s' \<and> bal u s'"
proof -
  let ?t = "wtrace s @ [(GetQueuedStatus ms, True)]"
  have tr: "wtrace s @ [(GetQueuedStatus ms, True), (Dequeued tok ov, True)] = ?t @ [(Dequeued tok ov, True)]"
    by simp
  let ?s = "s\<lparr>wtrace := ?t @ [(Dequeued tok ov, True)]\<rparr>"
  show ?thesis
  proof (cases "tok = FUTURE_NOTIFY_IOCP_TOKEN")
    case True
    have b: "bal (u(ov := Suc (u ov))) ?s"
      using assms(1) assms(2) [OF True] True
      by (auto simp: bal_def posted_tokens_snoc counted_def simp del: append_assoc)
    then have c: "cells ?s ov \<noteq> None"
      by (simp add: bal_def counted_def del: append_assoc)
    have "bal u (task_drop ov (wemit (NotifyTask ov) ?s))"
      by (rule bal_drop, rule bal_apart [OF b apart_emit]) simp
    then show ?thesis using c True unfolding tr by (auto simp: complete_one_def)
  next
    case False
    have b: "bal u ?s"
      using assms(1) False by (auto simp: bal_def posted_tokens_snoc simp del: append_assoc)
    have m: "tok \<in> set (event_table ?s)"
      using assms(1) assms(3) [OF False] by (auto simp: bal_def)
    have "bal u (wemit (CallHandler tok (of_nat ov)) ?s)"
      by (rule bal_apart [OF b apart_emit]) simp
    then show ?thesis using m False unfolding tr by (auto simp: complete_one_def)
  qed
qed

lemma bal_turn:
  assumes "bal u s" and "packets_ok E"
  shows "turn_iocp E chk m s \<noteq> UB"
    and "turn_iocp E chk m s = Val (r, s') \<Longrightarrow> bal u s'"
proof -
  have "turn_iocp E chk m s \<noteq> UB \<and> (turn_iocp E chk m s = Val (r, s') \<longrightarrow> bal u s')"
  proof (cases "timeout_iocp E chk m")
    case Panic
    then show ?thesis by (simp add: turn_iocp_def poll_iocp_def)
  next
    case UB
    then show ?thesis
      by (auto simp: timeout_iocp_def mul_u64_def add_u32_def split: option.splits prod.splits if_splits rust.splits)
  next
    case (Val ms)
    have b0: "bal u (s\<lparr>wtrace := wtrace s @ [(GetQueuedStatus ms, ok)]\<rparr>)" for ok
      using assms(1) by (rule bal_apart) (simp add: apart_def)
    show ?thesis
    proof (cases "w_wait E (wtrace s) (GetQueuedStatus ms)")
      case (Inl e)
      then show ?thesis using Val b0 by (auto simp: turn_iocp_def poll_iocp_def Let_def)
    next
      case (Inr cs)
      have ok: "length cs \<le> 1" "\<forall>(tok, ov) \<in> set cs.
          if tok = FUTURE_NOTIFY_IOCP_TOKEN then 0 < owed ov (wtrace s)
          else (\<exists>d. ov = unat d \<and> (PostStatus tok d, True) \<in> set (wtrace s))"
        using assms(2) Inr unfolding packets_ok_def by blast+
      show ?thesis
      proof (cases cs)
        case Nil
        then show ?thesis using Val Inr b0 by (auto simp: turn_iocp_def poll_iocp_def Let_def)
      next
        case (Cons c cs')
        then have c: "cs = [c]" using ok(1) by (cases cs') auto
        obtain tok ov where "c = (tok, ov)" by (cases c)
        then have "\<exists>s'. complete_one c (s\<lparr>wtrace := wtrace s @ [(GetQueuedStatus ms, True), (Dequeued tok ov, True)]\<rparr>)
            = Val s' \<and> bal u s'"
          using bal_dequeue [OF assms(1), of tok ov] ok(2) c
          by (cases "tok = FUTURE_NOTIFY_IOCP_TOKEN") (auto simp: posted_tokens_def)
        then show ?thesis
          using Val Inr c \<open>c = (tok, ov)\<close> by (auto simp: turn_iocp_def poll_iocp_def Let_def)
      qed
    qed
  qed
  then show "turn_iocp E chk m s \<noteq> UB" and "turn_iocp E chk m s = Val (r, s') \<Longrightarrow> bal u s'"
    by blast+
qed

subsection \<open>Programs\<close>

text \<open>
  A program with its futures: it turns the port, posts custom events with tags it was given, makes and
  drops sockets and buffers, and makes, polls and drops futures.
\<close>

inductive iocp_step ::
  "wenv \<Rightarrow> bool \<Rightarrow> wfuture list \<times> iocp \<Rightarrow> wfuture list \<times> iocp \<Rightarrow> bool" for E chk where
  Turn: "turn_iocp E chk m s = Val (r, s') \<Longrightarrow> iocp_step E chk (fs, s) (fs, s')"
| NewEvent: "new_custom_event_iocp s = (tag, s') \<Longrightarrow> iocp_step E chk (fs, s) (fs, s')"
| Post: "post_custom_event_iocp E tag d s = Val (r, s') \<Longrightarrow>
    (iocp_id tag = port s \<Longrightarrow> callback_ptr tag \<in> set (event_table s)) \<Longrightarrow>
    iocp_step E chk (fs, s) (fs, s')"
| Clone: "iocp_step E chk (fs, s) (fs, CompletionPort_handle s)"
| DropHandle: "iocp_step E chk (fs, s) (fs, drop_port s)"
| Listen: "TcpListener_from_listener_iocp E fd s = (r, s') \<Longrightarrow> iocp_step E chk (fs, s) (fs, s')"
| Stream: "TcpStream_from_stream_iocp E fd s = (r, s') \<Longrightarrow> iocp_step E chk (fs, s) (fs, s')"
| Datagram: "UdpSocket_from_socket_iocp E fd s = (r, s') \<Longrightarrow> iocp_step E chk (fs, s) (fs, s')"
| ConnectDatagram: "UdpSocket_connect_iocp E k p s = (r, s') \<Longrightarrow> iocp_step E chk (fs, s) (fs, s')"
| CloneSocket: "iocp_step E chk (fs, s) (fs, wsock_clone k s)"
| DropSocket: "iocp_step E chk (fs, s) (fs, wsock_drop k s)"
| NewBuffer: "alloc bs s = (a, s') \<Longrightarrow> iocp_step E chk (fs, s) (fs, s')"
| DropBuffer: "iocp_step E chk (fs, s) (fs, buf_drop b s)"
| Accept: "TcpListener_accept_iocp l s = (st, s') \<Longrightarrow> iocp_step E chk (fs, s) (fs @ [FAccept st], s')"
| Connect: "TcpStream_connect_iocp E p s = (st, s') \<Longrightarrow> iocp_step E chk (fs, s) (fs @ [FConnect st], s')"
| Read: "TcpStream_read_iocp k b s = (st, s') \<Longrightarrow> iocp_step E chk (fs, s) (fs @ [FRead st], s')"
| Write: "TcpStream_write_iocp k b s = (st, s') \<Longrightarrow> iocp_step E chk (fs, s) (fs @ [FWrite st], s')"
| RecvFrom: "UdpSocket_recv_from_iocp k b s = (st, s') \<Longrightarrow> iocp_step E chk (fs, s) (fs @ [FRecvFrom st], s')"
| SendTo: "UdpSocket_send_to_iocp k b p s = (st, s') \<Longrightarrow> iocp_step E chk (fs, s) (fs @ [FSendTo st], s')"
| Poll: "future_poll E t f s = Val (f', s') \<Longrightarrow> iocp_step E chk (fs @ f # gs, s) (fs @ f' # gs, s')"
| Drop: "iocp_step E chk (fs @ f # gs, s) (fs @ gs, future_drop E f s)"

inductive iocp_reachable :: "wenv \<Rightarrow> bool \<Rightarrow> wfuture list \<times> iocp \<Rightarrow> bool" for E chk where
  Start: "CompletionPort_new E n = Inr s \<Longrightarrow> iocp_reachable E chk ([], s)"
| Step: "iocp_reachable E chk p \<Longrightarrow> iocp_step E chk p q \<Longrightarrow> iocp_reachable E chk q"

text \<open>The futures that hold a reference to \<open>a\<close>.\<close>

definition users :: "wfuture list \<Rightarrow> addr \<Rightarrow> nat" where
  "users fs a = length (filter (\<lambda>f. task_of f = Some a) fs)"

lemma users_split: "users (fs @ f # gs) = bump (users (fs @ gs)) (task_of f)"
  by (cases "task_of f") (auto simp: users_def fun_eq_iff)

lemma users_new: "task_of f = None \<Longrightarrow> users (fs @ [f]) = users fs"
  by (auto simp: users_def fun_eq_iff)

lemma apart_make:
  "TcpListener_from_listener_iocp E fd s = (r, s') \<Longrightarrow> apart s s'"
  "TcpStream_from_stream_iocp E fd s = (r, s') \<Longrightarrow> apart s s'"
  "UdpSocket_from_socket_iocp E fd s = (r, s') \<Longrightarrow> apart s s'"
  "UdpSocket_connect_iocp E k p s = (r'', s') \<Longrightarrow> apart s s'"
  by (auto 0 3 simp: TcpListener_from_listener_iocp_def TcpStream_from_stream_iocp_def
      UdpSocket_from_socket_iocp_def UdpSocket_connect_iocp_def add_socket_def map_prod_def
      split: prod.splits sum.splits if_splits dest!: apart_sys apart_add_wsock intro: apart_trans apart_close)

lemma bal_future_new:
  "TcpListener_accept_iocp l s = (st, s') \<Longrightarrow> bal u s \<Longrightarrow> bal u s' \<and> task_of (FAccept st) = None"
  "TcpStream_read_iocp k b s = (st1, s') \<Longrightarrow> bal u s \<Longrightarrow> bal u s' \<and> task_of (FRead st1) = None"
  "TcpStream_write_iocp k b s = (st2, s') \<Longrightarrow> bal u s \<Longrightarrow> bal u s' \<and> task_of (FWrite st2) = None"
  "UdpSocket_recv_from_iocp k b s = (st3, s') \<Longrightarrow> bal u s \<Longrightarrow> bal u s' \<and> task_of (FRecvFrom st3) = None"
  "UdpSocket_send_to_iocp k b p s = (st4, s') \<Longrightarrow> bal u s \<Longrightarrow> bal u s' \<and> task_of (FSendTo st4) = None"
  by (auto simp: TcpListener_accept_iocp_def TcpStream_read_iocp_def TcpStream_write_iocp_def
      UdpSocket_recv_from_iocp_def UdpSocket_send_to_iocp_def split: prod.splits
      intro!: bal_same intro: bal_calls)

lemma bal_connect_new:
  "TcpStream_connect_iocp E p s = (st, s') \<Longrightarrow> bal u s \<Longrightarrow> bal u s' \<and> task_of (FConnect st) = None"
  by (auto simp: TcpStream_connect_iocp_def split: prod.splits sum.splits
      dest!: apart_sys apart_make(2) intro: bal_apart apart_trans apart_close)

lemma bal_event:
  "new_custom_event_iocp s = (tag, s') \<Longrightarrow> bal u s \<Longrightarrow> bal u s'"
  by (force simp: new_custom_event_iocp_def bal_def Let_def FUTURE_NOTIFY_IOCP_TOKEN_def less_Suc_eq)

lemma bal_post:
  assumes "post_custom_event_iocp E tag d s = Val (r, s')" and "bal u s"
    and "iocp_id tag = port s \<Longrightarrow> callback_ptr tag \<in> set (event_table s)"
  shows "bal u s'"
  using assms
  by (cases "w_call E (wtrace s) (PostStatus (callback_ptr tag) d)")
    (auto simp: post_custom_event_iocp_def wsys_def Let_def bal_def posted_tokens_snoc split: if_splits)

lemma bal_step:
  assumes "iocp_step E chk (fs, s) (gs, s')" and "packets_ok E" and b: "bal (users fs) s"
  shows "bal (users gs) s'"
  using assms(1)
proof cases
  case (Turn m r)
  then show ?thesis using bal_turn(2) [OF b assms(2)] by blast
next
  case (NewEvent tag)
  then show ?thesis using bal_event b by blast
next
  case (Post tag d r)
  then show ?thesis using bal_post b by blast
next
  case Clone
  then show ?thesis using b by (auto intro: bal_apart simp: CompletionPort_handle_def)
next
  case DropHandle
  then show ?thesis using b apart_drop_port by (auto intro: bal_apart)
next
  case (Listen fd r)
  then show ?thesis using b apart_make(1) by (blast intro: bal_apart)
next
  case (Stream fd r)
  then show ?thesis using b apart_make(2) by (blast intro: bal_apart)
next
  case (Datagram fd r)
  then show ?thesis using b apart_make(3) by (blast intro: bal_apart)
next
  case (ConnectDatagram k p r)
  then show ?thesis using b apart_make(4) by (blast intro: bal_apart)
next
  case CloneSocket
  then show ?thesis using b bal_same(6) by blast
next
  case DropSocket
  then show ?thesis using b bal_same(2) by blast
next
  case (NewBuffer bs a)
  then show ?thesis using b bal_calls(5) by blast
next
  case DropBuffer
  then show ?thesis using b apart_buf_drop by (blast intro: bal_apart)
next
  case (Accept l st)
  then show ?thesis using bal_future_new(1) [OF _ b] by (simp add: users_new)
next
  case (Connect p st)
  then show ?thesis using bal_connect_new [OF _ b] by (simp add: users_new)
next
  case (Read k bf st)
  then show ?thesis using bal_future_new(2) [OF _ b] by (simp add: users_new)
next
  case (Write k bf st)
  then show ?thesis using bal_future_new(3) [OF _ b] by (simp add: users_new)
next
  case (RecvFrom k bf st)
  then show ?thesis using bal_future_new(4) [OF _ b] by (simp add: users_new)
next
  case (SendTo k bf p st)
  then show ?thesis using bal_future_new(5) [OF _ b] by (simp add: users_new)
next
  case (Poll t f f' xs ys)
  then show ?thesis using bal_future_poll b by (simp add: users_split)
next
  case (Drop xs f ys)
  then show ?thesis using bal_future_drop b by (simp add: users_split)
qed

lemma bal_reachable:
  assumes "iocp_reachable E chk p" and "packets_ok E"
  shows "bal (users (fst p)) (snd p)"
  using assms(1)
proof induction
  case (Start n s)
  then show ?case
    by (auto simp: CompletionPort_new_def bal_def users_def counted_def posted_tokens_def owed_def
        split: sum.splits)
next
  case (Step p q)
  then show ?case using bal_step [OF _ assms(2)] by (metis prod.collapse)
qed

lemma owed_apart: "apart s s' \<Longrightarrow> owed a (wtrace s') = owed a (wtrace s)"
  by (auto simp: apart_def owed_idle)

lemma apart_task_drop_wtrace [simp]: "wtrace (task_drop a s) = wtrace s"
  by (simp add: task_drop_def)

lemma bufs_keep [simp]:
  "bufs (task_drop a s) = bufs s" "bufs (wsock_drop k s) = bufs s" "bufs (drop_port s) = bufs s"
  by (simp_all add: task_drop_def wsock_drop_def close_socket_def drop_port_def wemit_def Let_def
      split: option.split)

end
