(* ===== verification/IocpSafety.thy ===== *)
theory IocpSafety
  imports IocpRuns
begin

text \<open>
  The properties of the completion port and of the sockets over it (\<open>src/src/iocp/mod.rs\<close>,
  \<open>src/src/iocp/net.rs\<close>): references and memory, packets and the futures they wake, custom events, timeouts,
  and the buffers of canceled operations.
\<close>

subsection \<open>A port in use\<close>

text \<open>
  A kernel on which every overlapped operation is under way until a turn, and which returns a packet that
  is owed or one that was posted.
\<close>

definition submitted :: "wtrace \<Rightarrow> addr list" where
  "submitted tr = List.map_filter (\<lambda>c. case c of (Submit _ _ a _, True) \<Rightarrow> Some a | _ \<Rightarrow> None) tr"

definition posted :: "wtrace \<Rightarrow> (addr \<times> nat) list" where
  "posted tr = List.map_filter (\<lambda>c. case c of (PostStatus p d, True) \<Rightarrow>
     if p = FUTURE_NOTIFY_IOCP_TOKEN then None else Some (p, unat d) | _ \<Rightarrow> None) tr"

definition windows :: wenv where
  "windows = \<lparr>w_call = (\<lambda>tr c. Inr 100),
     w_submit = (\<lambda>tr c. Inr None),
     w_status = (\<lambda>tr a. if a \<in> set (submitted tr) \<and> owed a tr = 0 then 0 else 259),
     w_result = (\<lambda>tr c. Inr (5, 0)),
     w_wait = (\<lambda>tr c. case filter (\<lambda>a. 0 < owed a tr) (submitted tr) of
        a # _ \<Rightarrow> Inr [(FUTURE_NOTIFY_IOCP_TOKEN, a)]
      | [] \<Rightarrow> (case posted tr of x # _ \<Rightarrow> Inr [x] | [] \<Rightarrow> Inl 258)),
     w_addr = (\<lambda>tr a. Some 0),
     is_ipv4 = (\<lambda>a. True),
     STATUS_PENDING = 259, WAIT_TIMEOUT = 258, WAIT_IO_COMPLETION = 192, INFINITE = 4294967295\<rparr>"

lemma posted_in_trace:
  "(p, n) \<in> set (posted tr) \<Longrightarrow>
   p \<noteq> FUTURE_NOTIFY_IOCP_TOKEN \<and> (\<exists>d. n = unat d \<and> (PostStatus p d, True) \<in> set tr)"
  by (auto simp: posted_def map_filter_def split: wcall.split_asm bool.split_asm if_split_asm)

lemma windows_packets_ok: "packets_ok windows"
proof -
  have "length cs \<le> 1 \<and> (\<forall>(tok, ov) \<in> set cs. if tok = FUTURE_NOTIFY_IOCP_TOKEN then 0 < owed ov tr
      else (\<exists>d. ov = unat d \<and> (PostStatus tok d, True) \<in> set tr))"
    if wait: "w_wait windows tr (GetQueuedStatus ms) = Inr cs" for tr ms cs
  proof (cases "filter (\<lambda>a. 0 < owed a tr) (submitted tr)")
    case (Cons a as)
    then have "cs = [(FUTURE_NOTIFY_IOCP_TOKEN, a)]" "0 < owed a tr"
      using wait by (auto simp: windows_def filter_eq_Cons_iff)
    then show ?thesis by simp
  next
    case Nil
    then obtain p n where "cs = [(p, n)]" "(p, n) \<in> set (posted tr)"
      using wait by (auto simp: windows_def split: list.split_asm)
    then show ?thesis using posted_in_trace by fastforce
  qed
  then show ?thesis unfolding packets_ok_def by blast
qed

text \<open>A stream on socket 5 whose read is under way: its buffer is at 8, its task at 10.\<close>

definition fresh_port :: iocp where
  "fresh_port = \<lparr>wtrace = [(CreatePort 4, True)], port = 100, port_refs = 1, event_table = [],
     cells = Map.empty, bufs = Map.empty, wsocks = Map.empty, wfresh = 8\<rparr>"

definition stream_port :: iocp where
  "stream_port = fresh_port\<lparr>wtrace := [(CreatePort 4, True), (AddSocket 5, True)], port_refs := 2,
     bufs := [8 \<mapsto> [0, 0, 0, 0]], wsocks := [9 \<mapsto> \<lparr>wrefs = 1, raw = 5, ip_version = None\<rparr>], wfresh := 10\<rparr>"

definition reading_port :: iocp where
  "reading_port = stream_port\<lparr>wtrace := [(CreatePort 4, True), (AddSocket 5, True),
     (RegisterTask 10 3, True), (Submit OpRead 5 10 [8], True)], cells := [10 \<mapsto> 2], wfresh := 11\<rparr>"

lemmas port_defs = fresh_port_def stream_port_def reading_port_def windows_def

lemma stream_port_reachable: "iocp_reachable windows True ([], stream_port)"
proof -
  have "iocp_reachable windows True ([], fresh_port)"
    by (rule iocp_reachable.Start [where n = 4]) (simp add: CompletionPort_new_def port_defs)
  moreover have "iocp_step windows True ([], fresh_port) ([], snd (alloc [0, 0, 0, 0] fresh_port))"
    by (rule iocp_step.NewBuffer) (rule prod.collapse [symmetric])
  moreover have "iocp_step windows True ([], snd (alloc [0, 0, 0, 0] fresh_port)) ([], stream_port)"
    by (rule iocp_step.Stream [where fd = 5 and r = "Inr 9"])
      (simp add: TcpStream_from_stream_iocp_def add_socket_def wsys_def alloc_def add_wsock_def
        CompletionPort_handle_def port_defs Let_def)
  ultimately show ?thesis by (meson iocp_reachable.Step)
qed

lemma reading_port_reachable:
  "iocp_reachable windows True ([FRead (WReadPending 9 (Heap 8) 10)], reading_port)"
proof -
  have "iocp_step windows True ([], stream_port) ([] @ [FRead (WReadInitial 9 (Heap 8))], stream_port)"
    by (rule iocp_step.Read [where k = 9 and b = "Heap 8"])
      (simp add: TcpStream_read_iocp_def wsock_clone_def wsock_drop_def port_defs)
  moreover have "iocp_step windows True ([] @ FRead (WReadInitial 9 (Heap 8)) # [], stream_port)
      ([] @ FRead (WReadPending 9 (Heap 8) 10) # [], reading_port)"
    by (rule iocp_step.Poll [where t = 3])
      (simp add: TcpRead_poll_iocp_def start_op_def OverlappedTask_new_def register_iocp_def wemit_def
        task_clone_def for_operation_def raw_of_def port_defs Let_def numeral_2_eq_2)
  ultimately show ?thesis using stream_port_reachable by (auto intro: iocp_reachable.Step)
qed

subsection \<open>References\<close>

text \<open>
  C7. References are exact: in every state that programs reach, an overlapped task is allocated exactly
  while a future waits on it or its packet is owed, and its count is the number of both.  So no
  packet is taken for freed memory, and nothing leaks once the packets are in.
\<close>

theorem overlapped_references_exact:
  assumes "iocp_reachable E chk (fs, s)" and "packets_ok E"
  shows "cells s a = (let n = length (filter (\<lambda>f. task_of f = Some a) fs) + owed a (wtrace s)
    in if n = 0 then None else Some n)"
  using bal_reachable [OF assms] by (simp add: bal_def counted_def users_def)

theorem overlapped_references_exact_witness:
  "cells reading_port 10 = Some 2 \<and> owed 10 (wtrace reading_port) = 1"
  using overlapped_references_exact [OF reading_port_reachable windows_packets_ok, of 10]
  by (simp add: port_defs owed_def)

text \<open>
  C25. A turn makes no \<open>Arc\<close> of freed memory and calls no handler that is not there, in every state that
  programs reach.
\<close>

theorem iocp_turn_memory_safe:
  assumes "iocp_reachable E chk (fs, s)" and "packets_ok E"
  shows "turn_iocp E chk m s \<noteq> UB"
  using bal_turn(1) bal_reachable [OF assms] assms(2) by simp

theorem iocp_turn_memory_safe_witness:
  "turn_iocp windows True None reading_port \<noteq> UB"
  by (rule iocp_turn_memory_safe [OF reading_port_reachable windows_packets_ok])

subsection \<open>Packets\<close>

text \<open>What a turn does with the one packet it dequeues.\<close>

lemma turn_one:
  assumes "timeout_iocp E chk m = Val ms" and "w_wait E (wtrace s) (GetQueuedStatus ms) = Inr [(tok, ov)]"
  shows "turn_iocp E chk m s =
    (case complete_one (tok, ov) (s\<lparr>wtrace := wtrace s @ [(GetQueuedStatus ms, True), (Dequeued tok ov, True)]\<rparr>) of
       Val s' \<Rightarrow> Val (Inr 1, s') | Panic \<Rightarrow> Panic | UB \<Rightarrow> UB)"
  using assms by (auto simp: turn_iocp_def poll_iocp_def Let_def split: rust.splits)

text \<open>
  A packet wakes its future: when the port returns the packet of the task a pending future waits
  on, the turn answers 1 and notifies that task, the packet's reference is given back, and the task is
  still there for the future to be polled again.
\<close>

theorem iocp_packet_wakes_future:
  assumes "iocp_reachable E chk (fs, s)" and "packets_ok E" and "f \<in> set fs" and "task_of f = Some a"
    and "timeout_iocp E chk m = Val ms"
    and "w_wait E (wtrace s) (GetQueuedStatus ms) = Inr [(FUTURE_NOTIFY_IOCP_TOKEN, a)]"
  shows "\<exists>s'. turn_iocp E chk m s = Val (Inr 1, s') \<and> last (wtrace s') = (NotifyTask a, True) \<and>
    owed a (wtrace s) = Suc (owed a (wtrace s')) \<and> cells s' a \<noteq> None"
proof -
  have b: "bal (users fs) s" using bal_reachable [OF assms(1,2)] by simp
  have pos: "0 < owed a (wtrace s)"
    using assms(2,6) by (fastforce simp: packets_ok_def)
  have used: "0 < users fs a" using assms(3,4) by (auto simp: users_def filter_empty_conv)
  have tr: "wtrace s @ [(GetQueuedStatus ms, True), (Dequeued FUTURE_NOTIFY_IOCP_TOKEN a, True)]
      = (wtrace s @ [(GetQueuedStatus ms, True)]) @ [(Dequeued FUTURE_NOTIFY_IOCP_TOKEN a, True)]" by simp
  let ?s = "s\<lparr>wtrace := wtrace s @ [(GetQueuedStatus ms, True), (Dequeued FUTURE_NOTIFY_IOCP_TOKEN a, True)]\<rparr>"
  let ?s' = "task_drop a (wemit (NotifyTask a) ?s)"
  have "cells s a \<noteq> None" using b used by (auto simp: bal_def counted_def)
  then have one: "complete_one (FUTURE_NOTIFY_IOCP_TOKEN, a) ?s = Val ?s'"
    by (auto simp: complete_one_def)
  obtain s' where "complete_one (FUTURE_NOTIFY_IOCP_TOKEN, a) ?s = Val s'" "bal (users fs) s'"
    using bal_dequeue [OF b, of FUTURE_NOTIFY_IOCP_TOKEN a ms] pos by auto
  then have "cells ?s' a \<noteq> None" using one used by (auto simp: bal_def counted_def)
  moreover have "owed a (wtrace ?s) = owed a (wtrace s) - 1"
    unfolding tr by (simp del: append_assoc)
  then have "owed a (wtrace ?s') = owed a (wtrace s) - 1"
    by (simp add: wemit_def flip: append_assoc)
  moreover have "last (wtrace ?s') = (NotifyTask a, True)" by (simp add: wemit_def)
  ultimately show ?thesis using turn_one [OF assms(5,6)] one pos by (intro exI [of _ ?s']) simp
qed

theorem iocp_packet_wakes_future_witness:
  "\<exists>s'. turn_iocp windows True None reading_port = Val (Inr 1, s') \<and> last (wtrace s') = (NotifyTask 10, True) \<and>
    owed 10 (wtrace reading_port) = Suc (owed 10 (wtrace s')) \<and> cells s' 10 \<noteq> None"
  by (rule iocp_packet_wakes_future [OF reading_port_reachable windows_packets_ok,
        of "FRead (WReadPending 9 (Heap 8) 10)" 10 None "- 1"])
    (simp_all add: port_defs timeout_iocp_def submitted_def map_filter_simps owed_def)

text \<open>
  C28. A word that is posted comes back as it is.  A program posts a word to a tag, and then does whatever
  programs do; when a turn gets the packet that this call has posted, it calls the handler of the tag,
  with the very word.  (\<open>posted\<close> reads off the packets, key and data, that the calls of a trace have posted.)
\<close>

theorem iocp_custom_event_roundtrip:
  assumes "iocp_reachable E chk (fs, s)" and "packets_ok E"
    and "callback_ptr tag \<in> set (event_table s)"
    and "post_custom_event_iocp E tag d s = Val (Inr x, s1)"
    and "(iocp_step E chk)\<^sup>*\<^sup>* (fs, s1) (gs, s2)"
    and "timeout_iocp E chk m = Val ms"
    and "w_wait E (wtrace s2) (GetQueuedStatus ms) = Inr [c]"
    and "c \<in> set (posted (drop (length (wtrace s)) (wtrace s1)))"
  shows "\<exists>s3. turn_iocp E chk m s2 = Val (Inr 1, s3) \<and> last (wtrace s3) = (CallHandler (callback_ptr tag) d, True)"
proof -
  have "wtrace s1 = wtrace s @ [(PostStatus (callback_ptr tag) d, True)]"
    using assms(4) by (auto simp: post_custom_event_iocp_def wsys_def Let_def split: if_splits)
  then have c: "c = (callback_ptr tag, unat d)" "callback_ptr tag \<noteq> FUTURE_NOTIFY_IOCP_TOKEN"
    using assms(8) by (auto simp: posted_def map_filter_simps split: if_splits)
  have "iocp_step E chk (fs, s) (fs, s1)" using assms(3,4) iocp_step.Post by blast
  then have "iocp_reachable E chk (fs, s1)" using assms(1) by (rule iocp_reachable.Step [rotated])
  with assms(5) have "iocp_reachable E chk (gs, s2)"
    by (induction rule: rtranclp_induct2) (auto intro: iocp_reachable.Step)
  then have "bal (users gs) s2" using bal_reachable [OF _ assms(2)] by fastforce
  moreover have "callback_ptr tag \<in> posted_tokens (wtrace s2)"
    using assms(2,7) c by (fastforce simp: packets_ok_def posted_tokens_def)
  ultimately have "callback_ptr tag \<in> set (event_table s2)" by (auto simp: bal_def)
  then show ?thesis
    using turn_one [OF assms(6) assms(7) [unfolded c(1)]] c(2) by (simp add: complete_one_def wemit_def)
qed

definition event_port :: iocp where
  "event_port = stream_port\<lparr>event_table := [10], wfresh := 11\<rparr>"

lemma event_port_reachable: "iocp_reachable windows True ([], event_port)"
proof -
  have "iocp_step windows True ([], stream_port) ([], event_port)"
    by (rule iocp_step.NewEvent [where tag = "\<lparr>callback_ptr = 10, iocp_id = 100\<rparr>"])
      (simp add: new_custom_event_iocp_def event_port_def port_defs Let_def)
  with stream_port_reachable show ?thesis by (rule iocp_reachable.Step)
qed

theorem iocp_custom_event_roundtrip_witness:
  "\<exists>s1 s2. post_custom_event_iocp windows \<lparr>callback_ptr = 10, iocp_id = 100\<rparr> 42 event_port = Val (Inr 100, s1) \<and>
    turn_iocp windows True None s1 = Val (Inr 1, s2) \<and> last (wtrace s2) = (CallHandler 10 42, True)"
proof -
  let ?tag = "\<lparr>callback_ptr = 10, iocp_id = 100\<rparr>"
  let ?s1 = "event_port\<lparr>wtrace := wtrace event_port @ [(PostStatus 10 42, True)]\<rparr>"
  have post: "post_custom_event_iocp windows ?tag 42 event_port = Val (Inr 100, ?s1)"
    by (simp add: post_custom_event_iocp_def wsys_def event_port_def port_defs Let_def)
  have "\<exists>s2. turn_iocp windows True None ?s1 = Val (Inr 1, s2) \<and> last (wtrace s2) = (CallHandler (callback_ptr ?tag) 42, True)"
    by (rule iocp_custom_event_roundtrip [OF event_port_reachable windows_packets_ok _ post rtranclp.rtrancl_refl,
          of None "- 1" "(10, 42)"])
      (simp_all add: event_port_def port_defs timeout_iocp_def submitted_def posted_def map_filter_simps
        FUTURE_NOTIFY_IOCP_TOKEN_def)
  with post show ?thesis by (simp del: One_nat_def)
qed

subsection \<open>Timeouts\<close>



subsection \<open>Futures\<close>

text \<open>
  Each of the six futures over the port completes once: polled in any states by any tasks, it
  answers \<open>NotReady\<close> until its last answer, and a further poll panics.
\<close>

theorem iocp_futures_complete_once:
  "(\<forall>rs a'. poll_seq (Accept_poll_iocp E) xs a = Val (rs, a') \<longrightarrow> completes_last rs) \<and>
   (\<forall>rs c'. poll_seq (Connect_poll_iocp E) xs c = Val (rs, c') \<longrightarrow> completes_last rs) \<and>
   (\<forall>rs r'. poll_seq (TcpRead_poll_iocp E) xs r = Val (rs, r') \<longrightarrow> completes_last rs) \<and>
   (\<forall>rs w'. poll_seq (TcpWrite_poll_iocp E) xs w = Val (rs, w') \<longrightarrow> completes_last rs) \<and>
   (\<forall>rs v'. poll_seq (RecvFrom_poll_iocp E) xs v = Val (rs, v') \<longrightarrow> completes_last rs) \<and>
   (\<forall>rs s'. poll_seq (SendTo_poll_iocp E) xs s = Val (rs, s') \<longrightarrow> completes_last rs)"
  by (intro conjI allI impI)
    (erule waccept.poll_seq_completes_last wconnect.poll_seq_completes_last
      wread.poll_seq_completes_last wwrite.poll_seq_completes_last
      wrecv_from.poll_seq_completes_last wsend_to.poll_seq_completes_last)+

definition windows_done :: wenv where
  "windows_done = windows\<lparr>w_status := (\<lambda>tr a. if length tr < 6 then 259 else 0)\<rparr>"

theorem iocp_futures_complete_once_witness:
  "\<exists>rs st. poll_seq (TcpRead_poll_iocp windows_done)
      [(3, stream_port), (3, reading_port), (3, reading_port\<lparr>wtrace := wtrace reading_port @ wtrace reading_port\<rparr>)]
      (WReadInitial 9 (Heap 8)) = Val (rs, st) \<and> length rs = 3 \<and> completes_last rs"
proof -
  let ?xs = "[(3, stream_port), (3, reading_port),
    (3, reading_port\<lparr>wtrace := wtrace reading_port @ wtrace reading_port\<rparr>)]"
  obtain rs st where "poll_seq (TcpRead_poll_iocp windows_done) ?xs (WReadInitial 9 (Heap 8)) = Val (rs, st)"
    "length rs = 3"
    by (simp add: TcpRead_poll_iocp_def start_op_def OverlappedTask_new_def register_iocp_def wemit_def
        task_clone_def for_operation_def raw_of_def windows_done_def poll_socket_def port_defs Let_def)
  then show ?thesis
    using iocp_futures_complete_once [of windows_done ?xs WAcceptNone WConnectNone "WReadInitial 9 (Heap 8)"
        WWriteNone WRecvFromNone WSendToNone] by blast
qed

subsection \<open>Cancelation\<close>

text \<open>Memory of an operation whose packet is owed: the kernel may still read and write it.\<close>

definition in_use :: "addr \<Rightarrow> iocp \<Rightarrow> bool" where
  "in_use m s \<longleftrightarrow> (\<exists>op fd a ms. (Submit op fd a ms, True) \<in> set (wtrace s) \<and> m \<in> set ms \<and> 0 < owed a (wtrace s))"

text \<open>The buffer of a future whose operation is under way, with its socket and its task.\<close>

inductive waits_with :: "wfuture \<Rightarrow> nat \<Rightarrow> addr \<Rightarrow> addr \<Rightarrow> bool" where
  "waits_with (FRead (WReadPending k (Heap m) a)) k m a"
| "waits_with (FWrite (WWritePending k (Heap m) a)) k m a"
| "waits_with (FSendTo (WSendToPending k (Heap m) a)) k m a"
| "waits_with (FRecvFrom (WRecvFromPending k (Heap m) ab a)) k m a"

text \<open>Calls that start and end no operation.\<close>

definition later :: "iocp \<Rightarrow> iocp \<Rightarrow> bool" where
  "later s s' \<longleftrightarrow> (\<exists>tr. wtrace s' = wtrace s @ tr \<and> (\<forall>c \<in> set tr. idle (fst c)))"

lemma later_then [intro]:
  assumes "later s t"
  shows "later s (wsock_drop k t)" "later s (task_drop a t)" "later s (t\<lparr>bufs := b\<rparr>)"
proof -
  show "later s (wsock_drop k t)"
    using assms apart_wsock_drop [of t k] by (fastforce simp: apart_def later_def)
qed (use assms in \<open>auto simp: later_def\<close>)

lemma later_in_use:
  assumes "later s s'" and "in_use m s"
  shows "in_use m s'"
proof -
  obtain tr where "wtrace s' = wtrace s @ tr" "\<forall>c \<in> set tr. idle (fst c)"
    using assms(1) by (auto simp: later_def)
  then show ?thesis using assms(2) owed_idle [of tr] unfolding in_use_def by fastforce
qed

lemma later_cancel:
  assumes "cancel_socket E fd a s = (r, s')"
  shows "later s s' \<and> bufs s' = bufs s \<and> isl r = isl (w_call E (wtrace s) (CancelIoEx fd a))"
  using assms by (auto simp: cancel_socket_def wsys_def later_def Let_def split: sum.splits)

lemma drop_waiting:
  assumes "waits_with f k m a"
  shows "later s (future_drop E f s) \<and>
    bufs (future_drop E f s) m = (if isl (w_call E (wtrace s) (CancelIoEx (raw_of k s) a)) then bufs s m else None)"
proof -
  obtain r s1 where cs: "cancel_socket E (raw_of k s) a s = (r, s1)" by fastforce
  show ?thesis
    using assms cs later_cancel [OF cs]
    by cases (auto simp: cancel_and_drop_def give_up_def free_def split: sum.splits)
qed

text \<open>
  C16. Dropping a read, a write or a datagram under way asks the kernel to cancel it and frees the buffer
  exactly when that request is accepted.  But the operation ends only with its packet: the buffer is freed
  while the kernel may still write to it.
\<close>

theorem cancel_frees_buffer_in_use:
  assumes "iocp_reachable E chk (fs @ f # gs, s)" and "waits_with f k m a"
    and "in_use m s" and "bufs s m = Some bs"
  shows "iocp_reachable E chk (fs @ gs, future_drop E f s) \<and> in_use m (future_drop E f s) \<and>
    (bufs (future_drop E f s) m = None \<longleftrightarrow> is_ok (w_call E (wtrace s) (CancelIoEx (raw_of k s) a)))"
  using iocp_reachable.Step [OF assms(1) iocp_step.Drop] drop_waiting [OF assms(2), of s E]
    later_in_use assms(3,4) by auto

theorem cancel_frees_buffer_in_use_witness:
  "let s = future_drop windows (FRead (WReadPending 9 (Heap 8) 10)) reading_port
   in iocp_reachable windows True ([], s) \<and> in_use 8 s \<and> bufs s 8 = None"
proof -
  let ?f = "FRead (WReadPending 9 (Heap 8) 10)"
  have "(Submit OpRead 5 10 [8], True) \<in> set (wtrace reading_port) \<and> 0 < owed 10 (wtrace reading_port)"
    by (simp add: port_defs owed_def)
  then have "in_use 8 reading_port" unfolding in_use_def by (meson list.set_intros(1))
  moreover have "bufs reading_port 8 = Some [0, 0, 0, 0]" by (simp add: port_defs)
  moreover have "is_ok (w_call windows (wtrace reading_port) (CancelIoEx (raw_of 9 reading_port) 10))"
    by (simp add: windows_def)
  ultimately show ?thesis
    using cancel_frees_buffer_in_use [of windows True "[]" ?f "[]" reading_port 9 8 10 "[0, 0, 0, 0]"]
      reading_port_reachable waits_with.intros(1) [of 9 8 10] by (simp add: Let_def del: future_drop.simps)
qed

end
