(* ===== verification/IocpWakeups.thy ===== *)
theory IocpWakeups
  imports IocpSafety
begin

text \<open>
  No wake-up is lost on the completion port (\<open>src/src/iocp/mod.rs\<close>, \<open>src/src/iocp/net.rs\<close>): a future that waits
  has looked at the status of its operation after it registered its task, so that its packet is still to
  come, and the turn that dequeues it notifies the task.  Polls and turns are atomic here.
\<close>

subsection \<open>Calls that concern a task\<close>

fun about :: "wcall \<Rightarrow> addr option" where
  "about (Submit _ _ a _) = Some a"
| "about (RegisterTask a _) = Some a"
| "about (Dequeued tok a) = (if tok = FUTURE_NOTIFY_IOCP_TOKEN then Some a else None)"
| "about _ = None"

definition concerns :: "addr set \<Rightarrow> iocp \<Rightarrow> iocp \<Rightarrow> bool" where
  "concerns A s s' \<longleftrightarrow> wfresh s \<le> wfresh s' \<and> (\<exists>tr. wtrace s' = wtrace s @ tr \<and>
     (\<forall>c \<in> set tr. \<forall>b. about (fst c) = Some b \<longrightarrow> b \<in> A \<or> wfresh s \<le> b))"

lemma concerns_refl [simp]: "concerns A s s"
  by (simp add: concerns_def)

lemma concerns_trans [trans]:
  assumes "concerns A s t" and "concerns A t v"
  shows "concerns A s v"
proof -
  obtain tr tr' where
    "wtrace t = wtrace s @ tr" "\<forall>c \<in> set tr. \<forall>b. about (fst c) = Some b \<longrightarrow> b \<in> A \<or> wfresh s \<le> b"
    "wtrace v = wtrace t @ tr'" "\<forall>c \<in> set tr'. \<forall>b. about (fst c) = Some b \<longrightarrow> b \<in> A \<or> wfresh t \<le> b"
    using assms by (auto simp: concerns_def)
  then have "wtrace v = wtrace s @ (tr @ tr')"
    "\<forall>c \<in> set (tr @ tr'). \<forall>b. about (fst c) = Some b \<longrightarrow> b \<in> A \<or> wfresh s \<le> b"
    using assms by (auto simp: concerns_def dest: order_trans)
  then show ?thesis using assms unfolding concerns_def by (meson order_trans)
qed

lemma about_idle: "idle c \<Longrightarrow> about c = None"
  by (cases c) auto

lemma concerns_apart: "apart s s' \<Longrightarrow> concerns A s s'"
  unfolding apart_def concerns_def by (auto simp: about_idle)

text \<open>What happens after a state \<open>t\<close> that \<open>s\<close> has led to.\<close>

lemma concerns_task_drop: "concerns A s t \<Longrightarrow> concerns A s (task_drop a t)"
  by (simp add: concerns_def task_drop_def)

lemma concerns_then:
  assumes "concerns A s t" and "apart t v"
  shows "concerns A s v"
  using assms(1) concerns_apart [OF assms(2)] by (rule concerns_trans)

lemmas concerns_drops =
  concerns_task_drop concerns_then [OF _ apart_wsock_drop] concerns_then [OF _ apart_give_up]
  concerns_then [OF _ apart_free] concerns_then [OF _ apart_close]

lemma concerns_register: "a \<in> A \<Longrightarrow> concerns A s (register_iocp a t s)"
  by (simp add: concerns_def register_iocp_def wemit_def)

lemma concerns_poll_socket:
  assumes "poll_socket E fd a (register_iocp a t s) = (r, s')" and "a \<in> A"
  shows "concerns A s s'"
  using concerns_register [OF assms(2)] apart_poll_socket [OF assms(1)] by (rule concerns_then)

lemma concerns_start_op:
  assumes "start_op E t (\<lambda>a. Submit op fd a bs) s = (r, s')"
  shows "concerns A s s'"
  using assms
  by (auto simp: start_op_def OverlappedTask_new_def for_operation_def register_iocp_def wemit_def
      task_clone_def task_drop_def concerns_def Let_def split: sum.split_asm)

lemma submitted_append [simp]: "submitted (tr @ tr') = submitted tr @ submitted tr'"
  by (simp add: submitted_def map_filter_def)

lemma submitted_simps [simp]:
  "submitted [] = []"
  "submitted (c # tr) = (case c of (Submit _ _ a _, True) \<Rightarrow> a # submitted tr | _ \<Rightarrow> submitted tr)"
   apply (simp add: submitted_def map_filter_simps)
  apply (cases c, rename_tac x ok, case_tac x; case_tac ok; simp add: submitted_def map_filter_simps)
  done

lemma owed_two: "owed a (tr @ [c, c']) = owed_step a c' (owed_step a c (owed a tr))"
  by (simp add: owed_def)

lemma ready_not_pending [simp]: "map_sum id Ready r \<noteq> Inr NotReady"
  by (cases r) auto

text \<open>A started operation is under way, on a task of its own.\<close>

definition under_way :: "addr \<Rightarrow> iocp \<Rightarrow> bool" where
  "under_way a s \<longleftrightarrow> a \<in> set (submitted (wtrace s)) \<and> 0 < owed a (wtrace s)"

lemma start_op_under_way:
  assumes "start_op E t (\<lambda>a. Submit op fd a bs) s = (Inr (a, x), s')"
  shows "a = wfresh s \<and> a < wfresh s' \<and> under_way a s'"
  using assms
  by (auto simp: start_op_def OverlappedTask_new_def for_operation_def register_iocp_def wemit_def
      task_clone_def task_drop_def under_way_def Let_def owed_two split: sum.split_asm)

text \<open>
  The status of an operation that was started is no longer \<open>STATUS_PENDING\<close> when its packet has been
  dequeued.
\<close>

definition status_ok :: "wenv \<Rightarrow> bool" where
  "status_ok E \<longleftrightarrow> (\<forall>tr a. a \<in> set (submitted tr) \<and> owed a tr = 0 \<longrightarrow> w_status E tr a \<noteq> STATUS_PENDING E)"

lemma poll_socket_under_way:
  assumes "poll_socket E fd a (register_iocp a t s) = (Inr NotReady, s')" and "status_ok E"
    and "a \<in> set (submitted (wtrace s))"
  shows "under_way a s'"
proof -
  let ?tr = "wtrace s @ [(RegisterTask a t, True)]"
  have "w_status E ?tr a = STATUS_PENDING E" "wtrace s' = ?tr @ [(ReadInternal a, False)]"
    using assms(1) by (auto simp: poll_socket_def register_iocp_def wemit_def Let_def split: if_splits)
  moreover have "a \<in> set (submitted ?tr)" using assms(3) by simp
  with \<open>w_status E ?tr a = STATUS_PENDING E\<close> have "0 < owed a ?tr"
    using assms(2) unfolding status_ok_def by (metis gr0I)
  ultimately show ?thesis using assms(3) by (simp add: under_way_def del: append_assoc)
qed

subsection \<open>Polling\<close>

text \<open>
  What a poll of a future in state \<open>f\<close> may do: talk of the future's own task and of new ones, and end on a
  task whose operation is under way.
\<close>

definition polled :: "wfuture \<Rightarrow> iocp \<Rightarrow> wfuture \<Rightarrow> iocp \<Rightarrow> bool" where
  "polled f s f' s' \<longleftrightarrow> concerns (set_option (task_of f)) s s' \<and>
     (\<forall>a. task_of f' = Some a \<longrightarrow> under_way a s' \<and> a < wfresh s' \<and> (task_of f = Some a \<or> wfresh s \<le> a))"

definition own_ok :: "wfuture \<Rightarrow> iocp \<Rightarrow> bool" where
  "own_ok f s \<longleftrightarrow> (\<forall>a. task_of f = Some a \<longrightarrow> a \<in> set (submitted (wtrace s)) \<and> a < wfresh s)"

lemma concerns_wfresh: "concerns A s s' \<Longrightarrow> wfresh s \<le> wfresh s'"
  by (simp add: concerns_def)

text \<open>The ways a poll goes on: an operation is started, or one is looked at.\<close>

lemma start_Inl:
  assumes "start_op E t (\<lambda>a. Submit op fd a bs) s = (Inl e, s')"
  shows "concerns {} s s'"
  using assms by (rule concerns_start_op)

lemma start_Inr:
  assumes "start_op E t (\<lambda>a. Submit op fd a bs) s = (Inr (a, x), s')"
  shows "concerns {} s s' \<and> wfresh s \<le> a \<and> a < wfresh s' \<and> under_way a s'"
  using concerns_start_op [OF assms] start_op_under_way [OF assms] by auto

lemma look_done:
  assumes "poll_socket E fd a (register_iocp a t s) = (r, s')"
  shows "concerns {a} s s'"
  using concerns_poll_socket [OF assms, of "{a}"] by simp

lemma look_waits:
  assumes "status_ok E" and "a \<in> set (submitted (wtrace s))" and "a < wfresh s"
    and "poll_socket E fd a (register_iocp a t s) = (Inr NotReady, s')"
  shows "concerns {a} s s' \<and> a < wfresh s' \<and> under_way a s'"
  using look_done [OF assms(4)] poll_socket_under_way [OF assms(4,1,2)] assms(3) concerns_wfresh
  by (metis less_le_trans)

lemma polled_Write:
  assumes "TcpWrite_poll_iocp E t st s = Val (r, st', s')" and "own_ok (FWrite st) s" and "status_ok E"
  shows "polled (FWrite st) s (FWrite st') s'"
proof (cases st)
  case (WWriteInitial k b)
  then show ?thesis
    using assms(1)
    by (auto simp: TcpWrite_poll_iocp_def polled_def split: prod.splits sum.splits option.splits
        dest!: start_Inl start_Inr intro!: concerns_drops)
next
  case (WWritePending k b a)
  then have own: "a \<in> set (submitted (wtrace s))" "a < wfresh s" using assms(2) by (auto simp: own_ok_def)
  show ?thesis
    using assms(1) WWritePending
    by (auto simp: TcpWrite_poll_iocp_def polled_def split: prod.splits sum.splits Async.splits
        dest: look_done look_waits [OF assms(3) own] intro!: concerns_drops)
qed (use assms in \<open>simp add: TcpWrite_poll_iocp_def\<close>)

lemma polled_Read:
  assumes "TcpRead_poll_iocp E t st s = Val (r, st', s')" and "own_ok (FRead st) s" and "status_ok E"
  shows "polled (FRead st) s (FRead st') s'"
proof (cases st)
  case (WReadInitial k b)
  then show ?thesis
    using assms(1)
    by (auto simp: TcpRead_poll_iocp_def polled_def split: prod.splits sum.splits option.splits
        dest!: start_Inl start_Inr intro!: concerns_drops)
next
  case (WReadPending k b a)
  then have own: "a \<in> set (submitted (wtrace s))" "a < wfresh s" using assms(2) by (auto simp: own_ok_def)
  show ?thesis
    using assms(1) WReadPending
    by (auto simp: TcpRead_poll_iocp_def polled_def split: prod.splits sum.splits Async.splits
        dest: look_done look_waits [OF assms(3) own] intro!: concerns_drops)
qed (use assms in \<open>simp add: TcpRead_poll_iocp_def\<close>)

lemma polled_SendTo:
  assumes "SendTo_poll_iocp E t st s = Val (r, st', s')" and "own_ok (FSendTo st) s" and "status_ok E"
  shows "polled (FSendTo st) s (FSendTo st') s'"
proof (cases st)
  case (WSendToInitial k b p)
  then show ?thesis
    using assms(1)
    by (auto simp: SendTo_poll_iocp_def sent_def polled_def
        split: prod.splits sum.splits option.splits if_splits
        dest!: start_Inl start_Inr intro!: concerns_drops)
next
  case (WSendToPending k b a)
  then have own: "a \<in> set (submitted (wtrace s))" "a < wfresh s" using assms(2) by (auto simp: own_ok_def)
  show ?thesis
    using assms(1) WSendToPending
    by (auto simp: SendTo_poll_iocp_def sent_def polled_def
        split: prod.splits sum.splits Async.splits if_splits
        dest: look_done look_waits [OF assms(3) own] intro!: concerns_drops)
qed (use assms in \<open>simp add: SendTo_poll_iocp_def\<close>)

text \<open>The ends of a receive, a connect and an accept that wait no more.\<close>

lemma concerns_received:
  assumes "received E k b n ab a s = Val (r, st', s')" and "concerns A s0 s"
  shows "concerns A s0 s' \<and> task_of (FRecvFrom st') = None"
  using assms by (auto simp: received_def split: option.split_asm intro!: concerns_drops)

lemma concerns_connected:
  assumes "connected E k s = Val (r, st', s')" and "concerns A s0 s"
  shows "concerns A s0 s' \<and> task_of (FConnect st') = None"
  using assms
  by (auto simp: connected_def split: prod.splits sum.splits dest: apart_from_connected concerns_then)

lemma concerns_accept_finish:
  assumes "accept_finish E l fd ab a s = Val (r, st', s')" and "concerns A s0 s"
  shows "concerns A s0 s' \<and> task_of (FAccept st') = None"
proof -
  obtain q s1 where "from_accepted_stream E fd l s = (q, s1)" by fastforce
  then have "concerns A s0 s1" using concerns_then [OF assms(2)] apart_from_accepted by blast
  then show ?thesis
    using assms(1) \<open>from_accepted_stream E fd l s = (q, s1)\<close>
    by (auto simp: accept_finish_def accept_done_def split: prod.splits sum.splits option.splits
        dest!: apart_sys dest: concerns_then intro!: concerns_drops)
qed

lemma polled_RecvFrom:
  assumes "RecvFrom_poll_iocp E t st s = Val (r, st', s')" and "own_ok (FRecvFrom st) s" and "status_ok E"
  shows "polled (FRecvFrom st) s (FRecvFrom st') s'"
proof (cases st)
  case (WRecvFromInitial k b)
  obtain ab s1 where al: "alloc [] s = (ab, s1)" by (cases "alloc [] s")
  have c: "concerns {} s s1" by (rule concerns_apart [OF apart_alloc [OF al]])
  show ?thesis
    using assms(1) WRecvFromInitial al
    by (auto simp: RecvFrom_poll_iocp_def polled_def split: prod.splits sum.splits option.splits
        dest!: start_Inl start_Inr concerns_trans [OF c] dest: concerns_received
        intro!: concerns_drops order_trans [OF concerns_wfresh [OF c]])
next
  case (WRecvFromPending k b ab a)
  then have own: "a \<in> set (submitted (wtrace s))" "a < wfresh s" using assms(2) by (auto simp: own_ok_def)
  show ?thesis
    using assms(1) WRecvFromPending
    by (auto simp: RecvFrom_poll_iocp_def polled_def split: prod.splits sum.splits Async.splits
        dest: look_done look_waits [OF assms(3) own] concerns_received intro!: concerns_drops)
qed (use assms in \<open>simp add: RecvFrom_poll_iocp_def\<close>)

lemma polled_Connect:
  assumes "Connect_poll_iocp E t st s = Val (r, st', s')" and "own_ok (FConnect st) s" and "status_ok E"
  shows "polled (FConnect st) s (FConnect st') s'"
proof (cases st)
  case (WConnectInitial k p)
  then show ?thesis
    using assms(1)
    by (auto simp: Connect_poll_iocp_def polled_def split: prod.splits sum.splits option.splits
        dest!: start_Inl start_Inr dest: concerns_connected [OF _ concerns_task_drop] intro!: concerns_drops)
next
  case (WConnectPending k a)
  then have own: "a \<in> set (submitted (wtrace s))" "a < wfresh s" using assms(2) by (auto simp: own_ok_def)
  show ?thesis
    using assms(1) WConnectPending
    by (auto simp: Connect_poll_iocp_def polled_def split: prod.splits sum.splits Async.splits
        dest: look_done look_waits [OF assms(3) own] concerns_connected [OF _ concerns_task_drop]
        intro!: concerns_drops)
qed (use assms in \<open>auto simp: Connect_poll_iocp_def polled_def\<close>)

lemma polled_initiate:
  assumes "Accept_initiate E v4 t l s = Val (r, st', s')"
  shows "polled (FAccept (WAcceptInitial l)) s (FAccept st') s'"
proof -
  obtain q s1 where new: "wsys E (NewTcp v4) s = (q, s1)" by fastforce
  obtain ab s2 where al: "alloc [] s1 = (ab, s2)" by (cases "alloc [] s1")
  have c1: "concerns {} s s1" using concerns_apart [OF apart_sys [OF new]] by simp
  have c: "concerns {} s s2" by (rule concerns_then [OF c1 apart_alloc [OF al]])
  show ?thesis
    using assms new al c1
    by (auto simp: Accept_initiate_def polled_def split: prod.splits sum.splits option.splits
        dest!: start_Inl start_Inr concerns_trans [OF c] dest: concerns_accept_finish
        intro!: concerns_drops order_trans [OF concerns_wfresh [OF c]])
qed

lemma polled_Accept:
  assumes "Accept_poll_iocp E t st s = Val (r, st', s')" and "own_ok (FAccept st) s" and "status_ok E"
  shows "polled (FAccept st) s (FAccept st') s'"
proof (cases st)
  case (WAcceptInitial l)
  then show ?thesis
    using assms(1) polled_initiate
    by (auto simp: Accept_poll_iocp_def initiate_v4_def initiate_v6_def split: option.splits ip_version.splits)
next
  case (WAcceptPending l fd ab a)
  then have own: "a \<in> set (submitted (wtrace s))" "a < wfresh s" using assms(2) by (auto simp: own_ok_def)
  show ?thesis
    using assms(1) WAcceptPending
    by (auto simp: Accept_poll_iocp_def polled_def split: prod.splits sum.splits Async.splits
        dest: look_done look_waits [OF assms(3) own] concerns_accept_finish intro!: concerns_drops)
qed (use assms in \<open>simp add: Accept_poll_iocp_def\<close>)

lemma polled_future:
  assumes "future_poll E t f s = Val (f', s')" and "own_ok f s" and "status_ok E"
  shows "polled f s f' s'"
proof (cases f)
  case (FAccept st)
  then show ?thesis using assms polled_Accept by (auto simp: keep_Val)
next
  case (FConnect st)
  then show ?thesis using assms polled_Connect by (auto simp: keep_Val)
next
  case (FRead st)
  then show ?thesis using assms polled_Read by (auto simp: keep_Val)
next
  case (FWrite st)
  then show ?thesis using assms polled_Write by (auto simp: keep_Val)
next
  case (FRecvFrom st)
  then show ?thesis using assms polled_RecvFrom by (auto simp: keep_Val)
next
  case (FSendTo st)
  then show ?thesis using assms polled_SendTo by (auto simp: keep_Val)
qed

lemma concerns_cancel:
  assumes "cancel_socket E fd a s = (r, s')"
  shows "concerns A s s'"
  using assms
  by (auto simp: cancel_socket_def wsys_def task_drop_def concerns_def Let_def split: sum.splits)

lemma concerns_future_drop: "concerns A s (future_drop E f s)"
proof (cases f)
  case (FAccept st)
  then show ?thesis by (cases st) (auto intro!: concerns_drops)
next
  case (FConnect st)
  then show ?thesis by (cases st) (auto intro!: concerns_drops)
next
  case (FRead st)
  then show ?thesis
    by (cases st) (auto simp: cancel_and_drop_def split: prod.split sum.split
        intro!: concerns_drops dest: concerns_cancel)
next
  case (FWrite st)
  then show ?thesis
    by (cases st) (auto simp: cancel_and_drop_def split: prod.split sum.split
        intro!: concerns_drops dest: concerns_cancel)
next
  case (FRecvFrom st)
  then show ?thesis
    by (cases st) (auto split: prod.split sum.split intro!: concerns_drops dest: concerns_cancel)
next
  case (FSendTo st)
  then show ?thesis
    by (cases st) (auto simp: cancel_and_drop_def split: prod.split sum.split
        intro!: concerns_drops dest: concerns_cancel)
qed

subsection \<open>No future waits in vain\<close>

text \<open>Whether the task \<open>a\<close> has been notified since it last registered.\<close>

fun wake_step :: "addr \<Rightarrow> wcall \<times> bool \<Rightarrow> bool \<Rightarrow> bool" where
  "wake_step a (RegisterTask b _, _) w = (b \<noteq> a \<and> w)"
| "wake_step a (NotifyTask b, _) w = (b = a \<or> w)"
| "wake_step a _ w = w"

definition woken :: "addr \<Rightarrow> wtrace \<Rightarrow> bool" where
  "woken a tr = fold (wake_step a) tr False"

lemma woken_snoc [simp]: "woken a (tr @ [c]) = wake_step a c (woken a tr)"
  by (simp add: woken_def)

definition served :: "addr \<Rightarrow> iocp \<Rightarrow> bool" where
  "served a s \<longleftrightarrow> a < wfresh s \<and> a \<in> set (submitted (wtrace s)) \<and> (0 < owed a (wtrace s) \<or> woken a (wtrace s))"

lemma about_other:
  assumes "about (fst c) \<noteq> Some a"
  shows "owed_step a c n = n" and "w \<Longrightarrow> wake_step a c w"
  using assms by (cases "(a, c, n)" rule: owed_step.cases; auto)
    (use assms in \<open>cases "(a, c, w)" rule: wake_step.cases; auto\<close>)

lemma other_calls:
  "\<forall>c \<in> set tr. about (fst c) \<noteq> Some a \<Longrightarrow>
   owed a (tr0 @ tr) = owed a tr0 \<and> (woken a tr0 \<longrightarrow> woken a (tr0 @ tr))"
proof (induction tr rule: rev_induct)
  case (snoc c tr)
  then show ?case using about_other [of c a] by (simp flip: append_assoc)
qed simp

lemma served_concerns:
  assumes "concerns A s s'" and "a \<notin> A" and "served a s"
  shows "served a s'"
proof -
  obtain tr where tr: "wtrace s' = wtrace s @ tr"
    "\<forall>c \<in> set tr. \<forall>b. about (fst c) = Some b \<longrightarrow> b \<in> A \<or> wfresh s \<le> b"
    using assms(1) by (auto simp: concerns_def)
  have "\<forall>c \<in> set tr. about (fst c) \<noteq> Some a" using tr(2) assms(2,3) by (fastforce simp: served_def)
  from other_calls [OF this, of "wtrace s"] show ?thesis
    using assms(1,3) tr(1) concerns_wfresh [OF assms(1)] by (auto simp: served_def)
qed

lemma turn_serves:
  assumes "turn_iocp E chk m s = Val (r, s')" and "packets_ok E" and "served a s"
  shows "served a s'"
proof -
  obtain ms where ms: "timeout_iocp E chk m = Val ms"
    using assms(1) by (auto simp: turn_iocp_def poll_iocp_def split: rust.splits)
  let ?q = "\<lambda>ok. s\<lparr>wtrace := wtrace s @ [(GetQueuedStatus ms, ok)]\<rparr>"
  have q: "concerns {} s (?q ok)" for ok by (rule concerns_apart) (simp add: apart_def)
  show ?thesis
  proof (cases "w_wait E (wtrace s) (GetQueuedStatus ms)")
    case (Inl e)
    then have "s' = ?q False"
      using assms(1) ms by (auto simp: turn_iocp_def poll_iocp_def Let_def split: if_splits)
    then show ?thesis using served_concerns [OF q _ assms(3)] by simp
  next
    case (Inr cs)
    have "length cs \<le> 1" using assms(2) Inr by (auto simp: packets_ok_def)
    then consider "cs = []" | tok ov where "cs = [(tok, ov)]"
      by (cases cs) (auto simp: length_Suc_conv)
    then show ?thesis
    proof cases
      case 1
      then have "s' = ?q True" using assms(1) ms Inr by (simp add: turn_iocp_def poll_iocp_def Let_def)
      then show ?thesis using served_concerns [OF q _ assms(3)] by simp
    next
      case 2
      let ?d = "s\<lparr>wtrace := wtrace s @ [(GetQueuedStatus ms, True), (Dequeued tok ov, True)]\<rparr>"
      have one: "complete_one (tok, ov) ?d = Val s'"
        using assms(1) turn_one [OF ms, of s tok ov] Inr 2 by (auto split: rust.splits)
      show ?thesis
      proof (cases "tok = FUTURE_NOTIFY_IOCP_TOKEN")
        case True
        then have s': "s' = task_drop ov (wemit (NotifyTask ov) ?d)"
          using one by (auto simp: complete_one_def split: option.splits)
        show ?thesis
        proof (cases "ov = a")
          case True
          then show ?thesis using assms(3) s' by (simp add: served_def wemit_def task_drop_def woken_def)
        next
          case False
          have "concerns {ov} s s'"
            unfolding s' by (rule concerns_task_drop) (auto simp: concerns_def wemit_def)
          then show ?thesis using served_concerns [of "{ov}"] assms(3) False by simp
        qed
      next
        case False
        then have "concerns {} s s'"
          using one by (auto simp: complete_one_def concerns_def wemit_def split: if_splits)
        then show ?thesis using served_concerns assms(3) by blast
      qed
    qed
  qed
qed

text \<open>Every pending future is served, by a task that is its own.\<close>

definition wait_inv :: "wfuture list \<Rightarrow> iocp \<Rightarrow> bool" where
  "wait_inv fs s \<longleftrightarrow> (\<forall>a. users fs a \<le> 1) \<and> (\<forall>a. 0 < users fs a \<longrightarrow> served a s)"

lemma users_pos: "0 < users fs a \<longleftrightarrow> (\<exists>f \<in> set fs. task_of f = Some a)"
  by (auto simp: users_def filter_empty_conv)

lemma wait_inv_concerns: "wait_inv fs s \<Longrightarrow> concerns {} s s' \<Longrightarrow> wait_inv fs s'"
  using served_concerns by (auto simp: wait_inv_def)

lemma wait_inv_new:
  "wait_inv fs s \<Longrightarrow> concerns {} s s' \<Longrightarrow> task_of f = None \<Longrightarrow> wait_inv (fs @ [f]) s'"
  using wait_inv_concerns by (simp add: wait_inv_def users_new)

lemma wait_inv_poll:
  assumes "wait_inv (fs @ f # gs) s" and "polled f s f' s'"
  shows "wait_inv (fs @ f' # gs) s'"
proof -
  let ?u = "users (fs @ gs)"
  have le: "bump ?u (task_of f) a \<le> 1" for a
    using assms(1) by (simp add: wait_inv_def users_split)
  have sv: "served a s" if "0 < bump ?u (task_of f) a" for a
    using assms(1) that by (simp add: wait_inv_def users_split)
  have le': "?u a \<le> 1" and sv': "0 < ?u a \<Longrightarrow> served a s" for a
    using le [of a] sv [of a] by (cases "task_of f"; auto split: if_splits)+
  have others: "served a s'" if "0 < ?u a" for a
  proof -
    have "task_of f \<noteq> Some a" using le [of a] that by auto
    then show ?thesis
      using served_concerns [of "set_option (task_of f)" s s' a] assms(2) sv' [OF that]
      by (auto simp: polled_def)
  qed
  show ?thesis
  proof (cases "task_of f'")
    case None
    then show ?thesis using le' others by (simp add: wait_inv_def users_split)
  next
    case (Some a)
    then have a: "under_way a s'" "a < wfresh s'" "task_of f = Some a \<or> wfresh s \<le> a"
      using assms(2) by (auto simp: polled_def)
    have "?u a = 0"
      using a(3) le [of a] sv' [of a] by (fastforce simp: served_def)
    moreover have "served a s'" using a by (simp add: served_def under_way_def)
    ultimately show ?thesis using Some le' others by (auto simp: wait_inv_def users_split)
  qed
qed

lemma wait_inv_drop:
  assumes "wait_inv (fs @ f # gs) s"
  shows "wait_inv (fs @ gs) (future_drop E f s)"
proof -
  have "users (fs @ gs) a \<le> users (fs @ f # gs) a" for a
    by (cases "task_of f") (auto simp: users_split)
  then have "wait_inv (fs @ gs) s"
    using assms unfolding wait_inv_def by (meson le_trans less_le_trans)
  then show ?thesis using wait_inv_concerns concerns_future_drop by blast
qed

lemma own_ok_served: "wait_inv (fs @ f # gs) s \<Longrightarrow> own_ok f s"
  by (auto simp: own_ok_def wait_inv_def users_pos served_def)

lemma concerns_new:
  "TcpListener_accept_iocp l s = (st, s') \<Longrightarrow> concerns {} s s' \<and> task_of (FAccept st) = None"
  "TcpStream_read_iocp k b s = (st1, s') \<Longrightarrow> concerns {} s s' \<and> task_of (FRead st1) = None"
  "TcpStream_write_iocp k b s = (st2, s') \<Longrightarrow> concerns {} s s' \<and> task_of (FWrite st2) = None"
  "UdpSocket_recv_from_iocp k b s = (st3, s') \<Longrightarrow> concerns {} s s' \<and> task_of (FRecvFrom st3) = None"
  "UdpSocket_send_to_iocp k b p s = (st4, s') \<Longrightarrow> concerns {} s s' \<and> task_of (FSendTo st4) = None"
  "TcpStream_connect_iocp E p s = (st5, s') \<Longrightarrow> concerns {} s s' \<and> task_of (FConnect st5) = None"
  by (auto simp: TcpListener_accept_iocp_def TcpStream_read_iocp_def TcpStream_write_iocp_def
      UdpSocket_recv_from_iocp_def UdpSocket_send_to_iocp_def TcpStream_connect_iocp_def
      split: prod.splits sum.splits dest!: apart_ensure apart_sys apart_make(2)
      intro!: concerns_apart intro: apart_trans apart_wsock_clone apart_wsock_drop apart_close)
    (meson apart_trans apart_wsock_clone apart_wsock_drop)+

lemma wait_inv_step:
  assumes "iocp_step E chk (fs, s) (gs, s')" and "packets_ok E" and "status_ok E" and inv: "wait_inv fs s"
  shows "wait_inv gs s'"
  using assms(1)
proof cases
  case (Turn m r)
  then show ?thesis using inv turn_serves [OF _ assms(2)] by (auto simp: wait_inv_def)
next
  case (NewEvent tag)
  then have "concerns {} s s'" by (auto simp: new_custom_event_iocp_def concerns_def Let_def)
  then show ?thesis using NewEvent inv wait_inv_concerns by blast
next
  case (Post tag d r)
  then have "concerns {} s s'"
    by (auto simp: post_custom_event_iocp_def wsys_def concerns_def Let_def split: if_splits)
  then show ?thesis using Post inv wait_inv_concerns by blast
next
  case Clone
  then show ?thesis using inv by (simp add: CompletionPort_handle_def wait_inv_def served_def)
next
  case DropHandle
  then show ?thesis using inv wait_inv_concerns concerns_apart [OF apart_drop_port] by blast
next
  case (Listen fd r)
  then show ?thesis using inv wait_inv_concerns concerns_apart [OF apart_make(1)] by blast
next
  case (Stream fd r)
  then show ?thesis using inv wait_inv_concerns concerns_apart [OF apart_make(2)] by blast
next
  case (Datagram fd r)
  then show ?thesis using inv wait_inv_concerns concerns_apart [OF apart_make(3)] by blast
next
  case (ConnectDatagram k p r)
  then show ?thesis using inv wait_inv_concerns concerns_apart [OF apart_make(4)] by blast
next
  case CloneSocket
  then show ?thesis using inv wait_inv_concerns concerns_apart [OF apart_wsock_clone] by blast
next
  case DropSocket
  then show ?thesis using inv wait_inv_concerns concerns_apart [OF apart_wsock_drop] by blast
next
  case (NewBuffer bs a)
  then show ?thesis using inv wait_inv_concerns concerns_apart [OF apart_alloc] by blast
next
  case DropBuffer
  then show ?thesis using inv wait_inv_concerns concerns_apart [OF apart_buf_drop] by blast
next
  case (Accept l st)
  then show ?thesis using wait_inv_new [OF inv] concerns_new(1) by blast
next
  case (Connect p st)
  then show ?thesis using wait_inv_new [OF inv] concerns_new(6) by blast
next
  case (Read k bf st)
  then show ?thesis using wait_inv_new [OF inv] concerns_new(2) by blast
next
  case (Write k bf st)
  then show ?thesis using wait_inv_new [OF inv] concerns_new(3) by blast
next
  case (RecvFrom k bf st)
  then show ?thesis using wait_inv_new [OF inv] concerns_new(4) by blast
next
  case (SendTo k bf p st)
  then show ?thesis using wait_inv_new [OF inv] concerns_new(5) by blast
next
  case (Poll t f f' xs ys)
  then show ?thesis
    using wait_inv_poll inv polled_future [OF _ own_ok_served assms(3)] by blast
next
  case (Drop xs f ys)
  then show ?thesis using wait_inv_drop inv by blast
qed

lemma wait_inv_reachable:
  assumes "iocp_reachable E chk p" and "packets_ok E" and "status_ok E"
  shows "wait_inv (fst p) (snd p)"
  using assms(1)
proof induction
  case (Start n s)
  then show ?case by (simp add: wait_inv_def users_def)
next
  case (Step p q)
  then show ?case using wait_inv_step [OF _ assms(2,3)] by (metis prod.collapse)
qed

text \<open>
  C9. No future over the port waits in vain: the packet of its operation is still owed, and the turn that
  dequeues it will notify the future, or the task has been notified since it last registered.  Each
  pending future has a task of its own.
\<close>

theorem iocp_no_lost_wakeup:
  assumes "iocp_reachable E chk (fs, s)" and "packets_ok E" and "status_ok E"
    and "f \<in> set fs" and "task_of f = Some a"
  shows "(0 < owed a (wtrace s) \<or> woken a (wtrace s)) \<and> length (filter (\<lambda>g. task_of g = Some a) fs) = 1"
proof -
  have "wait_inv fs s" using wait_inv_reachable [OF assms(1-3)] by simp
  moreover have "0 < users fs a" using assms(4,5) users_pos by blast
  ultimately show ?thesis by (auto simp: wait_inv_def served_def users_def le_Suc_eq)
qed

lemma windows_status_ok: "status_ok windows"
  by (simp add: status_ok_def windows_def)

theorem iocp_no_lost_wakeup_witness:
  "0 < owed 10 (wtrace reading_port) \<or> woken 10 (wtrace reading_port)"
  using iocp_no_lost_wakeup [OF reading_port_reachable windows_packets_ok windows_status_ok,
      of "FRead (WReadPending 9 (Heap 8) 10)" 10] by simp

end
